(* ===== verification/Tm_Prelude.thy ===== *)
theory Tm_Prelude
  imports Main "HOL-Library.Monad_Syntax"
begin

text \<open>
  Shared vocabulary of the development: the codes and enumerations of
  \<^verbatim>\<open>sqf/export/include/dtm/tm.h\<close>, \<^verbatim>\<open>sqf/src/tm/xa.h\<close>,
  \<^verbatim>\<open>sqf/inc/fs/feerrors.h\<close> and \<^verbatim>\<open>sqf/src/tm/tmlibmsg.h\<close>, the collections of
  simplification rules, and the generic facts on lists and on the option monad
  that the component theories share.

  Every operation that can call \<^verbatim>\<open>abort()\<close> (the transaction manager brings its own
  process down on a logic error) or that would touch memory it does not own
  returns an \<^typ>\<open>'a option\<close>; the value \<^const>\<open>None\<close> is that crash and nothing else.
\<close>

named_theorems tm_codes "the numeric codes of the interface headers"
named_theorems tm_run "rules that run the option monad of a model operation"
named_theorems tm_frame "what an operation leaves unchanged"

section \<open>Return codes\<close>

text \<open>XA return codes, \<^verbatim>\<open>xa.h\<close>.\<close>

abbreviation (input) XA_OK :: int where "XA_OK \<equiv> 0"
abbreviation (input) XA_RDONLY :: int where "XA_RDONLY \<equiv> 3"
abbreviation (input) XA_RETRY :: int where "XA_RETRY \<equiv> 4"
abbreviation (input) XA_HEURMIX :: int where "XA_HEURMIX \<equiv> 5"
abbreviation (input) XA_HEURRB :: int where "XA_HEURRB \<equiv> 6"
abbreviation (input) XA_HEURCOM :: int where "XA_HEURCOM \<equiv> 7"
abbreviation (input) XA_HEURHAZ :: int where "XA_HEURHAZ \<equiv> 8"
abbreviation (input) XA_RBROLLBACK :: int where "XA_RBROLLBACK \<equiv> 100"
abbreviation (input) XA_RBCOMMFAIL :: int where "XA_RBCOMMFAIL \<equiv> 101"
abbreviation (input) XA_RBDEADLOCK :: int where "XA_RBDEADLOCK \<equiv> 102"
abbreviation (input) XA_RBINTEGRITY :: int where "XA_RBINTEGRITY \<equiv> 103"
abbreviation (input) XA_RBOTHER :: int where "XA_RBOTHER \<equiv> 104"
abbreviation (input) XA_RBPROTO :: int where "XA_RBPROTO \<equiv> 105"
abbreviation (input) XA_RBTIMEOUT :: int where "XA_RBTIMEOUT \<equiv> 106"
abbreviation (input) XA_RBTRANSIENT :: int where "XA_RBTRANSIENT \<equiv> 107"
abbreviation (input) XAER_RMERR :: int where "XAER_RMERR \<equiv> - 3"
abbreviation (input) XAER_NOTA :: int where "XAER_NOTA \<equiv> - 4"
abbreviation (input) XAER_INVAL :: int where "XAER_INVAL \<equiv> - 5"
abbreviation (input) XAER_PROTO :: int where "XAER_PROTO \<equiv> - 6"
abbreviation (input) XAER_RMFAIL :: int where "XAER_RMFAIL \<equiv> - 7"

text \<open>File system errors returned to the application, \<^verbatim>\<open>feerrors.h\<close>.\<close>

abbreviation (input) FEOK :: int where "FEOK \<equiv> 0"
abbreviation (input) FEBADERR :: int where "FEBADERR \<equiv> 10"
abbreviation (input) FENOTFOUND :: int where "FENOTFOUND \<equiv> 11"
abbreviation (input) FETOOMANY :: int where "FETOOMANY \<equiv> 28"
abbreviation (input) FEFILEFULL :: int where "FEFILEFULL \<equiv> 45"
abbreviation (input) FELOCKED :: int where "FELOCKED \<equiv> 73"
abbreviation (input) FENOTRANSID :: int where "FENOTRANSID \<equiv> 75"
abbreviation (input) FEENDEDTRANSID :: int where "FEENDEDTRANSID \<equiv> 76"
abbreviation (input) FEINVTRANSID :: int where "FEINVTRANSID \<equiv> 78"
abbreviation (input) FEDEVICEDOWNFORTMF :: int where "FEDEVICEDOWNFORTMF \<equiv> 85"
abbreviation (input) FEBEGINTRDISABLED :: int where "FEBEGINTRDISABLED \<equiv> 86"
abbreviation (input) FEABORTEDTRANSID :: int where "FEABORTEDTRANSID \<equiv> 97"
abbreviation (input) FETXNOTSUSPENDED :: int where "FETXNOTSUSPENDED \<equiv> 717"
abbreviation (input) FEJOINSOUTSTANDING :: int where "FEJOINSOUTSTANDING \<equiv> 730"

text \<open>\<^verbatim>\<open>tmlibmsg.h\<close>: the conflict code of a prepare and the pass limits.\<close>

abbreviation (input) COMMIT_CONFLICT :: int where "COMMIT_CONFLICT \<equiv> 5"
abbreviation (input) TM_MULTIPASS_LOOP_THRESHOLD :: int where "TM_MULTIPASS_LOOP_THRESHOLD \<equiv> 10"

section \<open>Enumerations\<close>

datatype TM_TX_STATE =
    NOTX | ACTIVE | IDLE | FORGOTTEN | COMMITTED | ABORTING | ABORTED | COMMITTING
  | PREPARING | PREPARED | FORGETTING | FORGETTING_HEUR | FORGOTTEN_HEUR | BEGINNING
  | HUNGCOMMITTED | HUNGABORTED | ABORTING_PART2 | TERMINATING

text \<open>The numbers of the C++ enumeration, which travel in messages and audit records.\<close>

fun tx_state_code :: "TM_TX_STATE \<Rightarrow> int" where
  "tx_state_code NOTX = 0"
| "tx_state_code ACTIVE = 1"
| "tx_state_code IDLE = 14"
| "tx_state_code FORGOTTEN = 2"
| "tx_state_code COMMITTED = 3"
| "tx_state_code ABORTING = 4"
| "tx_state_code ABORTED = 5"
| "tx_state_code COMMITTING = 6"
| "tx_state_code PREPARING = 7"
| "tx_state_code PREPARED = 9"
| "tx_state_code FORGETTING = 8"
| "tx_state_code FORGETTING_HEUR = 10"
| "tx_state_code FORGOTTEN_HEUR = 15"
| "tx_state_code BEGINNING = 11"
| "tx_state_code HUNGCOMMITTED = 12"
| "tx_state_code HUNGABORTED = 13"
| "tx_state_code ABORTING_PART2 = 16"
| "tx_state_code TERMINATING = 17"

datatype TSEBranch_state =
  TSEBranch_UP | TSEBranch_DOWN | TSEBranch_FAILED | TSEBranch_RECOVERING | TSEBranch_FAILOVER

datatype TM_BROADCAST_ROLLBACKS =
  BROADCAST_ROLLBACKS_NO | BROADCAST_ROLLBACKS_YES | BROADCAST_ROLLBACKS_DEBUG

lemma tx_state_code_inj: "tx_state_code s = tx_state_code t \<longleftrightarrow> s = t"
  by (cases s; cases t) simp_all

section \<open>Generic facts\<close>

lemma bind_Some_iff [tm_run]:
  "(f \<bind> g) = Some y \<longleftrightarrow> (\<exists>x. f = Some x \<and> g x = Some y)"
  by (cases f) simp_all

lemma bind_None_iff:
  "(f \<bind> g) = None \<longleftrightarrow> f = None \<or> (\<exists>x. f = Some x \<and> g x = None)"
  by (cases f) simp_all

lemma if_None_Some [tm_run]:
  "(if b then None else f) = Some y \<longleftrightarrow> \<not> b \<and> f = Some y"
  by simp

lemma count_filter_update:
  assumes "i < length xs"
  shows "int (length (filter P (xs[i := v]))) =
         int (length (filter P xs)) - (if P (xs ! i) then 1 else 0) + (if P v then 1 else 0)"
  using assms
proof (induction xs arbitrary: i)
  case (Cons x xs)
  show ?case
  proof (cases i)
    case (Suc j)
    then show ?thesis using Cons.IH [of j] Cons.prems by (auto split: if_splits)
  qed simp
qed simp

lemma count_filter_update_same:
  assumes "i < length xs" and "P v \<longleftrightarrow> P (xs ! i)"
  shows "length (filter P (xs[i := v])) = length (filter P xs)"
  using count_filter_update [OF assms(1), of P v] assms(2) by (simp split: if_splits)

lemma filter_zero_iff: "length (filter P xs) = 0 \<longleftrightarrow> (\<forall>x \<in> set xs. \<not> P x)"
  by (simp add: filter_empty_conv)

lemma list_update_preserve:
  assumes "\<forall>x \<in> set xs. P x" and "P v"
  shows "\<forall>x \<in> set (xs[i := v]). P x"
  using assms set_update_subset_insert [of xs i v] by blast

lemma nth_update_if: "j < length xs \<Longrightarrow> xs[i := v] ! j = (if i = j then v else xs ! j)"
  by (cases "i = j") simp_all

text \<open>The final state of a run whose result is known.\<close>

lemma run_result:
  "(case r of None \<Rightarrow> False | Some (x, _) \<Rightarrow> x = k) \<Longrightarrow> r = Some (k, snd (the r))"
  by (auto split: option.splits)

section \<open>First index\<close>

text \<open>The position a search loop over an array stops at.\<close>

fun find_index :: "('a \<Rightarrow> bool) \<Rightarrow> 'a list \<Rightarrow> nat option" where
  "find_index P [] = None"
| "find_index P (x # xs) = (if P x then Some 0 else map_option Suc (find_index P xs))"

lemma find_index_SomeD:
  assumes "find_index P xs = Some i"
  shows "i < length xs" and "P (xs ! i)" and "j < i \<Longrightarrow> \<not> P (xs ! j)"
proof -
  have "i < length xs \<and> P (xs ! i) \<and> (\<forall>j < i. \<not> P (xs ! j))"
    using assms
  proof (induction xs arbitrary: i)
    case (Cons x xs)
    show ?case
    proof (cases "P x")
      case False
      with Cons.prems obtain k where k: "find_index P xs = Some k" "i = Suc k" by auto
      show ?thesis
        using Cons.IH [OF k(1)] k(2) False by (auto simp: nth_Cons split: nat.splits)
    qed (use Cons.prems in simp)
  qed simp
  then show "i < length xs" and "P (xs ! i)" and "j < i \<Longrightarrow> \<not> P (xs ! j)" by auto
qed

lemma find_index_None: "find_index P xs = None \<longleftrightarrow> (\<forall>x \<in> set xs. \<not> P x)"
  by (induction xs) auto

lemma find_index_ex: "x \<in> set xs \<Longrightarrow> P x \<Longrightarrow> \<exists>i. find_index P xs = Some i"
  using find_index_None [of P xs] by (cases "find_index P xs") auto

lemma find_index_cong: "(\<And>x. x \<in> set xs \<Longrightarrow> P x \<longleftrightarrow> Q x) \<Longrightarrow> find_index P xs = find_index Q xs"
  by (induction xs) simp_all

lemma find_index_map: "find_index P (map f xs) = find_index (P \<circ> f) xs"
  by (induction xs) simp_all

end
