(* ===== verification/Tm_Containers.thy ===== *)
theory Tm_Containers
  imports Tm_Prelude "HOL-Library.Word"
begin

text \<open>
  The containers of the transaction manager: \<^verbatim>\<open>TM_DEQUE\<close> (\<^verbatim>\<open>tmdeque.cpp\<close>), the queue
  behind the event queues, the pending request queue and the free lists;
  \<^verbatim>\<open>TM_MAP\<close> (\<^verbatim>\<open>tmmap.cpp\<close>), the ordered map behind the transaction and participant
  lists; and \<^verbatim>\<open>CTmTxKey\<close> (\<^verbatim>\<open>tmtxkey.h\<close>), the packing of two 32-bit numbers into the
  64-bit keys of these maps.  The mutexes are not part of the state: an operation
  is one atomic step, as it is under the lock the code takes.
\<close>

section \<open>TM_DEQUE\<close>

text \<open>
  The head of \<^verbatim>\<open>iv_deque\<close> is the front of the \<^verbatim>\<open>std::deque\<close>.  Elements are non-null
  pointers, so a returned NULL is \<^const>\<open>None\<close>.  The iterator is the position it points
  at, or \<^const>\<open>None\<close> when the standard leaves it invalid (before the first walk, after
  an insertion, and after the element under it was erased).
\<close>

record 'a tm_deque =
  dq_deque :: "'a list"
  dq_iterator :: "nat option"

definition deque_new :: "'a tm_deque" where
  "deque_new = \<lparr> dq_deque = [], dq_iterator = None \<rparr>"

definition deque_clear :: "'a tm_deque \<Rightarrow> 'a tm_deque" where
  "deque_clear q = \<lparr> dq_deque = [], dq_iterator = None \<rparr>"

definition deque_empty :: "'a tm_deque \<Rightarrow> bool" where
  "deque_empty q = (dq_deque q = [])"

definition deque_size :: "'a tm_deque \<Rightarrow> int" where
  "deque_size q = int (length (dq_deque q))"

definition deque_get_firstFIFO :: "'a tm_deque \<Rightarrow> 'a option \<times> 'a tm_deque" where
  "deque_get_firstFIFO q =
     (if dq_deque q = [] then (None, q)
      else (Some (dq_deque q ! (length (dq_deque q) - 1)),
            q\<lparr> dq_iterator := Some (length (dq_deque q) - 1) \<rparr>))"

text \<open>The outer \<^const>\<open>None\<close> is the use of an invalid iterator.\<close>

definition deque_get_nextFIFO :: "'a tm_deque \<Rightarrow> ('a option \<times> 'a tm_deque) option" where
  "deque_get_nextFIFO q =
     (if dq_deque q = [] then Some (None, q)
      else case dq_iterator q of
             None \<Rightarrow> None
           | Some 0 \<Rightarrow> Some (None, q)
           | Some (Suc i) \<Rightarrow>
               (if Suc i < length (dq_deque q)
                then Some (Some (dq_deque q ! i), q\<lparr> dq_iterator := Some i \<rparr>)
                else None))"

definition deque_push :: "'a \<Rightarrow> 'a tm_deque \<Rightarrow> 'a tm_deque" where
  "deque_push x q = \<lparr> dq_deque = x # dq_deque q, dq_iterator = None \<rparr>"

definition deque_push_back :: "'a \<Rightarrow> 'a tm_deque \<Rightarrow> 'a tm_deque" where
  "deque_push_back x q = \<lparr> dq_deque = dq_deque q @ [x], dq_iterator = None \<rparr>"

definition deque_pop :: "'a tm_deque \<Rightarrow> 'a option \<times> 'a tm_deque" where
  "deque_pop q =
     (case dq_deque q of
        [] \<Rightarrow> (None, q)
      | x # xs \<Rightarrow> (Some x, \<lparr> dq_deque = xs,
                             dq_iterator = (case dq_iterator q of
                                              None \<Rightarrow> None | Some 0 \<Rightarrow> None | Some (Suc i) \<Rightarrow> Some i) \<rparr>))"

definition deque_pop_end :: "'a tm_deque \<Rightarrow> 'a option \<times> 'a tm_deque" where
  "deque_pop_end q =
     (if dq_deque q = [] then (None, q)
      else (Some (last (dq_deque q)),
            \<lparr> dq_deque = butlast (dq_deque q),
              dq_iterator = (case dq_iterator q of
                               None \<Rightarrow> None
                             | Some i \<Rightarrow> if Suc i < length (dq_deque q) then Some i else None) \<rparr>))"

definition deque_erase :: "'a tm_deque \<Rightarrow> 'a tm_deque option" where
  "deque_erase q =
     (case dq_iterator q of
        None \<Rightarrow> None
      | Some i \<Rightarrow>
          (if i < length (dq_deque q)
           then Some \<lparr> dq_deque = take i (dq_deque q) @ drop (Suc i) (dq_deque q),
                       dq_iterator = None \<rparr>
           else None))"

text \<open>
  The search loop of \<^verbatim>\<open>remove\<close>: it stops at the end of the queue or at the element.
  The bound on the number of iterations is the position of the iterator.
\<close>

fun deque_remove_loop :: "nat \<Rightarrow> 'a \<Rightarrow> 'a option \<times> 'a tm_deque \<Rightarrow> ('a option \<times> 'a tm_deque) option" where
  "deque_remove_loop fuel x (None, q) = Some (None, q)"
| "deque_remove_loop fuel x (Some y, q) =
     (if y = x then Some (Some y, q)
      else case fuel of
             0 \<Rightarrow> None
           | Suc n \<Rightarrow> deque_get_nextFIFO q \<bind> deque_remove_loop n x)"

definition deque_remove :: "'a option \<Rightarrow> 'a tm_deque \<Rightarrow> 'a tm_deque option" where
  "deque_remove p q =
     (case p of
        None \<Rightarrow> Some q
      | Some x \<Rightarrow> do {
          (r, q') \<leftarrow> deque_remove_loop (length (dq_deque q)) x (deque_get_firstFIFO q);
          if r = Some x then deque_erase q' else Some q' })"

text \<open>A whole non-destructive walk: \<^verbatim>\<open>get_firstFIFO\<close>, then \<^verbatim>\<open>get_nextFIFO\<close> until NULL.\<close>

fun deque_walk_from :: "nat \<Rightarrow> 'a option \<times> 'a tm_deque \<Rightarrow> 'a list option" where
  "deque_walk_from fuel (None, q) = Some []"
| "deque_walk_from 0 (Some x, q) = None"
| "deque_walk_from (Suc n) (Some x, q) =
     do { r \<leftarrow> deque_get_nextFIFO q; xs \<leftarrow> deque_walk_from n r; Some (x # xs) }"

definition deque_walk :: "'a tm_deque \<Rightarrow> 'a list option" where
  "deque_walk q = deque_walk_from (length (dq_deque q)) (deque_get_firstFIFO q)"

lemmas deque_defs = deque_new_def deque_clear_def deque_empty_def deque_size_def
  deque_push_def deque_push_back_def deque_pop_def deque_pop_end_def

text \<open>The elements in the order in which \<^verbatim>\<open>pop_end\<close> delivers them.\<close>

definition deque_fifo :: "'a tm_deque \<Rightarrow> 'a list" where
  "deque_fifo q = rev (dq_deque q)"

subsection \<open>The queue contract\<close>

text \<open>
  What the event queues rely on: a queue with an urgent insertion.  \<open>enq\<close> adds behind
  everything else, \<open>urgent\<close> adds ahead of everything else, \<open>deq\<close> delivers the oldest.
\<close>

locale event_queue =
  fixes empty :: "'q" and enq :: "'a \<Rightarrow> 'q \<Rightarrow> 'q" and urgent :: "'a \<Rightarrow> 'q \<Rightarrow> 'q"
    and deq :: "'q \<Rightarrow> 'a option \<times> 'q" and abs :: "'q \<Rightarrow> 'a list"
  assumes abs_empty: "abs empty = []"
    and abs_enq: "abs (enq x q) = abs q @ [x]"
    and abs_urgent: "abs (urgent x q) = x # abs q"
    and deq_None: "abs q = [] \<Longrightarrow> deq q = (None, q)"
    and deq_Some: "abs q = x # xs \<Longrightarrow> \<exists>q'. deq q = (Some x, q') \<and> abs q' = xs"
begin

primrec drain :: "nat \<Rightarrow> 'q \<Rightarrow> 'a list \<times> 'q" where
  "drain 0 q = ([], q)"
| "drain (Suc n) q =
     (case deq q of
        (None, q') \<Rightarrow> ([], q')
      | (Some x, q') \<Rightarrow> (case drain n q' of (xs, q'') \<Rightarrow> (x # xs, q'')))"

lemma abs_fold_enq: "abs (fold enq xs q) = abs q @ xs"
  by (induction xs arbitrary: q) (simp_all add: abs_enq)

lemma drain_abs:
  "fst (drain n q) = take n (abs q) \<and> abs (snd (drain n q)) = drop n (abs q)"
proof (induction n arbitrary: q)
  case (Suc n)
  show ?case
  proof (cases "abs q")
    case Nil
    then show ?thesis by (simp add: deq_None)
  next
    case (Cons x xs)
    then obtain q' where q': "deq q = (Some x, q')" "abs q' = xs"
      using deq_Some by blast
    then show ?thesis
      using Suc [of q'] Cons by (cases "drain n q'") simp
  qed
qed simp

lemma drain_order:
  "fst (drain (length xs) (fold enq xs empty)) = xs"
  using drain_abs [of "length xs" "fold enq xs empty"]
  by (simp add: abs_fold_enq abs_empty)

lemma drain_urgent_first:
  "fst (drain (Suc (length xs)) (urgent u (fold enq xs empty))) = u # xs"
  using drain_abs [of "Suc (length xs)" "urgent u (fold enq xs empty)"]
  by (simp add: abs_fold_enq abs_empty abs_urgent)

end

interpretation tmq: event_queue deque_new deque_push deque_push_back deque_pop_end deque_fifo
proof unfold_locales
  fix q :: "'a tm_deque" and x :: 'a and xs
  assume "deque_fifo q = x # xs"
  then have q: "dq_deque q = rev xs @ [x]"
    by (simp add: deque_fifo_def rev_eq_Cons_iff)
  then show "\<exists>q'. deque_pop_end q = (Some x, q') \<and> deque_fifo q' = xs"
    by (simp add: deque_pop_end_def deque_fifo_def)
qed (simp_all add: deque_defs deque_fifo_def)

subsection \<open>Walking and removing\<close>

lemma get_nextFIFO_at:
  assumes "i < length (dq_deque q)" and "dq_iterator q = Some i"
  shows "deque_get_nextFIFO q =
    Some (if i = 0 then (None, q)
          else (Some (dq_deque q ! (i - 1)), q\<lparr> dq_iterator := Some (i - 1) \<rparr>))"
  using assms by (auto simp: deque_get_nextFIFO_def split: nat.splits)

lemma deque_walk_from_at:
  assumes "i < length (dq_deque q)" and "dq_iterator q = Some i" and "i < n"
  shows "deque_walk_from n (Some (dq_deque q ! i), q) = Some (rev (take (Suc i) (dq_deque q)))"
  using assms
proof (induction i arbitrary: n q)
  case 0
  then show ?case
    using get_nextFIFO_at [of 0 q] by (cases n) (simp_all add: take_Suc_conv_app_nth)
next
  case (Suc i)
  then obtain m where m: "n = Suc m" by (cases n) auto
  let ?q = "q\<lparr> dq_iterator := Some i \<rparr>"
  have "deque_walk_from m (Some (dq_deque ?q ! i), ?q) = Some (rev (take (Suc i) (dq_deque ?q)))"
    using Suc.prems m by (intro Suc.IH) simp_all
  then show ?case
    using Suc.prems m by (simp add: get_nextFIFO_at take_Suc_conv_app_nth)
qed

lemma deque_remove_loop_step:
  assumes "i < length (dq_deque q)" and "dq_iterator q = Some i" and "dq_deque q ! i \<noteq> x"
  shows "deque_remove_loop (Suc n) x (Some (dq_deque q ! i), q) =
    (if i = 0 then Some (None, q)
     else deque_remove_loop n x (Some (dq_deque q ! (i - 1)), q\<lparr> dq_iterator := Some (i - 1) \<rparr>))"
  using assms get_nextFIFO_at [OF assms(1,2)] by simp

lemma deque_remove_loop_absent:
  assumes "i < length (dq_deque q)" and "dq_iterator q = Some i" and "i < n"
    and "\<And>k. k \<le> i \<Longrightarrow> dq_deque q ! k \<noteq> x"
  shows "\<exists>q'. deque_remove_loop n x (Some (dq_deque q ! i), q) = Some (None, q')
           \<and> dq_deque q' = dq_deque q"
  using assms
proof (induction i arbitrary: n q)
  case 0
  then show ?case
    using deque_remove_loop_step [of 0 q x "n - 1"] by simp
next
  case (Suc i)
  let ?q = "q\<lparr> dq_iterator := Some i \<rparr>"
  have "\<exists>q'. deque_remove_loop (n - 1) x (Some (dq_deque ?q ! i), ?q) = Some (None, q')
          \<and> dq_deque q' = dq_deque ?q"
    using Suc.prems by (intro Suc.IH) simp_all
  then show ?case
    using Suc.prems deque_remove_loop_step [of "Suc i" q x "n - 1"] by simp
qed

lemma deque_remove_loop_found:
  assumes "i < length (dq_deque q)" and "dq_iterator q = Some i" and "i < n" and "j \<le> i"
    and "dq_deque q ! j = x" and "\<And>k. j < k \<Longrightarrow> k \<le> i \<Longrightarrow> dq_deque q ! k \<noteq> x"
  shows "deque_remove_loop n x (Some (dq_deque q ! i), q) = Some (Some x, q\<lparr> dq_iterator := Some j \<rparr>)"
  using assms
proof (induction i arbitrary: n q)
  case 0
  then show ?case by simp
next
  case (Suc i)
  show ?case
  proof (cases "j = Suc i")
    case True
    then show ?thesis using Suc.prems by simp
  next
    case False
    let ?q = "q\<lparr> dq_iterator := Some i \<rparr>"
    have "deque_remove_loop (n - 1) x (Some (dq_deque ?q ! i), ?q)
            = Some (Some x, ?q\<lparr> dq_iterator := Some j \<rparr>)"
      using Suc.prems False by (intro Suc.IH) simp_all
    then show ?thesis
      using Suc.prems False deque_remove_loop_step [of "Suc i" q x "n - 1"] by simp
  qed
qed

lemma remove1_rev_last:
  assumes "j < length xs" and "xs ! j = x" and "\<And>k. j < k \<Longrightarrow> k < length xs \<Longrightarrow> xs ! k \<noteq> x"
  shows "remove1 x (rev xs) = rev (take j xs @ drop (Suc j) xs)"
proof -
  have "x \<notin> set (drop (Suc j) xs)"
    using assms by (auto simp: in_set_conv_nth)
  moreover have "rev xs = rev (drop (Suc j) xs) @ x # rev (take j xs)"
    using arg_cong [OF id_take_nth_drop [OF assms(1)], of rev] assms(2) by simp
  ultimately show ?thesis by (simp add: remove1_append)
qed

lemma last_index_exists:
  assumes "x \<in> set xs"
  shows "\<exists>j < length xs. xs ! j = x \<and> (\<forall>k. j < k \<longrightarrow> k < length xs \<longrightarrow> xs ! k \<noteq> x)"
proof -
  obtain ys zs where xs: "xs = ys @ x # zs" and z: "x \<notin> set zs"
    using split_list_last [OF assms] by blast
  have "xs ! k \<noteq> x" if "length ys < k" "k < length xs" for k
  proof -
    have "xs ! k = zs ! (k - length ys - 1)"
      using that by (simp add: xs nth_append nth_Cons')
    moreover have "k - length ys - 1 < length zs" using that by (simp add: xs)
    ultimately show ?thesis using z nth_mem by metis
  qed
  then show ?thesis by (intro exI [of _ "length ys"]) (simp add: xs)
qed

lemma deque_remove_deque:
  "\<exists>q'. deque_remove (Some x) q = Some q' \<and> deque_fifo q' = remove1 x (deque_fifo q)"
proof (cases "dq_deque q = []")
  case True
  then show ?thesis by (simp add: deque_remove_def deque_get_firstFIFO_def deque_fifo_def)
next
  case False
  let ?n = "length (dq_deque q)"
  let ?q = "q\<lparr> dq_iterator := Some (?n - 1) \<rparr>"
  have n: "?n - 1 < length (dq_deque ?q)" "?n - 1 < ?n" using False by simp_all
  show ?thesis
  proof (cases "x \<in> set (dq_deque q)")
    case True
    obtain j where j: "j < ?n" "dq_deque q ! j = x"
        "\<And>k. j < k \<Longrightarrow> k < ?n \<Longrightarrow> dq_deque q ! k \<noteq> x"
      using last_index_exists [OF True] by blast
    have "deque_remove_loop ?n x (Some (dq_deque ?q ! (?n - 1)), ?q)
            = Some (Some x, ?q\<lparr> dq_iterator := Some j \<rparr>)"
      by (rule deque_remove_loop_found [OF n(1) _ n(2)]) (use n j in simp_all)
    then show ?thesis
      using False j remove1_rev_last [of j "dq_deque q" x]
      by (simp add: deque_remove_def deque_get_firstFIFO_def deque_erase_def deque_fifo_def)
  next
    case False
    have "dq_deque ?q ! k \<noteq> x" if "k \<le> ?n - 1" for k
      using that n False nth_mem [of k "dq_deque q"] by auto
    then obtain q' where "deque_remove_loop ?n x (Some (dq_deque ?q ! (?n - 1)), ?q) = Some (None, q')"
        "dq_deque q' = dq_deque ?q"
      using deque_remove_loop_absent [OF n(1) _ n(2), of x] by auto
    then show ?thesis
      using \<open>dq_deque q \<noteq> []\<close> False
      by (simp add: deque_remove_def deque_get_firstFIFO_def deque_fifo_def remove1_idem)
  qed
qed

lemma deque_walk_complete:
  "deque_walk q = Some (deque_fifo q)"
proof (cases "dq_deque q = []")
  case False
  let ?n = "length (dq_deque q)"
  let ?q = "q\<lparr> dq_iterator := Some (?n - 1) \<rparr>"
  have "deque_walk_from ?n (Some (dq_deque ?q ! (?n - 1)), ?q) = Some (rev (take (Suc (?n - 1)) (dq_deque ?q)))"
    by (rule deque_walk_from_at) (use False in simp_all)
  then show ?thesis
    using False by (simp add: deque_walk_def deque_get_firstFIFO_def deque_fifo_def)
qed (simp add: deque_walk_def deque_get_firstFIFO_def deque_fifo_def)

text \<open>
  The iterator does not survive \<^verbatim>\<open>erase\<close>: a walk that goes on after it, as in
  \<^verbatim>\<open>CTxThread::associate\<close>, uses an invalid iterator unless the queue became empty.
\<close>

lemma walk_after_erase_invalid:
  assumes "deque_erase q = Some q'" and "dq_deque q' \<noteq> []"
  shows "deque_get_nextFIFO q' = None"
  using assms by (auto simp: deque_erase_def deque_get_nextFIFO_def split: option.splits if_splits)

section \<open>TM_MAP\<close>

text \<open>
  \<^verbatim>\<open>std::map<int64, void*>\<close> as the list of its pairs in ascending key order.  Its
  iterators are stable, so an iterator is the key it points at; it is invalid
  before \<^verbatim>\<open>get_first\<close> and once its element was erased.
\<close>

datatype map_iterator = Iter_invalid | Iter_end | Iter_at int

record 'a tm_map =
  mp_map :: "(int \<times> 'a) list"
  mp_iterator :: map_iterator

fun smap_insert :: "int \<Rightarrow> 'a \<Rightarrow> (int \<times> 'a) list \<Rightarrow> (int \<times> 'a) list" where
  "smap_insert k v [] = [(k, v)]"
| "smap_insert k v ((k', v') # m) =
     (if k < k' then (k, v) # (k', v') # m
      else if k = k' then (k', v') # m
      else (k', v') # smap_insert k v m)"

definition smap_erase :: "int \<Rightarrow> (int \<times> 'a) list \<Rightarrow> (int \<times> 'a) list" where
  "smap_erase k m = filter (\<lambda>p. fst p \<noteq> k) m"

definition map_new :: "'a tm_map" where
  "map_new = \<lparr> mp_map = [], mp_iterator = Iter_invalid \<rparr>"

definition map_clear :: "'a tm_map \<Rightarrow> 'a tm_map" where
  "map_clear m = \<lparr> mp_map = [], mp_iterator = Iter_invalid \<rparr>"

definition map_size :: "'a tm_map \<Rightarrow> int" where
  "map_size m = int (length (mp_map m))"

definition map_get :: "int \<Rightarrow> 'a tm_map \<Rightarrow> 'a option" where
  "map_get k m = map_of (mp_map m) k"

text \<open>\<^verbatim>\<open>put\<close> aborts the process when the key is present.\<close>

definition map_put :: "int \<Rightarrow> 'a \<Rightarrow> 'a tm_map \<Rightarrow> 'a tm_map option" where
  "map_put k v m =
     (if map_of (mp_map m) k = None
      then Some (m\<lparr> mp_map := smap_insert k v (mp_map m) \<rparr>) else None)"

definition map_erase :: "int \<Rightarrow> 'a tm_map \<Rightarrow> 'a tm_map" where
  "map_erase k m =
     \<lparr> mp_map = smap_erase k (mp_map m),
       mp_iterator = (if mp_iterator m = Iter_at k then Iter_invalid else mp_iterator m) \<rparr>"

definition map_remove :: "int \<Rightarrow> 'a tm_map \<Rightarrow> 'a option \<times> 'a tm_map" where
  "map_remove k m =
     (case map_of (mp_map m) k of
        None \<Rightarrow> (None, m)
      | Some v \<Rightarrow> (Some v, map_erase k m))"

definition map_get_first :: "'a tm_map \<Rightarrow> 'a option \<times> 'a tm_map" where
  "map_get_first m =
     (case mp_map m of
        [] \<Rightarrow> (None, m\<lparr> mp_iterator := Iter_end \<rparr>)
      | (k, v) # _ \<Rightarrow> (Some v, m\<lparr> mp_iterator := Iter_at k \<rparr>))"

text \<open>
  \<^verbatim>\<open>get_first(int64)\<close> searches with a local iterator, so the iterator of the object
  keeps its place.
\<close>

definition map_get_first_key :: "int \<Rightarrow> 'a tm_map \<Rightarrow> 'a option \<times> 'a tm_map" where
  "map_get_first_key k m = (map_of (mp_map m) k, m)"

definition map_curr_key :: "'a tm_map \<Rightarrow> int option" where
  "map_curr_key m = (case mp_iterator m of Iter_at k \<Rightarrow> Some k | _ \<Rightarrow> None)"

fun smap_after :: "int \<Rightarrow> (int \<times> 'a) list \<Rightarrow> (int \<times> 'a) option" where
  "smap_after k [] = None"
| "smap_after k ((k', v) # m) = (if k < k' then Some (k', v) else smap_after k m)"

definition map_get_next :: "'a tm_map \<Rightarrow> ('a option \<times> 'a tm_map) option" where
  "map_get_next m =
     (case mp_iterator m of
        Iter_at k \<Rightarrow>
          (case smap_after k (mp_map m) of
             None \<Rightarrow> Some (None, m\<lparr> mp_iterator := Iter_end \<rparr>)
           | Some (k', v) \<Rightarrow> Some (Some v, m\<lparr> mp_iterator := Iter_at k' \<rparr>))
      | _ \<Rightarrow> None)"

text \<open>\<^verbatim>\<open>return_all\<close> gives NULL for the empty map and an array of the values otherwise.\<close>

definition map_return_all :: "'a tm_map \<Rightarrow> 'a list option \<times> int" where
  "map_return_all m =
     (if map_size m \<le> 0 then (None, map_size m)
      else (Some (map snd (mp_map m)), map_size m))"

fun map_walk_from :: "nat \<Rightarrow> 'a option \<times> 'a tm_map \<Rightarrow> 'a list option" where
  "map_walk_from fuel (None, m) = Some []"
| "map_walk_from 0 (Some x, m) = None"
| "map_walk_from (Suc n) (Some x, m) =
     do { r \<leftarrow> map_get_next m; xs \<leftarrow> map_walk_from n r; Some (x # xs) }"

definition map_walk :: "'a tm_map \<Rightarrow> 'a list option" where
  "map_walk m = map_walk_from (length (mp_map m)) (map_get_first m)"

definition map_ok :: "'a tm_map \<Rightarrow> bool" where
  "map_ok m = sorted_wrt (<) (map fst (mp_map m))"

subsection \<open>The keyed store contract\<close>

locale keyed_store =
  fixes new :: "'m" and get :: "int \<Rightarrow> 'm \<Rightarrow> 'a option"
    and put :: "int \<Rightarrow> 'a \<Rightarrow> 'm \<Rightarrow> 'm option"
    and remove :: "int \<Rightarrow> 'm \<Rightarrow> 'a option \<times> 'm"
    and sz :: "'m \<Rightarrow> int" and ok :: "'m \<Rightarrow> bool"
  assumes new_ok: "ok new" and new_get: "get k new = None" and new_sz: "sz new = 0"
    and put_defined: "ok m \<Longrightarrow> (\<exists>m'. put k v m = Some m') \<longleftrightarrow> get k m = None"
    and put_ok: "ok m \<Longrightarrow> put k v m = Some m' \<Longrightarrow> ok m'"
    and put_get: "ok m \<Longrightarrow> put k v m = Some m' \<Longrightarrow> get k' m' = (if k' = k then Some v else get k' m)"
    and put_sz: "ok m \<Longrightarrow> put k v m = Some m' \<Longrightarrow> sz m' = sz m + 1"
    and remove_result: "ok m \<Longrightarrow> fst (remove k m) = get k m"
    and remove_ok: "ok m \<Longrightarrow> ok (snd (remove k m))"
    and remove_get: "ok m \<Longrightarrow> get k' (snd (remove k m)) = (if k' = k then None else get k' m)"
    and remove_sz: "ok m \<Longrightarrow> sz (snd (remove k m)) = sz m - (if get k m = None then 0 else 1)"
begin

lemma put_remove_get:
  assumes "ok m" and "put k v m = Some m'"
  shows "fst (remove k m') = Some v" and "get k' (snd (remove k m')) = get k' m"
    and "sz (snd (remove k m')) = sz m"
proof -
  have ok': "ok m'" using assms by (rule put_ok)
  have g: "get k m = None" using put_defined [OF assms(1), of k v] assms(2) by blast
  show "fst (remove k m') = Some v"
    using remove_result [OF ok'] put_get [OF assms] by simp
  show "get k' (snd (remove k m')) = get k' m"
    using remove_get [OF ok'] put_get [OF assms] g by simp
  show "sz (snd (remove k m')) = sz m"
    using remove_sz [OF ok', of k] put_get [OF assms] put_sz [OF assms] by simp
qed

lemma remove_put_defined:
  assumes "ok m"
  shows "\<exists>m'. put k v (snd (remove k m)) = Some m'"
  using put_defined [OF remove_ok [OF assms]] remove_get [OF assms] by simp

lemma put_put_aborts:
  assumes "ok m" and "put k v m = Some m'"
  shows "put k v' m' = None"
  using put_defined [OF put_ok [OF assms], of k v'] put_get [OF assms, of k] by (cases "put k v' m'") auto

end

lemma smap_insert_keys: "set (map fst (smap_insert k v m)) = insert k (set (map fst m))"
  by (induction k v m rule: smap_insert.induct) auto

lemma smap_insert_sorted:
  "sorted_wrt (<) (map fst m) \<Longrightarrow> sorted_wrt (<) (map fst (smap_insert k v m))"
proof (induction k v m rule: smap_insert.induct)
  case (2 k v k' v' m)
  then show ?case
    using smap_insert_keys [of k v m] by (auto simp: ball_Un)
qed simp

lemma smap_insert_map_of:
  "map_of m k = None \<Longrightarrow> map_of (smap_insert k v m) k' = (if k' = k then Some v else map_of m k')"
  by (induction k v m rule: smap_insert.induct) (auto split: if_splits)

lemma smap_insert_length:
  "map_of m k = None \<Longrightarrow> length (smap_insert k v m) = Suc (length m)"
  by (induction k v m rule: smap_insert.induct) (auto split: if_splits)

lemma smap_erase_map_of: "map_of (smap_erase k m) k' = (if k' = k then None else map_of m k')"
  by (induction m) (auto simp: smap_erase_def)

lemma smap_erase_sorted:
  "sorted_wrt (<) (map fst m) \<Longrightarrow> sorted_wrt (<) (map fst (smap_erase k m))"
  by (induction m) (auto simp: smap_erase_def)

lemma smap_erase_length:
  "sorted_wrt (<) (map fst m) \<Longrightarrow>
   int (length (smap_erase k m)) = int (length m) - (if map_of m k = None then 0 else 1)"
proof (induction m)
  case (Cons p m)
  have "filter (\<lambda>p. fst p \<noteq> fst p') m = m" if "\<forall>x \<in> set (map fst m). fst p' < x" for p' :: "int \<times> 'a"
    using that by (auto simp: filter_id_conv)
  moreover have "map_of m (fst p) = None"
    using Cons.prems by (auto simp: map_of_eq_None_iff)
  ultimately show ?case
    using Cons by (cases p) (auto simp: smap_erase_def)
qed (simp add: smap_erase_def)

interpretation tmm: keyed_store map_new map_get map_put map_remove map_size map_ok
proof unfold_locales
  fix m :: "'a tm_map" and k
  assume ok: "map_ok m"
  show "fst (map_remove k m) = map_get k m"
    by (simp add: map_remove_def map_get_def split: option.splits)
  show "map_ok (snd (map_remove k m))"
    using ok by (simp add: map_remove_def map_ok_def map_erase_def smap_erase_sorted split: option.splits)
  show "map_get k' (snd (map_remove k m)) = (if k' = k then None else map_get k' m)" for k'
    by (auto simp: map_remove_def map_get_def map_erase_def smap_erase_map_of split: option.splits)
  show "map_size (snd (map_remove k m)) = map_size m - (if map_get k m = None then 0 else 1)"
    using ok smap_erase_length [of "mp_map m" k]
    by (auto simp: map_remove_def map_get_def map_erase_def map_size_def map_ok_def split: option.splits)
qed (auto simp: map_new_def map_get_def map_put_def map_ok_def map_size_def smap_insert_sorted
       smap_insert_map_of smap_insert_length split: if_splits)

lemma smap_after_nth:
  assumes "sorted_wrt (<) (map fst m)" and "i < length m"
  shows "smap_after (fst (m ! i)) m = (if Suc i < length m then Some (m ! Suc i) else None)"
  using assms
proof (induction m arbitrary: i)
  case (Cons p m)
  show ?case
  proof (cases i)
    case 0
    with Cons.prems show ?thesis by (cases p; cases m) auto
  next
    case (Suc j)
    have "fst p < fst (m ! j)"
      using Cons.prems Suc by simp
    then show ?thesis
      using Cons Suc by (cases p) (simp add: less_not_sym)
  qed
qed simp

lemma map_walk_from_at:
  assumes "map_ok m" and "i < length (mp_map m)" and "mp_iterator m = Iter_at (fst (mp_map m ! i))"
    and "length (mp_map m) \<le> i + n"
  shows "map_walk_from n (Some (snd (mp_map m ! i)), m) = Some (map snd (drop i (mp_map m)))"
  using assms
proof (induction n arbitrary: i m)
  case (Suc n)
  have nx: "smap_after (fst (mp_map m ! i)) (mp_map m)
             = (if Suc i < length (mp_map m) then Some (mp_map m ! Suc i) else None)"
    using Suc.prems by (intro smap_after_nth) (simp_all add: map_ok_def)
  show ?case
  proof (cases "Suc i < length (mp_map m)")
    case True
    let ?m = "m\<lparr> mp_iterator := Iter_at (fst (mp_map m ! Suc i)) \<rparr>"
    have "map_walk_from n (Some (snd (mp_map ?m ! Suc i)), ?m) = Some (map snd (drop (Suc i) (mp_map ?m)))"
      using Suc.prems True by (intro Suc.IH) (simp_all add: map_ok_def)
    then show ?thesis
      using Suc.prems True nx
      by (cases "mp_map m ! Suc i") (simp add: map_get_next_def Cons_nth_drop_Suc [symmetric])
  next
    case False
    then show ?thesis
      using Suc.prems nx
      by (simp add: map_get_next_def Cons_nth_drop_Suc [symmetric])
  qed
qed simp

lemma map_walk_complete:
  assumes "map_ok m"
  shows "map_walk m = Some (map snd (mp_map m))"
proof (cases "mp_map m")
  case (Cons p xs)
  let ?m = "m\<lparr> mp_iterator := Iter_at (fst p) \<rparr>"
  have "map_walk_from (length (mp_map ?m)) (Some (snd (mp_map ?m ! 0)), ?m) = Some (map snd (drop 0 (mp_map ?m)))"
    by (rule map_walk_from_at) (use assms Cons in \<open>simp_all add: map_ok_def\<close>)
  then show ?thesis
    using Cons by (cases p) (simp add: map_walk_def map_get_first_def)
qed (simp add: map_walk_def map_get_first_def)

section \<open>CTmTxKey\<close>

text \<open>
  The union overlays a 64-bit id with two 32-bit numbers; on the little-endian
  targets of the product the sequence number (or pid) is the low half.
\<close>

definition txkey_set :: "32 word \<Rightarrow> 32 word \<Rightarrow> 64 word" where
  "txkey_set node seqnum = word_cat node seqnum"

definition txkey_node :: "64 word \<Rightarrow> 32 word" where
  "txkey_node k = (if k = - 1 then - 1 else ucast (drop_bit 32 k))"

definition txkey_seqnum :: "64 word \<Rightarrow> 32 word" where
  "txkey_seqnum k = (if k = - 1 then - 1 else ucast k)"

definition txkey_pid :: "64 word \<Rightarrow> 32 word" where
  "txkey_pid k = ucast k"

text \<open>The key as the \<^verbatim>\<open>int64\<close> index of a map.\<close>

definition txkey_id :: "64 word \<Rightarrow> int" where
  "txkey_id k = sint k"

lemma ucast_word_cat_low: "ucast (word_cat (a :: 32 word) (b :: 32 word) :: 64 word) = b"
  by (rule bit_word_eqI) (simp add: bit_word_cat_iff bit_simps)

lemma ucast_word_cat_high: "ucast (drop_bit 32 (word_cat (a :: 32 word) (b :: 32 word) :: 64 word)) = a"
  by (rule bit_word_eqI) (simp add: bit_word_cat_iff bit_simps)

lemma txkey_round_trip:
  "txkey_node (txkey_set n s) = n \<and> txkey_seqnum (txkey_set n s) = s \<and> txkey_pid (txkey_set n s) = s"
proof -
  let ?k = "word_cat n s :: 64 word"
  have "n = - 1 \<and> s = - 1" if "?k = - 1"
  proof -
    have "ucast ?k = (- 1 :: 32 word)" "ucast (drop_bit 32 ?k) = (- 1 :: 32 word)"
      unfolding that by (rule bit_word_eqI, simp add: bit_simps)+
    then show ?thesis by (simp add: ucast_word_cat_low ucast_word_cat_high)
  qed
  then show ?thesis
    by (auto simp: txkey_set_def txkey_node_def txkey_seqnum_def txkey_pid_def
        ucast_word_cat_low ucast_word_cat_high)
qed

lemma sint_word_inj: "sint (a :: 64 word) = sint b \<longleftrightarrow> a = b"
  by (auto intro: signed_word_eqI)

lemma txkey_id_inj:
  "txkey_id (txkey_set n s) = txkey_id (txkey_set n' s') \<longleftrightarrow> n = n' \<and> s = s'"
proof
  assume "txkey_id (txkey_set n s) = txkey_id (txkey_set n' s')"
  then have "txkey_set n s = txkey_set n' s'" by (simp add: txkey_id_def sint_word_inj)
  then show "n = n' \<and> s = s'" using txkey_round_trip by metis
qed simp

section \<open>Properties\<close>

text \<open>
  C31: A queue delivers in the order of insertion whatever was inserted with
  \<^verbatim>\<open>push\<close>, an element inserted with \<^verbatim>\<open>push_back\<close> overtakes everything that waits,
  walking the queue visits the elements in that delivery order, and \<^verbatim>\<open>remove\<close> takes out
  exactly the element that would be delivered first among equal ones.
\<close>

theorem deque_fifo_contract:
  "deque_walk (fold deque_push xs deque_new) = Some xs
   \<and> deque_walk (deque_push_back u (fold deque_push xs deque_new)) = Some (u # xs)
   \<and> map_option deque_walk (deque_remove (Some x) (fold deque_push xs deque_new)) = Some (Some (remove1 x xs))
   \<and> fst (tmq.drain (Suc (length xs)) (deque_push_back u (fold deque_push xs deque_new))) = u # xs"
  using deque_remove_deque [of x "fold deque_push xs deque_new"]
  by (auto simp: deque_walk_complete tmq.abs_fold_enq tmq.abs_empty tmq.abs_urgent tmq.drain_urgent_first
      simp del: tmq.drain.simps)

text \<open>
  C32: The map is a store with unique keys: entering a key that is present aborts and any
  other entry succeeds, the entry is found again and disturbs no other key, removing it
  returns it and restores the previous content, and a walk visits exactly the values
  that \<^verbatim>\<open>return_all\<close> copies, in ascending key order.
\<close>

theorem map_store_contract:
  assumes "map_ok m"
  shows "(map_put k v m = None \<longleftrightarrow> map_get k m \<noteq> None)
    \<and> (\<forall>m'. map_put k v m = Some m' \<longrightarrow>
          map_ok m' \<and> map_get k m' = Some v \<and> (\<forall>k'. k' \<noteq> k \<longrightarrow> map_get k' m' = map_get k' m)
          \<and> fst (map_remove k m') = Some v
          \<and> (\<forall>k'. map_get k' (snd (map_remove k m')) = map_get k' m)
          \<and> map_walk m' = fst (map_return_all m')
          \<and> sorted_wrt (<) (map fst (mp_map m')))"
proof -
  have "map_put k v m = None \<longleftrightarrow> map_get k m \<noteq> None"
    using tmm.put_defined [OF assms, of k v] by (cases "map_put k v m") auto
  moreover have "map_walk m' = fst (map_return_all m')" if "map_put k v m = Some m'" for m'
    using map_walk_complete [OF tmm.put_ok [OF assms that]] tmm.put_sz [OF assms that]
    by (simp add: map_return_all_def map_size_def)
  ultimately show ?thesis
    using tmm.put_ok [OF assms] tmm.put_get [OF assms] tmm.put_remove_get [OF assms]
    by (auto simp: map_ok_def)
qed

theorem map_store_contract_witness:
  "map_walk (the (map_put 3 ''c'' (the (map_put 9 ''i'' map_new)))) = Some [''c'', ''i'']
   \<and> map_put 9 ''x'' (the (map_put 9 ''i'' map_new)) = None"
proof -
  let ?m = "the (map_put 9 ''i'' map_new)"
  have ok: "map_ok ?m" and "map_put 3 ''c'' ?m = Some (the (map_put 3 ''c'' ?m))"
      and all: "map_return_all (the (map_put 3 ''c'' ?m)) = (Some [''c'', ''i''], 2)"
      and g: "map_get 9 ?m \<noteq> None"
    by code_simp+
  then show ?thesis
    using map_store_contract [OF ok, of 3 "''c''"] map_store_contract [OF ok, of 9 "''x''"] by auto
qed

text \<open>
  C34: Packing a node and a sequence number (or a pid) into a 64-bit key loses
  nothing: both numbers are read back for all values, including the pair whose key is the
  special value -1, and two keys index the same map entry only for the same pair.
\<close>

theorem txkey_lossless:
  "txkey_node (txkey_set n s) = n \<and> txkey_seqnum (txkey_set n s) = s \<and> txkey_pid (txkey_set n s) = s
   \<and> (txkey_id (txkey_set n s) = txkey_id (txkey_set n' s') \<longleftrightarrow> n = n' \<and> s = s')"
  using txkey_round_trip txkey_id_inj by blast

end
