(* ===== verification/Tm_Time.thy ===== *)
theory Tm_Time
  imports Tm_Prelude "HOL-Library.Word" "HOL-Library.Signed_Division"
begin

text \<open>
  The time arithmetic of \<^verbatim>\<open>tmtime.h\<close>: \<^verbatim>\<open>Ctimeval\<close>, a second/microsecond pair with the
  operators the timers use, and \<^verbatim>\<open>CTmTime\<close>, the unsigned 64-bit number of milliseconds
  since the transaction manager started.  Division and remainder truncate as they
  do in C++.  The floating point operators (\<^verbatim>\<open>operator*\<close> and the class \<^verbatim>\<open>CdblTime\<close>) are
  left out.  The result of \<^verbatim>\<open>gettimeofday\<close> is a parameter.
\<close>

record timeval =
  tv_sec :: int
  tv_usec :: int

definition tv_zero :: timeval where
  "tv_zero = \<lparr> tv_sec = 0, tv_usec = 0 \<rparr>"

text \<open>\<^verbatim>\<open>operator=(const int64 &rhs_msec)\<close>: a time since startup made absolute.\<close>

definition tv_assign_msec :: "timeval \<Rightarrow> int \<Rightarrow> timeval" where
  "tv_assign_msec start msec =
     (let sec = msec sdiv 1000 + tv_sec start;
          usec = (msec smod 1000) * 1000 + tv_usec start
      in if usec \<ge> 1000000 then \<lparr> tv_sec = sec + 1, tv_usec = usec - 1000000 \<rparr>
         else \<lparr> tv_sec = sec, tv_usec = usec \<rparr>)"

definition tv_minus :: "timeval \<Rightarrow> timeval \<Rightarrow> timeval" where
  "tv_minus l r =
     (if tv_sec l \<ge> tv_sec r
      then \<lparr> tv_sec = tv_sec l - tv_sec r,
             tv_usec = (if tv_usec l \<ge> tv_usec r then tv_usec l - tv_usec r
                        else 1000000 + tv_usec l - tv_usec r) \<rparr>
      else \<lparr> tv_sec = 0, tv_usec = 0 \<rparr>)"

definition tv_plus :: "timeval \<Rightarrow> timeval \<Rightarrow> timeval" where
  "tv_plus l r =
     \<lparr> tv_sec = tv_sec l + tv_sec r,
       tv_usec = (if tv_usec l + tv_usec r \<ge> 1000000 then tv_usec l + tv_usec r - 1000000
                  else tv_usec l + tv_usec r) \<rparr>"

definition tv_plus_assign :: "timeval \<Rightarrow> timeval \<Rightarrow> timeval" where
  "tv_plus_assign l r =
     \<lparr> tv_sec = tv_sec l + tv_sec r,
       tv_usec = (if tv_usec l + tv_usec r \<ge> 1000000 then tv_usec l + (tv_usec r - 1000000)
                  else tv_usec l + tv_usec r) \<rparr>"

text \<open>\<^verbatim>\<open>operator+(const int rhs)\<close>: a time plus a delay in milliseconds.\<close>

definition tv_plus_msec :: "timeval \<Rightarrow> int \<Rightarrow> timeval" where
  "tv_plus_msec l rhs =
     (let sec = tv_sec l + rhs sdiv 1000; usec = tv_usec l + (rhs smod 1000) * 1000
      in if usec \<ge> 1000000 then \<lparr> tv_sec = sec + 1, tv_usec = usec - 1000000 \<rparr>
         else \<lparr> tv_sec = sec, tv_usec = usec \<rparr>)"

definition tv_eq :: "timeval \<Rightarrow> timeval \<Rightarrow> bool" where
  "tv_eq l r = (tv_sec l = tv_sec r \<and> tv_usec l = tv_usec r)"

definition tv_less :: "timeval \<Rightarrow> timeval \<Rightarrow> bool" where
  "tv_less l r = (tv_sec l < tv_sec r \<or> (tv_sec l = tv_sec r \<and> tv_usec l < tv_usec r))"

text \<open>\<^verbatim>\<open>Ctimeval::now\<close> aborts unless \<^verbatim>\<open>gettimeofday\<close> returns 0.\<close>

definition tv_now :: "int \<times> timeval \<Rightarrow> timeval option" where
  "tv_now reading = (if fst reading \<noteq> 0 then None else Some (snd reading))"

section \<open>CTmTime\<close>

definition msectotimeval :: "int \<Rightarrow> timeval" where
  "msectotimeval msec = \<lparr> tv_sec = msec sdiv 1000, tv_usec = (msec smod 1000) * 1000 \<rparr>"

definition timevaltomsec :: "timeval \<Rightarrow> 64 word" where
  "timevaltomsec t = word_of_int (tv_sec t * 1000 + tv_usec t sdiv 1000)"

text \<open>\<^verbatim>\<open>CTmTime::operator=(Ctimeval)\<close>, which rounds a positive remainder up to 1 msec.\<close>

definition tmtime_assign :: "timeval \<Rightarrow> 64 word" where
  "tmtime_assign rhs =
     (let usec = (if tv_sec rhs = 0 \<and> (tv_usec rhs < 0 \<or> (tv_usec rhs > 0 \<and> tv_usec rhs < 1000))
                  then 1000 else tv_usec rhs)
      in word_of_int (tv_sec rhs * 1000 + usec sdiv 1000))"

text \<open>The constructors \<^verbatim>\<open>CTmTime(int32 pv_msec)\<close> and \<^verbatim>\<open>CTmTime()\<close>.\<close>

definition tmtime_after :: "timeval \<Rightarrow> int \<times> timeval \<Rightarrow> int \<Rightarrow> 64 word option" where
  "tmtime_after start reading msec =
     do { now \<leftarrow> tv_now reading;
          Some (tmtime_assign (tv_minus (tv_plus_msec now msec) start)) }"

definition tmtime_now :: "timeval \<Rightarrow> int \<times> timeval \<Rightarrow> 64 word option" where
  "tmtime_now start reading =
     do { now \<leftarrow> tv_now reading; Some (tmtime_assign (tv_minus now start)) }"

definition tmtime_get_tv :: "timeval \<Rightarrow> 64 word \<Rightarrow> timeval" where
  "tmtime_get_tv start t = tv_plus start (msectotimeval (sint t))"

definition tmtime_left_tv :: "timeval \<Rightarrow> int \<times> timeval \<Rightarrow> 64 word \<Rightarrow> timeval option" where
  "tmtime_left_tv start reading t =
     do { now \<leftarrow> tv_now reading; Some (tv_minus (tmtime_get_tv start t) now) }"

lemmas tv_op_defs = tv_minus_def tv_plus_def tv_plus_assign_def tv_plus_msec_def tv_assign_msec_def

section \<open>Meaning of the operators\<close>

text \<open>The number of microseconds a normalised pair stands for.\<close>

definition tv_total :: "timeval \<Rightarrow> int" where
  "tv_total t = tv_sec t * 1000000 + tv_usec t"

definition tv_ok :: "timeval \<Rightarrow> bool" where
  "tv_ok t = (0 \<le> tv_usec t \<and> tv_usec t < 1000000)"

lemma trunc_split: "(m sdiv 1000) * 1000 + m smod 1000 = (m :: int)"
  by (rule sdiv_mult_smod_eq)

lemma smod_range: "0 \<le> m \<Longrightarrow> 0 \<le> m smod 1000 \<and> m smod 1000 < (1000 :: int)"
  by (cases "m = 0") (simp_all add: signed_modulo_int_def)

lemma sdiv_nonneg: "0 \<le> m \<Longrightarrow> m sdiv 1000 = m div (1000 :: int)"
  by (cases "m = 0") (simp_all add: signed_divide_int_def)

lemma sdiv_exact: "(x * 1000) sdiv 1000 = (x :: int)"
  by (simp add: signed_divide_int_def sgn_mult abs_mult sgn_mult_abs)

lemma tv_plus_msec_exact:
  assumes "tv_ok t" and "0 \<le> m"
  shows "tv_ok (tv_plus_msec t m) \<and> tv_total (tv_plus_msec t m) = tv_total t + m * 1000"
  using assms smod_range [OF assms(2)] trunc_split [of m]
  by (auto simp: tv_plus_msec_def tv_ok_def tv_total_def Let_def)

lemma tv_assign_msec_exact:
  assumes "tv_ok start" and "0 \<le> m"
  shows "tv_ok (tv_assign_msec start m) \<and> tv_total (tv_assign_msec start m) = tv_total start + m * 1000"
  using assms smod_range [OF assms(2)] trunc_split [of m]
  by (auto simp: tv_assign_msec_def tv_ok_def tv_total_def Let_def)

lemma tv_minus_value:
  assumes "tv_ok a" and "tv_ok b"
  shows "tv_ok (tv_minus a b) \<and> tv_total (tv_minus a b) =
    (if tv_sec a < tv_sec b then 0
     else if tv_usec b \<le> tv_usec a then tv_total a - tv_total b
     else tv_total a - tv_total b + 1000000)"
  using assms by (auto simp: tv_minus_def tv_ok_def tv_total_def)

lemma tv_plus_value:
  assumes "tv_ok a" and "tv_ok b"
  shows "tv_ok (tv_plus a b) \<and> tv_total (tv_plus a b) =
    (if tv_usec a + tv_usec b < 1000000 then tv_total a + tv_total b
     else tv_total a + tv_total b - 1000000)"
  using assms by (auto simp: tv_plus_def tv_ok_def tv_total_def)

lemma tv_plus_assign_same: "tv_plus_assign a b = tv_plus a b"
  by (simp add: tv_plus_assign_def tv_plus_def)

lemma tv_less_total:
  assumes "tv_ok a" and "tv_ok b"
  shows "tv_less a b \<longleftrightarrow> tv_total a < tv_total b"
  using assms by (auto simp: tv_less_def tv_ok_def tv_total_def)

lemma msec_round_trip: "timevaltomsec (msectotimeval m) = word_of_int m"
  by (simp add: timevaltomsec_def msectotimeval_def sdiv_exact trunc_split)

instantiation timeval_ext :: (linorder) linorder
begin

definition less_eq_timeval_ext :: "'a timeval_ext \<Rightarrow> 'a timeval_ext \<Rightarrow> bool" where
  "less_eq_timeval_ext a b =
     (tv_sec a < tv_sec b \<or> (tv_sec a = tv_sec b \<and>
      (tv_usec a < tv_usec b \<or> (tv_usec a = tv_usec b \<and> timeval.more a \<le> timeval.more b))))"

definition less_timeval_ext :: "'a timeval_ext \<Rightarrow> 'a timeval_ext \<Rightarrow> bool" where
  "less_timeval_ext a b =
     (tv_sec a < tv_sec b \<or> (tv_sec a = tv_sec b \<and>
      (tv_usec a < tv_usec b \<or> (tv_usec a = tv_usec b \<and> timeval.more a < timeval.more b))))"

instance
  by standard (auto simp: less_eq_timeval_ext_def less_timeval_ext_def)

end

lemma tv_less_is_less: "tv_less a b \<longleftrightarrow> a < b"
  by (auto simp: tv_less_def less_timeval_ext_def)

section \<open>Properties\<close>

text \<open>
  Converting a number of milliseconds to a second/microsecond pair and back is the
  identity on every value an \<^verbatim>\<open>int64\<close> holds, and the pair stands for exactly that time.
\<close>

theorem msec_timeval_round_trip:
  assumes "- (2 ^ 63) \<le> m" and "m < 2 ^ 63"
  shows "sint (timevaltomsec (msectotimeval m)) = m \<and> tv_total (msectotimeval m) = m * 1000"
proof
  have "sint (word_of_int m :: 64 word) = m"
    using assms by (simp add: sint_sbintrunc' signed_take_bit_int_eq_self_iff)
  then show "sint (timevaltomsec (msectotimeval m)) = m" by (simp add: msec_round_trip)
  show "tv_total (msectotimeval m) = m * 1000"
    using trunc_split [of m] by (simp add: msectotimeval_def tv_total_def)
qed

theorem msec_timeval_round_trip_witness:
  "sint (timevaltomsec (msectotimeval (- 1500))) = - 1500"
  using msec_timeval_round_trip [of "- 1500"] by simp

text \<open>
  The expiry time the constructor \<^verbatim>\<open>CTmTime(int32 pv_msec)\<close> computes.  It is the
  delay added to the current time, relative to startup, in milliseconds, and one
  whole second more than that exactly when the microseconds of the expiry time are below
  those of the startup time: \<^verbatim>\<open>operator-\<close> steals a second without giving it back.
\<close>

theorem tmtime_after_value:
  assumes "tv_ok now" and "tv_ok start" and "0 \<le> msec"
    and "tv_sec start < tv_sec (tv_plus_msec now msec)"
  shows "tmtime_after start (0, now) msec =
    Some (word_of_int ((tv_total now + msec * 1000 - tv_total start
      + (if tv_usec (tv_plus_msec now msec) < tv_usec start then 1000000 else 0)) div 1000))"
proof -
  let ?e = "tv_plus_msec now msec"
  have e: "tv_ok ?e" "tv_total ?e = tv_total now + msec * 1000"
    using tv_plus_msec_exact [OF assms(1,3)] by auto
  have d: "tv_ok (tv_minus ?e start)" "0 < tv_sec (tv_minus ?e start)"
      "tv_total (tv_minus ?e start) = tv_total ?e - tv_total start
         + (if tv_usec ?e < tv_usec start then 1000000 else 0)"
    using tv_minus_value [OF e(1) assms(2)] assms(4) by (auto simp: tv_minus_def)
  have "tv_sec (tv_minus ?e start) * 1000 + tv_usec (tv_minus ?e start) sdiv 1000
        = tv_total (tv_minus ?e start) div 1000"
  proof -
    have "tv_usec (tv_minus ?e start) sdiv 1000 = tv_usec (tv_minus ?e start) div 1000"
      using d(1) by (intro sdiv_nonneg) (simp add: tv_ok_def)
    moreover have "(s * 1000000 + u) div 1000 = s * 1000 + u div 1000" for s u :: int
      using div_mult_self1 [of 1000 u "s * 1000"] by (simp add: algebra_simps)
    ultimately show ?thesis by (simp add: tv_total_def)
  qed
  then show ?thesis
    using d e by (simp add: tmtime_after_def tv_now_def tmtime_assign_def Let_def del: of_int_add of_int_mult)
qed

theorem tmtime_after_value_witness:
  "tmtime_after \<lparr> tv_sec = 100, tv_usec = 500000 \<rparr> (0, \<lparr> tv_sec = 110, tv_usec = 200000 \<rparr>) 50 = Some 10750"
proof -
  have "tv_ok \<lparr> tv_sec = 110, tv_usec = 200000 \<rparr>" "tv_ok \<lparr> tv_sec = 100, tv_usec = 500000 \<rparr>"
      "tv_plus_msec \<lparr> tv_sec = 110, tv_usec = 200000 \<rparr> 50 = \<lparr> tv_sec = 110, tv_usec = 250000 \<rparr>"
    by (simp_all add: tv_ok_def tv_plus_msec_def)
  then show ?thesis
    using tmtime_after_value [of "\<lparr> tv_sec = 110, tv_usec = 200000 \<rparr>" "\<lparr> tv_sec = 100, tv_usec = 500000 \<rparr>" 50]
    by (simp add: tv_total_def)
qed

end
