(* ===== verification/Tm_Pool.thy ===== *)
theory Tm_Pool
  imports Tm_Containers Tm_Time
begin

text \<open>
  \<^verbatim>\<open>CTmPool<T>\<close> of \<^verbatim>\<open>tmpool.h\<close>, the pool that owns the transaction and thread objects:
  an in-use list keyed by an index, a free list, the three configured sizes and
  the statistics counters.  The element class \<^verbatim>\<open>T\<close> is a parameter that supplies the
  callbacks the template calls.  The \<^verbatim>\<open>iv_perSecCum\<close> fields, which the class sets to
  zero and never uses, are left out; log writes are counted, not formatted.
\<close>

record 'e pool_class =
  constructPoolElement :: "int \<Rightarrow> 'e"
  cleanPoolElement :: "'e \<Rightarrow> int \<times> 'e"
  setEIDState :: "char \<Rightarrow> 'e \<Rightarrow> 'e"

abbreviation (input) EID_STATE_DELETED :: char where "EID_STATE_DELETED \<equiv> CHR ''X''"
abbreviation (input) EID_STATE_INUSE :: char where "EID_STATE_INUSE \<equiv> CHR ''U''"
abbreviation (input) EID_STATE_FREE :: char where "EID_STATE_FREE \<equiv> CHR ''F''"

record 'e ctm_pool =
  pl_inUseList :: "'e tm_map"
  pl_freeList :: "'e tm_deque"
  pl_max :: int
  pl_steadyLow :: int
  pl_steadyHigh :: int
  pl_collectStats :: bool
  pl_startTime :: timeval
  pl_lastTimeInterval :: timeval
  pl_poolThresholdEventCounter :: int
  pl_total :: int
  pl_totalAllocs_new :: int
  pl_totalAllocs_free :: int
  pl_totalDeallocs_free :: int
  pl_totalDeallocs_delete :: int
  pl_thresholdEvents :: int

definition pool_resetCounters :: "timeval \<Rightarrow> 'e ctm_pool \<Rightarrow> 'e ctm_pool" where
  "pool_resetCounters now p =
     p\<lparr> pl_startTime := now, pl_lastTimeInterval := now,
        pl_totalAllocs_new := 0, pl_totalAllocs_free := 0,
        pl_totalDeallocs_free := 0, pl_totalDeallocs_delete := 0 \<rparr>"

definition pool_config_bad :: "int \<Rightarrow> int \<Rightarrow> int \<Rightarrow> bool" where
  "pool_config_bad mx low high = (mx < high \<or> high < low \<or> low < 0)"

text \<open>The constructor aborts on a configuration whose sizes are out of order.\<close>

definition pool_create :: "timeval \<Rightarrow> bool \<Rightarrow> int \<Rightarrow> int \<Rightarrow> int \<Rightarrow> 'e ctm_pool option" where
  "pool_create now collectStats mx low high =
     (let p = pool_resetCounters now
                \<lparr> pl_inUseList = map_new, pl_freeList = deque_new, pl_max = mx,
                  pl_steadyLow = low, pl_steadyHigh = high, pl_collectStats = collectStats,
                  pl_startTime = tv_zero, pl_lastTimeInterval = tv_zero,
                  pl_poolThresholdEventCounter = 0, pl_total = 0,
                  pl_totalAllocs_new = 0, pl_totalAllocs_free = 0,
                  pl_totalDeallocs_free = 0, pl_totalDeallocs_delete = 0,
                  pl_thresholdEvents = 0 \<rparr>
      in if pool_config_bad mx low high then None else Some p)"

definition pool_get :: "int \<Rightarrow> 'e ctm_pool \<Rightarrow> 'e option" where
  "pool_get idx p = map_get idx (pl_inUseList p)"

definition pool_dec_totalElements :: "'e ctm_pool \<Rightarrow> 'e ctm_pool" where
  "pool_dec_totalElements p = p\<lparr> pl_total := pl_total p - 1 \<rparr>"

text \<open>Every fifth allocation above the steady state high is reported.\<close>

definition pool_threshold_check :: "'e ctm_pool \<Rightarrow> 'e ctm_pool" where
  "pool_threshold_check p =
     (if pl_total p > pl_steadyHigh p
      then p\<lparr> pl_poolThresholdEventCounter := pl_poolThresholdEventCounter p + 1,
              pl_thresholdEvents := pl_thresholdEvents p +
                (if pl_poolThresholdEventCounter p smod 5 = 0 then 1 else 0) \<rparr>
      else p)"

definition pool_newElement ::
  "'e pool_class \<Rightarrow> int \<Rightarrow> bool \<Rightarrow> 'e ctm_pool \<Rightarrow> (('e option \<times> bool) \<times> 'e ctm_pool) option" where
  "pool_newElement c idx reuseIndex p =
     (let (popped, free) = (if pl_total p \<ge> pl_steadyLow p then deque_pop (pl_freeList p)
                            else (None, pl_freeList p))
      in case popped of
           None \<Rightarrow>
             (if pl_total p \<ge> pl_max p then Some ((None, False), p)
              else let e = constructPoolElement c idx;
                       p1 = pool_threshold_check
                              (p\<lparr> pl_freeList := free,
                                  pl_totalAllocs_new := pl_totalAllocs_new p + 1,
                                  pl_total := pl_total p + 1 \<rparr>);
                       e' = setEIDState c EID_STATE_INUSE e
                   in do { m \<leftarrow> map_put idx e' (pl_inUseList p1);
                           Some ((Some e', False), p1\<lparr> pl_inUseList := m \<rparr>) })
         | Some x \<Rightarrow>
             (let (cleanIdx, e) = cleanPoolElement c x;
                  i = (if reuseIndex then cleanIdx else idx);
                  e' = setEIDState c EID_STATE_INUSE e;
                  p1 = p\<lparr> pl_freeList := free, pl_totalAllocs_free := pl_totalAllocs_free p + 1 \<rparr>
              in do { m \<leftarrow> map_put i e' (pl_inUseList p1);
                      Some ((Some e', True), p1\<lparr> pl_inUseList := m \<rparr>) }))"

definition pool_deleteElement :: "'e pool_class \<Rightarrow> int \<Rightarrow> 'e ctm_pool \<Rightarrow> (bool \<times> 'e ctm_pool) option" where
  "pool_deleteElement c idx p =
     (case map_get idx (pl_inUseList p) of
        None \<Rightarrow> None
      | Some e \<Rightarrow>
          (let p1 = p\<lparr> pl_inUseList := snd (map_remove idx (pl_inUseList p)) \<rparr>
           in if pl_total p1 > pl_steadyHigh p1
              then Some (True, p1\<lparr> pl_total := pl_total p1 - 1,
                                   pl_totalDeallocs_delete := pl_totalDeallocs_delete p1 + 1 \<rparr>)
              else Some (False, p1\<lparr> pl_freeList := deque_push (setEIDState c EID_STATE_FREE e) (pl_freeList p1),
                                    pl_totalDeallocs_free := pl_totalDeallocs_free p1 + 1 \<rparr>)))"

definition pool_setConfig :: "bool \<Rightarrow> int \<Rightarrow> int \<Rightarrow> int \<Rightarrow> 'e ctm_pool \<Rightarrow> bool \<times> 'e ctm_pool" where
  "pool_setConfig collectStats mx low high p =
     (let mx' = (if mx \<ge> 0 then mx else pl_max p);
          low' = (if low \<ge> 0 then low else pl_steadyLow p);
          high' = (if high \<ge> 0 then high else pl_steadyHigh p)
      in if pool_config_bad mx' low' high' then (False, p)
         else (True, p\<lparr> pl_collectStats := collectStats, pl_max := mx',
                        pl_steadyLow := low', pl_steadyHigh := high' \<rparr>))"

definition pool_timeSinceLastCumStats :: "timeval \<Rightarrow> 'e ctm_pool \<Rightarrow> int \<times> 'e ctm_pool" where
  "pool_timeSinceLastCumStats now p =
     (tv_sec now - tv_sec (pl_lastTimeInterval p), p\<lparr> pl_lastTimeInterval := now \<rparr>)"

record pool_stats =
  ps_lastTimeInterval :: int
  ps_poolSizeNow :: int
  ps_inUseListNow :: int
  ps_freeListNow :: int
  ps_steadyStateLow :: int
  ps_steadyStateHigh :: int
  ps_max :: int
  ps_poolThresholdEventCounter :: int
  ps_startTime :: timeval
  ps_totalAllocs_free :: int
  ps_totalAllocs_new :: int
  ps_totalDeallocs_delete :: int
  ps_totalDeallocs_free :: int

definition pool_getPoolStats :: "timeval \<Rightarrow> 'e ctm_pool \<Rightarrow> pool_stats \<times> 'e ctm_pool" where
  "pool_getPoolStats now p =
     (let (interval, p1) = pool_timeSinceLastCumStats now p
      in (\<lparr> ps_lastTimeInterval = interval, ps_poolSizeNow = pl_total p1,
            ps_inUseListNow = map_size (pl_inUseList p1), ps_freeListNow = deque_size (pl_freeList p1),
            ps_steadyStateLow = pl_steadyLow p1, ps_steadyStateHigh = pl_steadyHigh p1,
            ps_max = pl_max p1, ps_poolThresholdEventCounter = pl_poolThresholdEventCounter p1,
            ps_startTime = pl_startTime p1, ps_totalAllocs_free = pl_totalAllocs_free p1,
            ps_totalAllocs_new = pl_totalAllocs_new p1, ps_totalDeallocs_delete = pl_totalDeallocs_delete p1,
            ps_totalDeallocs_free = pl_totalDeallocs_free p1 \<rparr>, p1))"

section \<open>Accounting\<close>

text \<open>
  Every element is either in use or free, the counter \<^verbatim>\<open>iv_total\<close> counts them all,
  and the configured sizes stay in order.
\<close>

definition pool_ok :: "'e ctm_pool \<Rightarrow> bool" where
  "pool_ok p = (map_ok (pl_inUseList p)
     \<and> pl_total p = map_size (pl_inUseList p) + deque_size (pl_freeList p)
     \<and> \<not> pool_config_bad (pl_max p) (pl_steadyLow p) (pl_steadyHigh p))"

definition pool_bounded :: "'e ctm_pool \<Rightarrow> bool" where
  "pool_bounded p = (pl_total p \<le> pl_max p \<and> deque_size (pl_freeList p) \<le> pl_steadyHigh p)"

inductive pool_step :: "'e pool_class \<Rightarrow> 'e ctm_pool \<Rightarrow> 'e ctm_pool \<Rightarrow> bool" for c where
  step_new: "pool_newElement c idx reuse p = Some (r, p') \<Longrightarrow> pool_step c p p'"
| step_delete: "pool_deleteElement c idx p = Some (d, p') \<Longrightarrow> pool_step c p p'"
| step_stats: "pool_getPoolStats now p = (s, p') \<Longrightarrow> pool_step c p p'"
| step_reset: "pool_step c p (pool_resetCounters now p)"

inductive pool_reach :: "'e pool_class \<Rightarrow> 'e ctm_pool \<Rightarrow> bool" for c where
  reach_create: "pool_create now b mx low high = Some p \<Longrightarrow> pool_reach c p"
| reach_step: "pool_reach c p \<Longrightarrow> pool_step c p p' \<Longrightarrow> pool_reach c p'"

lemma map_size_nonneg [simp]: "0 \<le> map_size m"
  by (simp add: map_size_def)

lemma deque_size_nonneg [simp]: "0 \<le> deque_size q"
  by (simp add: deque_size_def)

lemma deque_pop_cases:
  "deque_pop q = (None, q) \<and> deque_size q = 0
   \<or> (\<exists>x q'. deque_pop q = (Some x, q') \<and> deque_size q' = deque_size q - 1 \<and> deque_size q > 0)"
  by (auto simp: deque_pop_def deque_size_def split: list.splits)

lemma pool_threshold_check_frame [simp]:
  "pl_inUseList (pool_threshold_check p) = pl_inUseList p"
  "pl_freeList (pool_threshold_check p) = pl_freeList p"
  "pl_total (pool_threshold_check p) = pl_total p"
  "pl_max (pool_threshold_check p) = pl_max p"
  "pl_steadyLow (pool_threshold_check p) = pl_steadyLow p"
  "pl_steadyHigh (pool_threshold_check p) = pl_steadyHigh p"
  by (simp_all add: pool_threshold_check_def)

lemma pool_newElement_cases:
  assumes "pool_newElement c idx reuse p = Some ((r, reused), p')"
  obtains
    (exhausted) "r = None" "\<not> reused" "p' = p" "pl_max p \<le> pl_total p"
      "pl_total p < pl_steadyLow p \<or> deque_size (pl_freeList p) = 0"
  | (fresh) m where "r = Some (setEIDState c EID_STATE_INUSE (constructPoolElement c idx))" "\<not> reused"
      "pl_total p < pl_max p" "pl_total p < pl_steadyLow p \<or> deque_size (pl_freeList p) = 0"
      "map_put idx (the r) (pl_inUseList p) = Some m"
      "pl_inUseList p' = m" "pl_freeList p' = pl_freeList p" "pl_total p' = pl_total p + 1"
      "pl_max p' = pl_max p" "pl_steadyLow p' = pl_steadyLow p" "pl_steadyHigh p' = pl_steadyHigh p"
  | (recycled) i m where "r \<noteq> None" "reused" "\<not> reuse \<Longrightarrow> i = idx"
      "pl_steadyLow p \<le> pl_total p" "deque_size (pl_freeList p) > 0" "map_put i (the r) (pl_inUseList p) = Some m"
      "pl_inUseList p' = m" "deque_size (pl_freeList p') = deque_size (pl_freeList p) - 1"
      "pl_total p' = pl_total p"
      "pl_max p' = pl_max p" "pl_steadyLow p' = pl_steadyLow p" "pl_steadyHigh p' = pl_steadyHigh p"
proof -
  consider (nopop) "pl_total p < pl_steadyLow p \<or> deque_size (pl_freeList p) = 0"
      "(if pl_total p \<ge> pl_steadyLow p then deque_pop (pl_freeList p) else (None, pl_freeList p))
        = (None, pl_freeList p)"
    | (pop) x q where "deque_size q = deque_size (pl_freeList p) - 1"
      "pl_steadyLow p \<le> pl_total p" "deque_size (pl_freeList p) > 0"
      "(if pl_total p \<ge> pl_steadyLow p then deque_pop (pl_freeList p) else (None, pl_freeList p))
        = (Some x, q)"
    using deque_pop_cases [of "pl_freeList p"] by (cases "pl_total p \<ge> pl_steadyLow p") auto
  then show ?thesis
  proof cases
    case nopop
    then show ?thesis
      using assms exhausted fresh unfolding pool_newElement_def nopop(2)
      by (auto simp: Let_def tm_run split: if_splits)
  next
    case pop
    obtain ci e where "cleanPoolElement c x = (ci, e)" by (cases "cleanPoolElement c x")
    then show ?thesis
      using assms pop recycled [of "if reuse then ci else idx"] unfolding pool_newElement_def pop(4)
      by (auto simp: Let_def tm_run)
  qed
qed

lemma pool_newElement_ok:
  assumes "pool_ok p" and "pool_newElement c idx reuse p = Some (r, p')"
  shows "pool_ok p'"
proof -
  obtain e b where r: "r = (e, b)" by (cases r)
  have m: "map_ok (pl_inUseList p)" using assms(1) by (simp add: pool_ok_def)
  show ?thesis
    using assms(2) unfolding r
    by (cases rule: pool_newElement_cases)
       (use assms(1) tmm.put_ok [OF m] tmm.put_sz [OF m] in \<open>auto simp: pool_ok_def\<close>)
qed

lemma pool_newElement_bounded:
  assumes "pool_bounded p" and "pool_newElement c idx reuse p = Some (r, p')"
  shows "pool_bounded p'"
proof -
  obtain e b where r: "r = (e, b)" by (cases r)
  show ?thesis
    using assms(2) unfolding r
    by (cases rule: pool_newElement_cases) (use assms(1) in \<open>auto simp: pool_bounded_def\<close>)
qed

lemma pool_deleteElement_ok:
  assumes "pool_ok p" and "pool_deleteElement c idx p = Some (d, p')"
  shows "pool_ok p'"
proof -
  have m: "map_ok (pl_inUseList p)" using assms(1) by (simp add: pool_ok_def)
  show ?thesis
    using assms tmm.remove_ok [OF m] tmm.remove_sz [OF m, of idx]
    by (auto simp: pool_deleteElement_def pool_ok_def Let_def deque_size_def deque_push_def
        split: option.splits if_splits)
qed

lemma pool_deleteElement_bounded:
  assumes "pool_ok p" and "pool_bounded p" and "pool_deleteElement c idx p = Some (d, p')"
  shows "pool_bounded p'"
proof -
  have m: "map_ok (pl_inUseList p)" using assms(1) by (simp add: pool_ok_def)
  have "map_get idx (pl_inUseList p) \<noteq> None \<Longrightarrow> 1 \<le> map_size (pl_inUseList p)"
    using tmm.remove_sz [OF m, of idx] map_size_nonneg [of "snd (map_remove idx (pl_inUseList p))"]
    by (auto simp del: map_size_nonneg)
  then show ?thesis
    using assms
    by (auto simp: pool_deleteElement_def pool_ok_def pool_bounded_def Let_def deque_size_def
        deque_push_def split: option.splits if_splits)
qed

lemma pool_step_inv:
  assumes "pool_step c p p'" and "pool_ok p" and "pool_bounded p"
  shows "pool_ok p' \<and> pool_bounded p'"
  using assms(1)
proof (cases rule: pool_step.cases)
  case (step_new idx reuse r)
  then show ?thesis using assms pool_newElement_ok pool_newElement_bounded by blast
next
  case (step_delete idx d)
  then show ?thesis using assms pool_deleteElement_ok pool_deleteElement_bounded by blast
next
  case (step_stats now s)
  then show ?thesis
    using assms by (auto simp: pool_getPoolStats_def pool_timeSinceLastCumStats_def pool_ok_def pool_bounded_def)
next
  case (step_reset now)
  then show ?thesis using assms by (simp add: pool_resetCounters_def pool_ok_def pool_bounded_def)
qed

lemma pool_create_inv:
  assumes "pool_create now b mx low high = Some p"
  shows "pool_ok p \<and> pool_bounded p"
  using assms tmm.new_ok
  by (auto simp: pool_create_def pool_resetCounters_def pool_ok_def pool_bounded_def Let_def
      map_size_def map_new_def deque_size_def deque_new_def pool_config_bad_def split: if_splits)

lemma pool_newElement_not_stuck:
  assumes "pool_ok p" and "map_get idx (pl_inUseList p) = None"
  shows "\<exists>r p'. pool_newElement c idx False p = Some (r, p')"
proof -
  have m: "map_ok (pl_inUseList p)" using assms(1) by (simp add: pool_ok_def)
  obtain f where put: "\<And>v. map_put idx v (pl_inUseList p) = Some (f v)"
    using tmm.put_defined [OF m] assms(2) by metis
  show ?thesis
    by (auto simp: pool_newElement_def Let_def put split: prod.splits option.splits)
qed

section \<open>Properties\<close>


text \<open>
  Allocating under an index that is not in use never aborts.  It returns no
  element exactly when the pool is at its maximum and may not or cannot reuse a
  free element; otherwise the returned element is the one stored under the
  index, every other index keeps its element, and one more element is in use.
\<close>

theorem pool_newElement_outcome:
  assumes "pool_ok p" and "map_get idx (pl_inUseList p) = None"
  shows "\<exists>r reused p'. pool_newElement c idx False p = Some ((r, reused), p') \<and>
    (if pl_max p \<le> pl_total p \<and> (pl_total p < pl_steadyLow p \<or> deque_size (pl_freeList p) = 0)
     then r = None \<and> p' = p
     else r \<noteq> None \<and> pool_get idx p' = r
          \<and> (\<forall>k. k \<noteq> idx \<longrightarrow> pool_get k p' = pool_get k p)
          \<and> map_size (pl_inUseList p') = map_size (pl_inUseList p) + 1
          \<and> (reused \<longleftrightarrow> pl_steadyLow p \<le> pl_total p \<and> deque_size (pl_freeList p) > 0))"
proof -
  have m: "map_ok (pl_inUseList p)" using assms(1) by (simp add: pool_ok_def)
  obtain r reused p' where n: "pool_newElement c idx False p = Some ((r, reused), p')"
    using pool_newElement_not_stuck [OF assms, of c] by force
  show ?thesis
    using n
  proof (cases rule: pool_newElement_cases)
    case (fresh m)
    then show ?thesis
      using n tmm.put_get [OF m, of idx] tmm.put_sz [OF m, of idx] by (auto simp: pool_get_def)
  next
    case (recycled i m)
    then show ?thesis
      using n tmm.put_get [OF m, of idx] tmm.put_sz [OF m, of idx] by (auto simp: pool_get_def)
  qed (use n in auto)
qed

definition witness_class :: "(int \<times> char) pool_class" where
  "witness_class = \<lparr> constructPoolElement = (\<lambda>i. (i, CHR '' '')), cleanPoolElement = (\<lambda>e. (fst e, e)),
                     setEIDState = (\<lambda>ch e. (fst e, ch)) \<rparr>"

definition witness_pool :: "(int \<times> char) ctm_pool" where
  "witness_pool = the (pool_create tv_zero False 2 0 1)"

text \<open>Two allocations of a pool with at most two elements.\<close>

lemma witness_pool_reach:
  "pool_reach witness_class
     (snd (the (pool_newElement witness_class 7 False witness_pool)))"
proof (rule reach_step)
  show "pool_reach witness_class witness_pool"
    by (rule reach_create [of tv_zero False 2 0 1]) code_simp
  show "pool_step witness_class witness_pool (snd (the (pool_newElement witness_class 7 False witness_pool)))"
    by (rule step_new [where idx = 7 and reuse = False
          and r = "fst (the (pool_newElement witness_class 7 False witness_pool))"]) code_simp
qed


theorem pool_newElement_outcome_witness:
  "\<exists>r reused p'. pool_newElement witness_class 7 False witness_pool = Some ((r, reused), p')
     \<and> pool_get 7 p' = Some (7, CHR ''U'')"
proof -
  have "pool_ok witness_pool" "map_get 7 (pl_inUseList witness_pool) = None" by code_simp+
  note o = pool_newElement_outcome [OF this, of witness_class]
  then obtain r reused p' where p': "pool_newElement witness_class 7 False witness_pool = Some ((r, reused), p')"
    by blast
  moreover have "the (pool_newElement witness_class 7 False witness_pool) = ((r, reused), p')"
    by (simp add: p')
  moreover have "pool_get 7 (snd (the (pool_newElement witness_class 7 False witness_pool))) = Some (7, CHR ''U'')"
    by code_simp
  ultimately show ?thesis by simp
qed

end
