(* ===== verification/Tm_TseBranch.thy ===== *)
theory Tm_TseBranch
  imports Tm_Prelude "HOL-Library.Word"
begin

text \<open>
  The resource manager branches of the transactional storage engines (TSEs):
  \<^verbatim>\<open>RM_Info_TSEBranch\<close> (\<^verbatim>\<open>tmrmtsebranch.cpp\<close>), one slot, and the table operations of
  \<^verbatim>\<open>RM_Info_TSE\<close> (\<^verbatim>\<open>tmrmtse.cpp\<close>).  One such table is global and lists the known
  resource managers; every transaction has its own copy that records who
  participates and who has answered.  The array \<^verbatim>\<open>ia_TSEBranches\<close> is a list whose
  length is the array size (the constant \<^verbatim>\<open>MAX_OPEN_RMS\<close>, 1025, in the product); a
  pointer into it is an index.
\<close>

section \<open>Data\<close>

text \<open>\<^verbatim>\<open>TM_Txid_Internal\<close>; the transaction type flags are read as one 64-bit word.\<close>

record txid =
  txid_seq_num :: int
  txid_node :: int
  txid_incarnation_num :: int
  txid_tx_flags :: int
  txid_tt_flags :: "64 word"
  txid_version :: int
  txid_check_sum :: int
  txid_timestamp :: int

definition txid_zero :: txid where
  "txid_zero = \<lparr> txid_seq_num = 0, txid_node = 0, txid_incarnation_num = 0, txid_tx_flags = 0,
                 txid_tt_flags = 0, txid_version = 0, txid_check_sum = 0, txid_timestamp = 0 \<rparr>"

text \<open>
  \<^verbatim>\<open>XID\<close>: the data bytes hold the transid, then the branch qualifier.
\<close>

record xid =
  xid_formatID :: int
  xid_gtrid_length :: int
  xid_bqual_length :: int
  xid_transid :: txid
  xid_branchid :: int
  xid_branchtype :: int

definition xid_zero :: xid where
  "xid_zero = \<lparr> xid_formatID = 0, xid_gtrid_length = 0, xid_bqual_length = 0,
                xid_transid = txid_zero, xid_branchid = 0, xid_branchtype = 0 \<rparr>"

record tse_branch =
  br_name :: string
  br_state :: TSEBranch_state
  br_nid :: int
  br_rmid :: int
  br_in_use :: bool
  br_partic :: bool
  br_resolved :: bool
  br_enlisted :: bool
  br_pid :: int
  br_totalBranchesLeftToRecover :: int
  br_xid :: xid

record tse_table =
  ts_branches :: "tse_branch list"
  ts_high_index_used :: nat
  ts_num_rm_partic :: int

section \<open>RM_Info_TSEBranch\<close>

definition branch_new :: tse_branch where
  "branch_new = \<lparr> br_name = '''', br_state = TSEBranch_UP, br_nid = - 1, br_rmid = - 1,
                  br_in_use = False, br_partic = False, br_resolved = False, br_enlisted = False,
                  br_pid = - 1, br_totalBranchesLeftToRecover = 0, br_xid = xid_zero \<rparr>"

text \<open>
  \<^verbatim>\<open>init\<close>.  \<^verbatim>\<open>FORMAT_ID\<close> is 403, a transid has 32 bytes and the branch qualifier 8.
\<close>

definition branch_init ::
  "int \<Rightarrow> int \<Rightarrow> string \<Rightarrow> int \<Rightarrow> bool \<Rightarrow> TSEBranch_state \<Rightarrow> bool \<Rightarrow> tse_branch \<Rightarrow> tse_branch" where
  "branch_init pid nid name rmid is_ax_reg state clean_init b =
     (let b1 = b\<lparr> br_state := state \<rparr>
      in if clean_init
         then b1\<lparr> br_in_use := False, br_partic := False, br_resolved := False, br_enlisted := False,
                  br_rmid := - 1, br_pid := - 1, br_nid := - 1 \<rparr>
         else b1\<lparr> br_in_use := True, br_rmid := rmid, br_pid := pid, br_nid := nid,
                  br_name := take 255 name, br_partic := \<not> is_ax_reg,
                  br_xid := (br_xid b1)\<lparr> xid_formatID := 403, xid_gtrid_length := 32,
                                         xid_bqual_length := 8, xid_branchtype := 0,
                                         xid_branchid := rmid \<rparr> \<rparr>)"

definition branch_close :: "tse_branch \<Rightarrow> tse_branch" where
  "branch_close b = b\<lparr> br_state := TSEBranch_DOWN, br_in_use := False \<rparr>"

definition branch_fail :: "tse_branch \<Rightarrow> tse_branch" where
  "branch_fail b = b\<lparr> br_state := TSEBranch_FAILED \<rparr>"

definition branch_up :: "tse_branch \<Rightarrow> tse_branch" where
  "branch_up b = b\<lparr> br_state := TSEBranch_UP, br_in_use := True \<rparr>"

text \<open>\<^verbatim>\<open>RM_INFO\<close> holds ten bytes of the name.\<close>

record rm_info =
  ri_name :: string
  ri_state :: TSEBranch_state
  ri_in_use :: bool
  ri_nid :: int
  ri_rmid :: int
  ri_partic :: bool
  ri_pid :: int
  ri_totalBranchesLeftToRecover :: int

definition branch_copyto :: "tse_branch \<Rightarrow> rm_info" where
  "branch_copyto b =
     \<lparr> ri_name = take 10 (br_name b), ri_state = br_state b, ri_in_use = br_in_use b,
       ri_nid = br_nid b, ri_rmid = br_rmid b, ri_partic = br_partic b, ri_pid = br_pid b,
       ri_totalBranchesLeftToRecover = br_totalBranchesLeftToRecover b \<rparr>"

definition branch_dec_totalBranchesLeftToRecover :: "tse_branch \<Rightarrow> tse_branch" where
  "branch_dec_totalBranchesLeftToRecover b =
     (if br_state b = TSEBranch_RECOVERING \<and> br_totalBranchesLeftToRecover b > 0
      then let b1 = b\<lparr> br_totalBranchesLeftToRecover := br_totalBranchesLeftToRecover b - 1 \<rparr>
           in if br_totalBranchesLeftToRecover b1 \<le> 0 then branch_up b1 else b1
      else b)"

definition branch_add_partic :: "txid \<Rightarrow> tse_branch \<Rightarrow> bool \<times> tse_branch" where
  "branch_add_partic transid b =
     (if br_partic b then (False, b)
      else (True, branch_up (b\<lparr> br_xid := (br_xid b)\<lparr> xid_transid := transid \<rparr>, br_partic := True \<rparr>)))"

section \<open>RM_Info_TSE\<close>

definition tse_new :: "nat \<Rightarrow> tse_table" where
  "tse_new n = \<lparr> ts_branches = replicate n branch_new, ts_high_index_used = 0, ts_num_rm_partic = 0 \<rparr>"

text \<open>The slots a loop bounded by \<^verbatim>\<open>iv_high_index_used\<close> looks at.\<close>

definition ts_used :: "tse_table \<Rightarrow> tse_branch list" where
  "ts_used t = take (Suc (ts_high_index_used t)) (ts_branches t)"

definition ts_update :: "nat \<Rightarrow> (tse_branch \<Rightarrow> tse_branch) \<Rightarrow> tse_table \<Rightarrow> tse_table" where
  "ts_update i f t = t\<lparr> ts_branches := (ts_branches t)[i := f (ts_branches t ! i)] \<rparr>"

definition tse_inc_num_rm_partic :: "tse_table \<Rightarrow> tse_table" where
  "tse_inc_num_rm_partic t = t\<lparr> ts_num_rm_partic := ts_num_rm_partic t + 1 \<rparr>"

text \<open>\<^verbatim>\<open>init\<close> takes the first slot that is not in use and ignores \<^verbatim>\<open>pv_clean_init\<close>.\<close>

definition tse_init ::
  "int \<Rightarrow> int \<Rightarrow> string \<Rightarrow> int \<Rightarrow> bool \<Rightarrow> TSEBranch_state \<Rightarrow> tse_table \<Rightarrow> int \<times> tse_table" where
  "tse_init pid nid name rmid is_ax_reg state t =
     (case find_index (\<lambda>b. \<not> br_in_use b) (ts_branches t) of
        None \<Rightarrow> (FEFILEFULL, t)
      | Some i \<Rightarrow>
          (let t1 = tse_inc_num_rm_partic
                      (ts_update i (branch_init pid nid name rmid is_ax_reg state False) t)
           in (FEOK, if i > ts_high_index_used t1 then t1\<lparr> ts_high_index_used := i \<rparr> else t1)))"

definition tse_reinit ::
  "int \<Rightarrow> int \<Rightarrow> string \<Rightarrow> int \<Rightarrow> bool \<Rightarrow> bool \<Rightarrow> TSEBranch_state \<Rightarrow> tse_table \<Rightarrow> int \<times> tse_table" where
  "tse_reinit pid nid name rmid is_ax_reg clean_init state t =
     (case find_index (\<lambda>b. br_rmid b = rmid) (ts_branches t) of
        None \<Rightarrow> (FENOTFOUND, t)
      | Some i \<Rightarrow> (FEOK, ts_update i (branch_init pid nid name rmid is_ax_reg state clean_init) t))"

text \<open>One iteration of the loop of \<^verbatim>\<open>init_rms\<close>: the global slot and the old slot.\<close>

definition init_rms_slot :: "txid \<Rightarrow> bool \<Rightarrow> tse_branch \<Rightarrow> tse_branch \<Rightarrow> tse_branch" where
  "init_rms_slot transid partic g b =
     (if br_in_use g
      then g\<lparr> br_xid := (br_xid g)\<lparr> xid_transid := transid \<rparr>, br_partic := partic,
              br_resolved := False, br_enlisted := False \<rparr>
      else b\<lparr> br_in_use := False, br_partic := False, br_resolved := False, br_enlisted := False \<rparr>)"

fun init_rms_high :: "nat \<Rightarrow> nat \<Rightarrow> tse_branch list \<Rightarrow> nat" where
  "init_rms_high i high [] = high"
| "init_rms_high i high (g # gs) =
     init_rms_high (Suc i) (if br_in_use g \<and> i > high then i else high) gs"

definition tse_init_rms :: "txid \<Rightarrow> bool \<Rightarrow> tse_table \<Rightarrow> tse_table \<Rightarrow> tse_table" where
  "tse_init_rms transid partic g t =
     \<lparr> ts_branches = map2 (init_rms_slot transid partic) (ts_branches g) (ts_branches t),
       ts_high_index_used = init_rms_high 0 0 (ts_branches g),
       ts_num_rm_partic =
         (if partic then int (length (filter br_in_use (ts_branches g))) else 0) \<rparr>"

definition tse_remove_rm_by_rmid :: "int \<Rightarrow> tse_table \<Rightarrow> tse_table" where
  "tse_remove_rm_by_rmid rmid t =
     (case find_index (\<lambda>b. br_in_use b \<and> br_rmid b = rmid) (ts_used t) of
        None \<Rightarrow> t
      | Some i \<Rightarrow> (ts_update i (\<lambda>b. b\<lparr> br_partic := False \<rparr>) t)
                    \<lparr> ts_num_rm_partic := ts_num_rm_partic t - 1 \<rparr>)"

definition tse_remove_rm_by_index :: "nat \<Rightarrow> tse_table \<Rightarrow> tse_table option" where
  "tse_remove_rm_by_index i t =
     (if i < length (ts_branches t)
      then Some (if br_in_use (ts_branches t ! i)
                 then (ts_update i (\<lambda>b. b\<lparr> br_partic := False \<rparr>) t)
                        \<lparr> ts_num_rm_partic := ts_num_rm_partic t - 1 \<rparr>
                 else t)
      else None)"

definition tse_set_partic_and_transid :: "txid \<Rightarrow> int \<Rightarrow> tse_table \<Rightarrow> int \<times> tse_table" where
  "tse_set_partic_and_transid transid rmid t =
     (case find_index (\<lambda>b. br_rmid b = rmid) (ts_used t) of
        None \<Rightarrow> (- 1, t)
      | Some i \<Rightarrow> (int i, (ts_update i (\<lambda>b. branch_up (snd (branch_add_partic transid b))) t)
                            \<lparr> ts_num_rm_partic := ts_num_rm_partic t + 1 \<rparr>))"

definition tse_num_rm_failed :: "tse_table \<Rightarrow> int" where
  "tse_num_rm_failed t = int (length (filter (\<lambda>b. br_state b \<noteq> TSEBranch_UP) (ts_used t)))"

definition tse_num_rm_partic :: "tse_table \<Rightarrow> int" where
  "tse_num_rm_partic t = int (length (filter br_partic (ts_used t)))"

definition tse_num_rms_unresolved :: "tse_table \<Rightarrow> int" where
  "tse_num_rms_unresolved t =
     int (length (filter (\<lambda>b. br_partic b \<and> \<not> br_resolved b) (ts_used t)))"

definition tse_reset_resolved :: "tse_table \<Rightarrow> tse_table" where
  "tse_reset_resolved t =
     t\<lparr> ts_branches := map (\<lambda>b. b\<lparr> br_resolved := False \<rparr>) (ts_used t)
                        @ drop (Suc (ts_high_index_used t)) (ts_branches t) \<rparr>"

definition tse_fail_rm :: "int \<Rightarrow> tse_table \<Rightarrow> tse_table" where
  "tse_fail_rm rmid t =
     (case find_index (\<lambda>b. br_rmid b = rmid) (ts_used t) of
        None \<Rightarrow> t
      | Some i \<Rightarrow> ts_update i (\<lambda>b. b\<lparr> br_state := TSEBranch_FAILED \<rparr>) t)"

definition tse_fail_rm_nid_pid :: "int \<Rightarrow> int \<Rightarrow> tse_table \<Rightarrow> tse_table" where
  "tse_fail_rm_nid_pid nid pid t =
     (case find_index (\<lambda>b. br_nid b = nid \<and> br_pid b = pid) (ts_used t) of
        None \<Rightarrow> t
      | Some i \<Rightarrow> ts_update i (\<lambda>b. b\<lparr> br_state := TSEBranch_FAILED \<rparr>) t)"

text \<open>\<^verbatim>\<open>return_slot\<close>: the slot an rmid has, NULL when no slot has it.\<close>

definition tse_return_slot :: "int \<Rightarrow> tse_table \<Rightarrow> nat option" where
  "tse_return_slot rmid t = find_index (\<lambda>b. br_rmid b = rmid) (ts_branches t)"

definition tse_return_slot_index :: "int \<Rightarrow> tse_table \<Rightarrow> int" where
  "tse_return_slot_index rmid t =
     (case find_index (\<lambda>b. br_rmid b = rmid) (ts_branches t) of None \<Rightarrow> - 1 | Some i \<Rightarrow> int i)"

definition tse_return_slot_pname :: "string \<Rightarrow> tse_table \<Rightarrow> nat option" where
  "tse_return_slot_pname name t = find_index (\<lambda>b. br_name b = name) (ts_branches t)"

text \<open>
  \<^verbatim>\<open>return_rmid\<close>.  The first argument is the answer of \<^verbatim>\<open>msg_mon_get_process_name\<close>,
  \<^const>\<open>None\<close> for an error.
\<close>

definition tse_return_rmid :: "string option \<Rightarrow> int \<Rightarrow> int \<Rightarrow> tse_table \<Rightarrow> int \<times> tse_table" where
  "tse_return_rmid pname nid pid t =
     (case pname of
        None \<Rightarrow> (- 1, t)
      | Some name \<Rightarrow>
          (case tse_return_slot_pname name t of
             None \<Rightarrow> (- 1, t)
           | Some i \<Rightarrow> (br_rmid (ts_branches t ! i),
                        ts_update i (\<lambda>b. b\<lparr> br_nid := nid, br_pid := pid \<rparr>) t)))"

definition tse_setBranchState :: "int \<Rightarrow> TSEBranch_state \<Rightarrow> tse_table \<Rightarrow> tse_table option" where
  "tse_setBranchState rmid state t =
     (case tse_return_slot rmid t of
        None \<Rightarrow> None
      | Some i \<Rightarrow> Some (ts_update i (\<lambda>b. b\<lparr> br_state := state \<rparr>) t))"

end
