(* ===== verification/Tm_World.thy ===== *)
theory Tm_World
  imports Tm_TseBranch Tm_Containers Tm_Time
begin

text \<open>
  The state one transaction thread of the transaction manager works on, and the
  environment that answers its calls.

  The state gathers the transaction object (\<^verbatim>\<open>CTmTxBase\<close>), the transaction's own TSE
  branch table, the global TSE table \<^verbatim>\<open>gv_RMs\<close>, the part of \<^verbatim>\<open>gv_tm_info\<close> the
  transaction code reads and counts in, and a store of \<^verbatim>\<open>CTmTxMessage\<close> objects: a message
  is reached through several pointers at once (the event queue, \<^verbatim>\<open>ip_currRequest\<close>, the
  argument of a request method), so a pointer is an address and the store says
  whether the object still lives.  Everything the transaction manager does to the
  outside world is appended, in order, to a trace.

  The environment stands for what is not transaction manager code: the XA library and
  the resource managers behind it, the HBase transaction library, the monitor, thread
  creation and the event queue of a thread.  Its answers are arbitrary functions of a call counter.
\<close>

unbundle bit_operations_syntax

section \<open>Messages\<close>

datatype TM_MSG_TYPE =
    MSG_BEGINTRANSACTION | MSG_ENDTRANSACTION | MSG_ABORTTRANSACTION | MSG_STATUSTRANSACTION
  | MSG_AX_REG | MSG_JOINTRANSACTION | MSG_SUSPENDTRANSACTION | MSG_DOOMTX | MSG_TSE_DOOMTX
  | MSG_REGISTERREGION | TXTHREAD_RELEASE | TXTHREAD_TERMINATE
  | TXINTERNAL_ROLLBACK | TXINTERNAL_REDRIVEROLLBACK | TXINTERNAL_REDRIVECOMMIT
  | TXINTERNAL_ABORTCOMPLETE | TXINTERNAL_ENDCOMPLETE | TXINTERNAL_ENDFORGET
  | TXINTERNAL_REDRIVESYNC | TXINTERNAL_BEGINCOMPLETE | MSG_OTHER int

text \<open>
  The request fields the transaction code reads (the union of request structures
  of \<^verbatim>\<open>tmlibmsg.h\<close>) and the response fields it fills in.
\<close>

record tx_msg =
  ms_msgid :: int
  ms_requestType :: TM_MSG_TYPE
  ms_nid :: int
  ms_pid :: int
  ms_rmid :: int
  ms_flags :: "64 word"
  ms_coord_role :: bool
  ms_takeover_or_shutdown :: bool
  ms_rspError :: int
  ms_rspStatus :: int
  ms_rspTm_pid :: int
  ms_rspTransid :: txid
  ms_rspTag :: int
  ms_rspXid :: xid
  ms_rspFlags :: "64 word"
  ms_rspIncarnation_num :: int
  ms_rspLeadTM_nid :: int

abbreviation (input) NULL_MSGID :: int where "NULL_MSGID \<equiv> 0"

text \<open>
  The constructor from a request type: a zeroed request, a cleared response and no
  message to reply to.
\<close>

definition msg_internal :: "TM_MSG_TYPE \<Rightarrow> tx_msg" where
  "msg_internal ty =
     \<lparr> ms_msgid = NULL_MSGID, ms_requestType = ty, ms_nid = 0, ms_pid = 0, ms_rmid = 0, ms_flags = 0,
       ms_coord_role = False, ms_takeover_or_shutdown = False, ms_rspError = FEOK, ms_rspStatus = 0,
       ms_rspTm_pid = 0, ms_rspTransid = txid_zero, ms_rspTag = 0, ms_rspXid = xid_zero,
       ms_rspFlags = 0, ms_rspIncarnation_num = 0, ms_rspLeadTM_nid = 0 \<rparr>"

section \<open>The transaction object\<close>

record tx =
  tx_transid :: txid
  tx_tag :: int
  tx_tx_state :: TM_TX_STATE
  tx_ender_pid :: int
  tx_ender_nid :: int
  tx_num_active_partic :: int
  tx_prepared_rms :: int
  tx_cleanup_sem :: int
  tx_rm_wait_time :: int
  tx_in_use :: bool
  tx_mark_for_rollback :: bool
  tx_tm_aborted :: bool
  tx_tse_aborted :: bool
  tx_appl_aborted :: bool
  tx_heur_aborted :: bool
  tx_read_only :: bool
  tx_written_in_cp :: bool
  tx_wrote_trans_state :: bool
  tx_recovering :: bool
  tx_transactionBusy :: bool
  tx_timeout :: int
  tx_timeoutEvent :: bool
  tx_hung_event :: bool
  tx_Thread :: bool
  tx_threadPending :: bool
  tx_currRequest :: "nat option"
  tx_eventQ :: "nat tm_deque"
  tx_PendingRequestQ :: "nat tm_deque"
  tx_app_partic_list :: "64 word tm_map"

text \<open>The constructor of \<^verbatim>\<open>TM_TX_Info\<close>.\<close>

definition tx_new :: "int \<Rightarrow> tx" where
  "tx_new nid =
     \<lparr> tx_transid = txid_zero, tx_tag = 0, tx_tx_state = NOTX, tx_ender_pid = 0, tx_ender_nid = nid,
       tx_num_active_partic = 0, tx_prepared_rms = 0, tx_cleanup_sem = 0, tx_rm_wait_time = 0,
       tx_in_use = False, tx_mark_for_rollback = False, tx_tm_aborted = False, tx_tse_aborted = False,
       tx_appl_aborted = False, tx_heur_aborted = False, tx_read_only = False,
       tx_written_in_cp = False, tx_wrote_trans_state = False, tx_recovering = False,
       tx_transactionBusy = False, tx_timeout = 0, tx_timeoutEvent = False, tx_hung_event = False,
       tx_Thread = False, tx_threadPending = False, tx_currRequest = None, tx_eventQ = deque_new,
       tx_PendingRequestQ = deque_new, tx_app_partic_list = map_new \<rparr>"

abbreviation (input) TM_TT_READ_ONLY :: "64 word" where "TM_TT_READ_ONLY \<equiv> 1"
abbreviation (input) TM_TT_NO_UNDO :: "64 word" where "TM_TT_NO_UNDO \<equiv> 2"

definition tx_TT_flags :: "tx \<Rightarrow> 64 word" where
  "tx_TT_flags x = txid_tt_flags (tx_transid x)"

definition tx_set_TT_flags :: "64 word \<Rightarrow> tx \<Rightarrow> tx" where
  "tx_set_TT_flags f x = x\<lparr> tx_transid := (tx_transid x)\<lparr> txid_tt_flags := f \<rparr> \<rparr>"

text \<open>\<^verbatim>\<open>abort_flags()\<close> and \<^verbatim>\<open>abort_flags(int32)\<close>, with the offsets 0x0, 0x2, 0x4 and 0x8.\<close>

definition tx_abort_flags :: "tx \<Rightarrow> int" where
  "tx_abort_flags x =
     of_bool (tx_tm_aborted x) * 0 + of_bool (tx_tse_aborted x) * 2
     + of_bool (tx_appl_aborted x) * 4 + of_bool (tx_heur_aborted x) * 8"

definition tx_set_abort_flags :: "int \<Rightarrow> tx \<Rightarrow> tx" where
  "tx_set_abort_flags f x =
     x\<lparr> tx_tm_aborted := (f AND 0 \<noteq> 0), tx_tse_aborted := (f AND 2 \<noteq> 0),
        tx_appl_aborted := (f AND 4 \<noteq> 0), tx_heur_aborted := (f AND 8 \<noteq> 0) \<rparr>"

definition tx_isAborting :: "tx \<Rightarrow> bool" where
  "tx_isAborting x =
     (tx_tx_state x = ABORTING \<or> tx_tx_state x = ABORTING_PART2 \<or> tx_tx_state x = ABORTED
      \<or> tx_tx_state x = HUNGABORTED \<or> tx_abort_flags x \<noteq> 0 \<or> tx_mark_for_rollback x)"

definition tx_hung :: "tx \<Rightarrow> bool" where
  "tx_hung x = (tx_tx_state x = HUNGCOMMITTED \<or> tx_tx_state x = HUNGABORTED)"

definition tx_is_ender :: "int \<Rightarrow> int \<Rightarrow> tx \<Rightarrow> bool" where
  "tx_is_ender nid pid x = (tx_ender_nid x = nid \<and> tx_ender_pid x = pid)"

definition tx_cleaning_up :: "tx \<Rightarrow> bool" where
  "tx_cleaning_up x = (tx_cleanup_sem x > 0)"

section \<open>Transaction manager globals\<close>

datatype TM_MODE = TM_SYNC_MODE | TM_NONSYNC_MODE
datatype THREAD_MODEL = TH_MAIN | TH_TRANSACTION | TH_WORKER

record tm_info =
  gi_nid :: int
  gi_pid :: int
  gi_lead_tm_nid :: int
  gi_incarnation_num :: int
  gi_mode :: TM_MODE
  gi_threadModel :: THREAD_MODEL
  gi_broadcast_rollbacks :: TM_BROADCAST_ROLLBACKS
  gi_earlyCommitReply :: bool
  gi_TSE_xa_start :: bool
  gi_RMPartic :: bool
  gi_timeout :: int
  gi_trans_hung_retry_interval :: int
  gi_tx_count :: int
  gi_commit_count :: int
  gi_abort_count :: int
  gi_current_tx_count :: int
  gi_perf_tm_initiated_aborts :: int
  gi_perf_tx_hung_count :: int
  gi_tx_hung_count :: int
  gi_txdisassociatedQ :: "int tm_deque"

section \<open>Actions, environment and world\<close>

datatype xa_entry = XA_START | XA_END | XA_PREPARE | XA_COMMIT | XA_ROLLBACK | XA_FORGET | XA_CLOSE

datatype hbase_call =
    HB_beginTransaction | HB_prepareCommit | HB_doCommit | HB_abortTransaction
  | HB_completeRequest | HB_registerRegion | HB_participatingRegions | HB_failedRegions
  | HB_unresolvedRegions | HB_shutdown

datatype TM_SYNC_TYPE = TM_BEGIN_SYNC | TM_END_SYNC | TM_FORGET_SYNC

datatype tm_act =
    Act_audit TM_TX_STATE int
  | Act_xa xa_entry int int
  | Act_response xa_entry int int
  | Act_hbase hbase_call int
  | Act_reply int int
  | Act_sync TM_SYNC_TYPE TM_TX_STATE
  | Act_timer TM_MSG_TYPE int
  | Act_timer_cancel

text \<open>A reply to an XA request: rmid, XA error, and the participation flag of a prepare reply.\<close>

record rm_reply =
  rp_rmid :: int
  rp_error :: int
  rp_partic :: bool

record tm_env =
  env_xa :: "nat \<Rightarrow> xa_entry \<Rightarrow> int \<Rightarrow> int"
  env_replies :: "nat \<Rightarrow> xa_entry \<Rightarrow> rm_reply list"
  env_late_ax_reg :: "nat \<Rightarrow> int list"
  env_hbase :: "nat \<Rightarrow> hbase_call \<Rightarrow> int"
  env_hbase_transid :: "nat \<Rightarrow> int \<Rightarrow> int"
  env_rmType_TSE :: "int \<Rightarrow> bool"
  env_process_name :: "int \<Rightarrow> int \<Rightarrow> string option"
  env_new_thread :: "nat \<Rightarrow> bool"
  env_thread_event :: "nat \<Rightarrow> bool"

record tm_world =
  w_tx :: tx
  w_tse :: tse_table
  w_gtse :: tse_table
  w_info :: tm_info
  w_heap :: "nat \<Rightarrow> tx_msg option"
  w_next :: nat
  w_clock :: nat
  w_trace :: "tm_act list"

definition upd_tx :: "(tx \<Rightarrow> tx) \<Rightarrow> tm_world \<Rightarrow> tm_world" where
  "upd_tx f w = w\<lparr> w_tx := f (w_tx w) \<rparr>"

definition upd_tse :: "(tse_table \<Rightarrow> tse_table) \<Rightarrow> tm_world \<Rightarrow> tm_world" where
  "upd_tse f w = w\<lparr> w_tse := f (w_tse w) \<rparr>"

definition upd_info :: "(tm_info \<Rightarrow> tm_info) \<Rightarrow> tm_world \<Rightarrow> tm_world" where
  "upd_info f w = w\<lparr> w_info := f (w_info w) \<rparr>"

definition act :: "tm_act \<Rightarrow> tm_world \<Rightarrow> tm_world" where
  "act a w = w\<lparr> w_trace := w_trace w @ [a] \<rparr>"

definition tick :: "tm_world \<Rightarrow> tm_world" where
  "tick w = w\<lparr> w_clock := Suc (w_clock w) \<rparr>"

definition set_state :: "TM_TX_STATE \<Rightarrow> tm_world \<Rightarrow> tm_world" where
  "set_state s w = upd_tx (\<lambda>x. x\<lparr> tx_tx_state := s \<rparr>) w"

abbreviation tx_state :: "tm_world \<Rightarrow> TM_TX_STATE" where
  "tx_state w \<equiv> tx_tx_state (w_tx w)"

abbreviation sync_mode :: "tm_world \<Rightarrow> bool" where
  "sync_mode w \<equiv> gi_mode (w_info w) = TM_SYNC_MODE"

lemma upd_sel [simp]:
  "w_tx (upd_tx f w) = f (w_tx w)" "w_tse (upd_tx f w) = w_tse w" "w_gtse (upd_tx f w) = w_gtse w"
  "w_info (upd_tx f w) = w_info w" "w_heap (upd_tx f w) = w_heap w" "w_next (upd_tx f w) = w_next w"
  "w_clock (upd_tx f w) = w_clock w" "w_trace (upd_tx f w) = w_trace w"
  "w_tx (upd_tse g w) = w_tx w" "w_tse (upd_tse g w) = g (w_tse w)" "w_gtse (upd_tse g w) = w_gtse w"
  "w_info (upd_tse g w) = w_info w" "w_heap (upd_tse g w) = w_heap w" "w_next (upd_tse g w) = w_next w"
  "w_clock (upd_tse g w) = w_clock w" "w_trace (upd_tse g w) = w_trace w"
  "w_tx (upd_info h w) = w_tx w" "w_tse (upd_info h w) = w_tse w" "w_gtse (upd_info h w) = w_gtse w"
  "w_info (upd_info h w) = h (w_info w)" "w_heap (upd_info h w) = w_heap w" "w_next (upd_info h w) = w_next w"
  "w_clock (upd_info h w) = w_clock w" "w_trace (upd_info h w) = w_trace w"
  by (simp_all add: upd_tx_def upd_tse_def upd_info_def)

lemma act_sel [simp]:
  "w_tx (act a w) = w_tx w" "w_tse (act a w) = w_tse w" "w_gtse (act a w) = w_gtse w"
  "w_info (act a w) = w_info w" "w_heap (act a w) = w_heap w" "w_next (act a w) = w_next w"
  "w_clock (act a w) = w_clock w" "w_trace (act a w) = w_trace w @ [a]"
  "w_tx (tick w) = w_tx w" "w_tse (tick w) = w_tse w" "w_gtse (tick w) = w_gtse w"
  "w_info (tick w) = w_info w" "w_heap (tick w) = w_heap w" "w_next (tick w) = w_next w"
  "w_clock (tick w) = Suc (w_clock w)" "w_trace (tick w) = w_trace w"
  by (simp_all add: act_def tick_def)

lemma set_state_sel [simp]:
  "w_tx (set_state s w) = (w_tx w)\<lparr> tx_tx_state := s \<rparr>" "w_tse (set_state s w) = w_tse w"
  "w_gtse (set_state s w) = w_gtse w" "w_info (set_state s w) = w_info w"
  "w_heap (set_state s w) = w_heap w" "w_next (set_state s w) = w_next w"
  "w_clock (set_state s w) = w_clock w" "w_trace (set_state s w) = w_trace w"
  by (simp_all add: set_state_def)

section \<open>CTmTxMessage\<close>

text \<open>
  Operations on a message through a pointer.  Each of them is a crash when the object was
  deleted before: the destructor aborts on its second call, and any other
  access reads freed memory.
\<close>

definition msg_at :: "nat \<Rightarrow> tm_world \<Rightarrow> tx_msg option" where
  "msg_at h w = w_heap w h"

definition msg_update :: "nat \<Rightarrow> (tx_msg \<Rightarrow> tx_msg) \<Rightarrow> tm_world \<Rightarrow> tm_world option" where
  "msg_update h f w =
     (case w_heap w h of
        None \<Rightarrow> None
      | Some m \<Rightarrow> Some (w\<lparr> w_heap := (w_heap w)(h \<mapsto> f m) \<rparr>))"

definition msg_new :: "tx_msg \<Rightarrow> tm_world \<Rightarrow> nat \<times> tm_world" where
  "msg_new m w = (w_next w, w\<lparr> w_heap := (w_heap w)(w_next w \<mapsto> m), w_next := Suc (w_next w) \<rparr>)"

definition msg_delete :: "nat \<Rightarrow> tm_world \<Rightarrow> tm_world option" where
  "msg_delete h w =
     (case w_heap w h of None \<Rightarrow> None | Some m \<Rightarrow> Some (w\<lparr> w_heap := (w_heap w)(h := None) \<rparr>))"

definition msg_replyPending :: "nat \<Rightarrow> tm_world \<Rightarrow> bool option" where
  "msg_replyPending h w = map_option (\<lambda>m. ms_msgid m \<noteq> NULL_MSGID) (msg_at h w)"

definition msg_responseError :: "nat \<Rightarrow> int \<Rightarrow> tm_world \<Rightarrow> tm_world option" where
  "msg_responseError h err w = msg_update h (\<lambda>m. m\<lparr> ms_rspError := err \<rparr>) w"

text \<open>\<^verbatim>\<open>reply()\<close> does nothing but log when the message was already replied to.\<close>

definition msg_reply :: "nat \<Rightarrow> tm_world \<Rightarrow> tm_world option" where
  "msg_reply h w =
     (case w_heap w h of
        None \<Rightarrow> None
      | Some m \<Rightarrow>
          (if ms_msgid m = NULL_MSGID then Some w
           else Some (act (Act_reply (ms_msgid m) (ms_rspError m))
                        (w\<lparr> w_heap := (w_heap w)(h \<mapsto> m\<lparr> ms_msgid := NULL_MSGID \<rparr>) \<rparr>))))"

definition msg_reply_error :: "nat \<Rightarrow> int \<Rightarrow> tm_world \<Rightarrow> tm_world option" where
  "msg_reply_error h err w = do { w \<leftarrow> msg_responseError h err w; msg_reply h w }"

text \<open>The idiom \<^verbatim>\<open>if (pp_msg->replyPending()) pp_msg->reply(error)\<close>.\<close>

definition msg_reply_if_pending :: "nat \<Rightarrow> int \<Rightarrow> tm_world \<Rightarrow> tm_world option" where
  "msg_reply_if_pending h err w =
     do { p \<leftarrow> msg_replyPending h w; if p then msg_reply_error h err w else Some w }"

section \<open>TM_Info\<close>

text \<open>
  \<^verbatim>\<open>write_trans_state\<close>: no record for a transaction whose type flags say read-only, nor
  for the state NOTX.
\<close>

definition write_trans_state :: "TM_TX_STATE \<Rightarrow> int \<Rightarrow> tm_world \<Rightarrow> tm_world" where
  "write_trans_state s flags w =
     (if tx_TT_flags (w_tx w) AND TM_TT_READ_ONLY = TM_TT_READ_ONLY then w
      else if s \<noteq> NOTX then act (Act_audit s flags) w
      else w)"

definition inc_tm_initiated_aborts :: "tm_world \<Rightarrow> tm_world" where
  "inc_tm_initiated_aborts w =
     upd_info (\<lambda>g. g\<lparr> gi_perf_tm_initiated_aborts := gi_perf_tm_initiated_aborts g + 1 \<rparr>) w"

definition inc_tx_hung_count :: "tm_world \<Rightarrow> tm_world" where
  "inc_tx_hung_count w =
     upd_info (\<lambda>g. g\<lparr> gi_perf_tx_hung_count := gi_perf_tx_hung_count g + 1,
                      gi_tx_hung_count := gi_tx_hung_count g + 1 \<rparr>) w"

definition dec_tx_hung_count :: "tm_world \<Rightarrow> tm_world" where
  "dec_tx_hung_count w = upd_info (\<lambda>g. g\<lparr> gi_tx_hung_count := gi_tx_hung_count g - 1 \<rparr>) w"

definition send_begin_tx :: "tm_world \<Rightarrow> tm_world" where
  "send_begin_tx w = upd_info (\<lambda>g. g\<lparr> gi_tx_count := gi_tx_count g + 1,
                      gi_current_tx_count := gi_current_tx_count g + 1 \<rparr>) w"

definition send_commit_tx :: "tm_world \<Rightarrow> tm_world" where
  "send_commit_tx w = upd_info (\<lambda>g. g\<lparr> gi_commit_count := gi_commit_count g + 1,
                      gi_current_tx_count := gi_current_tx_count g - 1 \<rparr>) w"

definition send_abort_tx :: "tm_world \<Rightarrow> tm_world" where
  "send_abort_tx w = upd_info (\<lambda>g. g\<lparr> gi_abort_count := gi_abort_count g + 1,
                      gi_current_tx_count := gi_current_tx_count g - 1 \<rparr>) w"

section \<open>Frames\<close>

text \<open>The actions an operation has appended to the trace all satisfy a predicate.\<close>

definition trace_ext :: "(tm_act \<Rightarrow> bool) \<Rightarrow> tm_world \<Rightarrow> tm_world \<Rightarrow> bool" where
  "trace_ext P w w' = (\<exists>as. w_trace w' = w_trace w @ as \<and> list_all P as)"

lemma trace_ext_refl [simp, intro]: "trace_ext P w w"
  by (simp add: trace_ext_def)

lemma trace_ext_trans [trans]:
  assumes "trace_ext P u v" and "trace_ext P v w" shows "trace_ext P u w"
  using assms by (auto simp: trace_ext_def)

lemma trace_ext_mono: "trace_ext P w w' \<Longrightarrow> (\<And>a. P a \<Longrightarrow> Q a) \<Longrightarrow> trace_ext Q w w'"
  by (auto simp: trace_ext_def list_all_iff)

lemma trace_ext_same: "w_trace v' = w_trace v \<Longrightarrow> trace_ext P w v' = trace_ext P w v"
  by (simp add: trace_ext_def)

lemma trace_ext_upd [simp]:
  "trace_ext P w (upd_tx f v) = trace_ext P w v" "trace_ext P w (upd_tse g v) = trace_ext P w v"
  "trace_ext P w (upd_info k v) = trace_ext P w v" "trace_ext P w (tick v) = trace_ext P w v"
  "trace_ext P w (set_state s v) = trace_ext P w v"
  "trace_ext P (upd_tx f v) w = trace_ext P v w" "trace_ext P (upd_tse g v) w = trace_ext P v w"
  "trace_ext P (upd_info k v) w = trace_ext P v w" "trace_ext P (tick v) w = trace_ext P v w"
  "trace_ext P (set_state s v) w = trace_ext P v w"
  by (simp_all add: trace_ext_def)

lemma trace_extE:
  "trace_ext P w w' \<Longrightarrow> (\<And>as. w_trace w' = w_trace w @ as \<Longrightarrow> list_all P as \<Longrightarrow> thesis) \<Longrightarrow> thesis"
  by (auto simp: trace_ext_def)

lemma trace_ext_act: "P a \<Longrightarrow> trace_ext P w v \<Longrightarrow> trace_ext P w (act a v)"
  by (auto simp: trace_ext_def)

lemma trace_ext_append:
  "w_trace w' = w_trace w @ as \<Longrightarrow> trace_ext P w w' \<longleftrightarrow> list_all P as"
  by (auto simp: trace_ext_def)

text \<open>
  What most operations leave alone: the transaction object and the globals; a broadcast
  leaves the messages alone as well.
\<close>

definition quiet :: "(tm_act \<Rightarrow> bool) \<Rightarrow> tm_world \<Rightarrow> tm_world \<Rightarrow> bool" where
  "quiet P w w' = (trace_ext P w w' \<and> w_tx w' = w_tx w \<and> w_info w' = w_info w)"

lemma quiet_refl [simp, intro]: "quiet P w w"
  by (simp add: quiet_def)

lemma quiet_trans [trans]: "quiet P u v \<Longrightarrow> quiet P v w \<Longrightarrow> quiet P u w"
  by (auto simp: quiet_def intro: trace_ext_trans)

lemma quiet_mono: "quiet P w w' \<Longrightarrow> (\<And>a. P a \<Longrightarrow> Q a) \<Longrightarrow> quiet Q w w'"
  by (auto simp: quiet_def elim: trace_ext_mono)

definition bcast :: "(tm_act \<Rightarrow> bool) \<Rightarrow> tm_world \<Rightarrow> tm_world \<Rightarrow> bool" where
  "bcast P w w' = (quiet P w w' \<and> w_heap w' = w_heap w)"

lemma bcast_quiet: "bcast P w w' \<Longrightarrow> quiet P w w'"
  by (simp add: bcast_def)

lemma bcast_refl [simp, intro]: "bcast P w w"
  by (simp add: bcast_def)

lemma bcast_trans [trans]: "bcast P u v \<Longrightarrow> bcast P v w \<Longrightarrow> bcast P u w"
  by (auto simp: bcast_def intro: quiet_trans)

lemma bcast_mono: "bcast P w w' \<Longrightarrow> (\<And>a. P a \<Longrightarrow> Q a) \<Longrightarrow> bcast Q w w'"
  by (auto simp: bcast_def elim: quiet_mono)

lemma bcast_upd [simp]:
  "bcast P w (upd_tse g v) = bcast P w v" "bcast P w (tick v) = bcast P w v"
  "bcast P (upd_tse g v) w = bcast P v w" "bcast P (tick v) w = bcast P v w"
  by (simp_all add: bcast_def quiet_def trace_ext_def)

lemma bcast_act: "P a \<Longrightarrow> bcast P w v \<Longrightarrow> bcast P w (act a v)"
  by (auto simp: bcast_def quiet_def intro: trace_ext_act)

text \<open>The actions of one XA broadcast.\<close>

fun xa_of :: "xa_entry \<Rightarrow> tm_act \<Rightarrow> bool" where
  "xa_of entry (Act_xa en _ _) = (en = entry)"
| "xa_of entry (Act_response en _ _) = (en = entry)"
| "xa_of entry _ = False"

text \<open>A message that lives on under the same message id.\<close>

definition msg_kept :: "nat \<Rightarrow> tm_world \<Rightarrow> tm_world \<Rightarrow> bool" where
  "msg_kept h w w' = (\<forall>m. w_heap w h = Some m \<longrightarrow> (\<exists>m'. w_heap w' h = Some m' \<and> ms_msgid m' = ms_msgid m))"

lemma msg_kept_refl: "w_heap w' = w_heap w \<Longrightarrow> msg_kept h w w'"
  by (simp add: msg_kept_def)

lemma msg_kept_trans: "msg_kept h u v \<Longrightarrow> msg_kept h v w \<Longrightarrow> msg_kept h u w"
  by (force simp: msg_kept_def)

lemma msg_responseError_kept: "msg_responseError h err w = Some w' \<Longrightarrow> msg_kept h w w'"
  by (auto simp: msg_responseError_def msg_update_def msg_kept_def split: option.splits)

text \<open>The replies among the actions.\<close>

lemma msg_update_trace: "msg_update h f w = Some w' \<Longrightarrow> w_trace w' = w_trace w"
  by (auto simp: msg_update_def split: option.splits)

lemma msg_delete_trace: "msg_delete h w = Some w' \<Longrightarrow> w_trace w' = w_trace w"
  by (auto simp: msg_delete_def split: option.splits)

definition reply_of :: "(int \<Rightarrow> bool) \<Rightarrow> tm_act \<Rightarrow> bool" where
  "reply_of E a = (\<exists>i err. a = Act_reply i err \<and> E err)"

lemma msg_reply_error_trace:
  "msg_reply_error h err w = Some w' \<Longrightarrow> trace_ext (reply_of (\<lambda>x. x = err)) w w'"
  by (auto simp: msg_reply_error_def msg_responseError_def msg_update_def msg_reply_def bind_Some_iff trace_ext_def
      reply_of_def act_def split: option.splits if_splits)

lemma msg_reply_if_pending_trace:
  "msg_reply_if_pending h err w = Some w' \<Longrightarrow> trace_ext (reply_of (\<lambda>x. x = err)) w w'"
  by (auto simp: msg_reply_if_pending_def bind_Some_iff split: if_splits dest: msg_reply_error_trace)

lemma msg_reply_quiet: "msg_reply h w = Some w' \<Longrightarrow> quiet (\<lambda>a. \<exists>id err. a = Act_reply id err) w w'"
  by (auto simp: msg_reply_def quiet_def trace_ext_def act_def split: option.splits if_splits)

definition replied :: "nat \<Rightarrow> tm_world \<Rightarrow> bool" where
  "replied h w = (\<exists>m. w_heap w h = Some m \<and> ms_msgid m = NULL_MSGID)"

lemma msg_reply_if_pending_replied:
  assumes "msg_reply_if_pending h err w = Some w'"
  shows "replied h w'"
proof -
  from assms obtain m where m: "w_heap w h = Some m"
    by (auto simp: msg_reply_if_pending_def msg_replyPending_def msg_at_def bind_Some_iff)
  show ?thesis
  proof (cases "ms_msgid m = NULL_MSGID")
    case True
    with m assms show ?thesis by (auto simp: msg_reply_if_pending_def msg_replyPending_def msg_at_def replied_def)
  next
    case False
    with m assms show ?thesis
      by (auto simp: msg_reply_if_pending_def msg_replyPending_def msg_at_def replied_def msg_reply_error_def
          msg_responseError_def msg_update_def msg_reply_def act_def)
  qed
qed

end
