(* ===== verification/Tm_Samples.thy ===== *)
theory Tm_Samples
  imports Tm_World
begin

text \<open>
  A small concrete system on which the theorems are exercised: two TSE resource managers with
  the rmids 11 and 12, an HBase library with given answers, and one transaction with a
  pending request.
\<close>

definition sample_info :: tm_info where
  "sample_info =
     \<lparr> gi_nid = 0, gi_pid = 100, gi_lead_tm_nid = 0, gi_incarnation_num = 1, gi_mode = TM_NONSYNC_MODE,
       gi_threadModel = TH_WORKER, gi_broadcast_rollbacks = BROADCAST_ROLLBACKS_NO,
       gi_earlyCommitReply = True, gi_TSE_xa_start = False, gi_RMPartic = False, gi_timeout = 300,
       gi_trans_hung_retry_interval = 20000, gi_tx_count = 0, gi_commit_count = 0, gi_abort_count = 0,
       gi_current_tx_count = 0, gi_perf_tm_initiated_aborts = 0, gi_perf_tx_hung_count = 0,
       gi_tx_hung_count = 0, gi_txdisassociatedQ = deque_new \<rparr>"

text \<open>The answers of HBase to prepare and commit, and the votes of the two resource managers.\<close>

definition sample_env :: "int \<Rightarrow> int \<Rightarrow> int \<Rightarrow> int \<Rightarrow> tm_env" where
  "sample_env prep com v1 v2 =
     \<lparr> env_xa = \<lambda>_ _ _. XA_OK,
       env_replies = (\<lambda>_ entry.
         if entry = XA_PREPARE
         then [\<lparr> rp_rmid = 11, rp_error = v1, rp_partic = True \<rparr>, \<lparr> rp_rmid = 12, rp_error = v2, rp_partic = True \<rparr>]
         else [\<lparr> rp_rmid = 11, rp_error = XA_OK, rp_partic = True \<rparr>, \<lparr> rp_rmid = 12, rp_error = XA_OK, rp_partic = True \<rparr>]),
       env_late_ax_reg = \<lambda>_. [],
       env_hbase = (\<lambda>_ call. case call of
           HB_prepareCommit \<Rightarrow> prep | HB_doCommit \<Rightarrow> com | HB_participatingRegions \<Rightarrow> 1 | _ \<Rightarrow> 0),
       env_hbase_transid = \<lambda>_ tid. tid, env_rmType_TSE = \<lambda>_. True,
       env_process_name = \<lambda>_ _. None, env_new_thread = \<lambda>_. True, env_thread_event = \<lambda>_. False \<rparr>"

text \<open>A global table with two resource managers, and the table of a transaction with both, or none.\<close>

definition sample_rms :: tse_table where
  "sample_rms =
     snd (tse_init 502 0 ''TSE1'' 12 False TSEBranch_UP
           (snd (tse_init 501 0 ''TSE0'' 11 False TSEBranch_UP (tse_new 3))))"

definition sample_tx :: tx where
  "sample_tx =
     (tx_new 0)\<lparr> tx_in_use := True, tx_tx_state := ACTIVE, tx_tag := 5, tx_ender_pid := 7,
                  tx_transid := txid_zero\<lparr> txid_seq_num := 5 \<rparr>,
                  tx_num_active_partic := 1, tx_Thread := True \<rparr>"

definition sample_world :: "bool \<Rightarrow> TM_MSG_TYPE \<Rightarrow> tm_world" where
  "sample_world partic ty =
     \<lparr> w_tx = sample_tx, w_tse = tse_init_rms (tx_transid sample_tx) partic sample_rms (tse_new 3),
       w_gtse = sample_rms, w_info = sample_info,
       w_heap = Map.empty(0 \<mapsto> (msg_internal ty)\<lparr> ms_msgid := 55, ms_pid := 7 \<rparr>),
       w_next = 1, w_clock = 0, w_trace = [] \<rparr>"

end
