(* ===== verification/Tm_TseXa.thy ===== *)
theory Tm_TseXa
  imports Tm_Samples
begin

text \<open>
  The XA broadcasts of \<^verbatim>\<open>RM_Info_TSE\<close> (\<^verbatim>\<open>tmrmtse.cpp\<close>): sending \<^verbatim>\<open>xa_start\<close>, \<^verbatim>\<open>xa_end\<close>,
  \<^verbatim>\<open>xa_prepare\<close>, \<^verbatim>\<open>xa_commit\<close>, \<^verbatim>\<open>xa_rollback\<close> and \<^verbatim>\<open>xa_forget\<close> to the participants of a
  transaction and evaluating their replies.  Each routine is its send loop, the
  wait for the replies (\<^verbatim>\<open>complete_all\<close> of \<^verbatim>\<open>xatmapi.cpp\<close>) and its completion loop.
  A loop carries the variables \<^verbatim>\<open>lv_count\<close> and \<^verbatim>\<open>lv_TRerror\<close> of the source.

  While the passes of a prepare or rollback run, the main thread may accept
  registrations (\<^verbatim>\<open>ax_reg\<close>) of further branches; they arrive between two passes.
\<close>

section \<open>Sending and waiting\<close>

text \<open>\<^verbatim>\<open>xa_send\<close>: one call of an entry of the XA switch.\<close>

definition xa_send :: "tm_env \<Rightarrow> xa_entry \<Rightarrow> int \<Rightarrow> tm_world \<Rightarrow> int \<times> tm_world" where
  "xa_send e entry rmid w =
     (let rc = env_xa e (w_clock w) entry rmid in (rc, tick (act (Act_xa entry rmid rc) w)))"

text \<open>
  \<^verbatim>\<open>complete_all\<close> collects replies until all \<^verbatim>\<open>pv_num\<close> have arrived or the wait times out,
  and returns how many are missing.  The response array was cleared before, so an
  entry without a reply has rmid 0 and no error.  A participation flag of 0 in a
  prepare reply without an error is turned into \<^const>\<open>XA_RDONLY\<close>.
\<close>

definition reply_error :: "xa_entry \<Rightarrow> rm_reply \<Rightarrow> int" where
  "reply_error entry r =
     (if entry = XA_PREPARE \<and> \<not> rp_partic r \<and> rp_error r = XA_OK then XA_RDONLY else rp_error r)"

definition MAX_OPEN_RMS :: nat where
  "MAX_OPEN_RMS = 1025"

definition complete_all ::
  "tm_env \<Rightarrow> xa_entry \<Rightarrow> nat \<Rightarrow> tm_world \<Rightarrow> ((int \<times> (int \<times> int) list) \<times> tm_world) option" where
  "complete_all e entry num w =
     (if num \<ge> MAX_OPEN_RMS then None
      else let got = map (\<lambda>r. (rp_rmid r, reply_error entry r)) (take num (env_replies e (w_clock w) entry));
               resp = got @ replicate (num - length got) (0, XA_OK)
           in Some ((int num - int (length got), resp),
                    tick (w\<lparr> w_trace := w_trace w @ map (\<lambda>p. Act_response entry (fst p) (snd p)) got \<rparr>)))"

text \<open>
  The treatment of a failed send, which all broadcasts share: an invalid argument is a
  programming error, a failed resource manager is marked.
\<close>

definition send_failed :: "int \<Rightarrow> int \<Rightarrow> tm_world \<Rightarrow> tm_world option" where
  "send_failed err rmid w =
     (if err = XAER_INVAL then None
      else if err = XAER_RMFAIL then Some (upd_tse (tse_fail_rm rmid) w)
      else Some w)"

definition branch_at :: "nat \<Rightarrow> tm_world \<Rightarrow> tse_branch" where
  "branch_at i w = ts_branches (w_tse w) ! i"

definition upd_branch :: "nat \<Rightarrow> (tse_branch \<Rightarrow> tse_branch) \<Rightarrow> tm_world \<Rightarrow> tm_world" where
  "upd_branch i f w = upd_tse (ts_update i f) w"

text \<open>
  The send loop over the slots up to the highest one used.  \<open>sel\<close> is the condition
  under which a slot is sent to, \<open>ok\<close> the return codes that count as sent, \<open>sent\<close>
  and \<open>failed\<close> what happens to the slot then.
\<close>

fun send_loop ::
  "tm_env \<Rightarrow> xa_entry \<Rightarrow> (tse_branch \<Rightarrow> bool) \<Rightarrow> (int \<Rightarrow> bool) \<Rightarrow> (tse_branch \<Rightarrow> tse_branch)
   \<Rightarrow> (int \<Rightarrow> tse_branch \<Rightarrow> tse_branch) \<Rightarrow> nat list \<Rightarrow> nat \<Rightarrow> int \<Rightarrow> tm_world
   \<Rightarrow> ((nat \<times> int) \<times> tm_world) option" where
  "send_loop e entry sel ok sent failed [] count tr w = Some ((count, tr), w)"
| "send_loop e entry sel ok sent failed (i # is) count tr w =
     (if sel (branch_at i w)
      then let (rc, w1) = xa_send e entry (br_rmid (branch_at i w)) w
           in if ok rc
              then send_loop e entry sel ok sent failed is (Suc count) tr (upd_branch i sent w1)
              else do { w2 \<leftarrow> send_failed rc (br_rmid (branch_at i w)) w1;
                        send_loop e entry sel ok sent failed is count rc (upd_branch i (failed rc) w2) }
      else send_loop e entry sel ok sent failed is count tr w)"

definition slot_range :: "tm_world \<Rightarrow> nat list" where
  "slot_range w = [0..<Suc (ts_high_index_used (w_tse w))]"

definition is_member :: "tse_branch \<Rightarrow> bool" where
  "is_member b = (br_partic b \<and> br_in_use b)"

text \<open>The slot of the transaction table a response belongs to; a crash when there is none.\<close>

definition resp_slot :: "int \<Rightarrow> tm_world \<Rightarrow> nat option" where
  "resp_slot rmid w = tse_return_slot rmid (w_tse w)"

text \<open>
  After a response without an error one branch less is left to recover for the
  resource manager in the global table.
\<close>

definition glob_dec_left :: "int \<Rightarrow> int \<Rightarrow> tm_world \<Rightarrow> tm_world option" where
  "glob_dec_left err rmid w =
     (if err \<ge> 0
      then do { i \<leftarrow> tse_return_slot rmid (w_gtse w);
                Some (w\<lparr> w_gtse := ts_update i branch_dec_totalBranchesLeftToRecover (w_gtse w) \<rparr>) }
      else Some w)"

section \<open>Prepare\<close>

definition XA_RB_range :: "int \<Rightarrow> bool" where
  "XA_RB_range err = (100 \<le> err \<and> err \<le> 107)"

text \<open>One iteration of the completion loop of \<^verbatim>\<open>prepare_branches_single_pass\<close>.\<close>

definition prepare_response :: "int \<Rightarrow> int \<Rightarrow> int \<Rightarrow> tm_world \<Rightarrow> (int \<times> tm_world) option" where
  "prepare_response rmid err tr w =
     do { i \<leftarrow> resp_slot rmid w;
          let rm = br_rmid (branch_at i w);
          let resolved = upd_branch i (\<lambda>b. b\<lparr> br_resolved := True \<rparr>);
          if XA_RB_range err then Some (err, resolved w)
          else if err = XA_OK then
            (let w1 = resolved w;
                 w2 = (if tx_TT_flags (w_tx w1) AND TM_TT_READ_ONLY = TM_TT_READ_ONLY
                       then upd_tx (\<lambda>x. x\<lparr> tx_mark_for_rollback := True \<rparr>) w1 else w1)
             in Some (tr, upd_tx (\<lambda>x. x\<lparr> tx_read_only := False \<rparr>) w2))
          else if err = XA_RDONLY \<or> err = XAER_NOTA then
            Some (tr, upd_tse (tse_remove_rm_by_rmid rm) (resolved w))
          else if err = XAER_RMFAIL then Some (err, upd_tse (tse_fail_rm rm) w)
          else Some (err, resolved w) }"

fun prepare_completions :: "(int \<times> int) list \<Rightarrow> int \<Rightarrow> tm_world \<Rightarrow> (int \<times> tm_world) option" where
  "prepare_completions [] tr w = Some (tr, w)"
| "prepare_completions ((rmid, err) # rs) tr w =
     do { (tr', w') \<leftarrow> prepare_response rmid err tr w; prepare_completions rs tr' w' }"

text \<open>
  The completion loop runs whether or not replies are missing: only the assignment
  of \<^verbatim>\<open>read_only\<close> belongs to the \<^verbatim>\<open>else\<close> of the source.
\<close>

definition prepare_branches_single_pass :: "tm_env \<Rightarrow> tm_world \<Rightarrow> (int \<times> tm_world) option" where
  "prepare_branches_single_pass e w =
     do { ((count, tr), w1) \<leftarrow> send_loop e XA_PREPARE is_member (\<lambda>rc. rc = XA_OK) id (\<lambda>rc. id)
                                   (slot_range w) 0 XA_OK w;
          ((outstanding, resp), w2) \<leftarrow> complete_all e XA_PREPARE count w1;
          if outstanding > 0 then prepare_completions resp XAER_RMFAIL w2
          else prepare_completions resp tr (upd_tx (\<lambda>x. x\<lparr> tx_read_only := True \<rparr>) w2) }"

text \<open>
  Late registrations: the part of \<^verbatim>\<open>register_branch\<close> that adds a branch which is not
  yet participating.
\<close>

definition tse_register :: "txid \<Rightarrow> int \<Rightarrow> tse_table \<Rightarrow> bool \<times> tse_table" where
  "tse_register transid rmid t =
     (case tse_return_slot rmid t of
        None \<Rightarrow> (False, t)
      | Some i \<Rightarrow>
          (let (added, b) = branch_add_partic transid (ts_branches t ! i)
           in if added then (True, tse_inc_num_rm_partic (ts_update i (\<lambda>_. b) t)) else (False, t)))"

definition late_registrations :: "tm_env \<Rightarrow> tm_world \<Rightarrow> tm_world" where
  "late_registrations e w =
     tick (upd_tse (fold (\<lambda>rmid t. snd (tse_register (tx_transid (w_tx w)) rmid t))
                      (env_late_ax_reg e (w_clock w))) w)"

text \<open>
  The multi-pass loop of \<^verbatim>\<open>prepare_branches\<close>; the argument counts the iterations that
  are left before \<^const>\<open>TM_MULTIPASS_LOOP_THRESHOLD\<close> is exceeded.
\<close>

fun prepare_passes :: "tm_env \<Rightarrow> nat \<Rightarrow> int \<Rightarrow> tm_world \<Rightarrow> (int \<times> tm_world) option" where
  "prepare_passes e 0 err w =
     (let w1 = late_registrations e w
      in Some (if err = FEOK \<and> tse_num_rms_unresolved (w_tse w1) \<noteq> 0 then FETOOMANY else err, w1))"
| "prepare_passes e (Suc left) err w =
     (let w1 = late_registrations e w
      in if err = FEOK \<and> tse_num_rms_unresolved (w_tse w1) \<noteq> 0
         then do { (err', w2) \<leftarrow> prepare_branches_single_pass e w1; prepare_passes e left err' w2 }
         else Some (err, w1))"

definition tse_prepare_branches :: "tm_env \<Rightarrow> tm_world \<Rightarrow> (int \<times> tm_world) option" where
  "tse_prepare_branches e w =
     do { (err, w1) \<leftarrow> prepare_branches_single_pass e w;
          (err', w2) \<leftarrow> prepare_passes e 9 err w1;
          Some (err', upd_tse tse_reset_resolved w2) }"

section \<open>Rollback\<close>

definition broadcasting :: "tm_world \<Rightarrow> bool" where
  "broadcasting w = (gi_broadcast_rollbacks (w_info w) \<noteq> BROADCAST_ROLLBACKS_NO)"

definition is_heuristic :: "int \<Rightarrow> bool" where
  "is_heuristic err = (err = XA_HEURHAZ \<or> err = XA_HEURCOM \<or> err = XA_HEURRB \<or> err = XA_HEURMIX)"

text \<open>The rollback codes the switches name; \<^const>\<open>XA_RBINTEGRITY\<close> is not among them.\<close>

definition is_rollback_code :: "int \<Rightarrow> bool" where
  "is_rollback_code err =
     (err = XA_RBROLLBACK \<or> err = XA_RBCOMMFAIL \<or> err = XA_RBDEADLOCK \<or> err = XA_RBOTHER
      \<or> err = XA_RBPROTO \<or> err = XA_RBTIMEOUT \<or> err = XA_RBTRANSIENT)"

text \<open>
  One iteration of the completion loop of \<^verbatim>\<open>rollback_branches_single_pass\<close>: the slot
  marked as resolved is the one with the index of the response, \<^verbatim>\<open>la_rms[lv_idx]\<close>.
\<close>

definition rollback_response :: "nat \<Rightarrow> int \<Rightarrow> int \<Rightarrow> int \<Rightarrow> tm_world \<Rightarrow> (int \<times> tm_world) option" where
  "rollback_response idx rmid err tr w =
     do { i \<leftarrow> resp_slot rmid w;
          let rm = br_rmid (branch_at i w);
          let resolved = upd_branch idx (\<lambda>b. b\<lparr> br_resolved := True \<rparr>);
          (tr', w') \<leftarrow>
            (if err = XA_OK then
               (if broadcasting w \<and> \<not> br_partic (branch_at i w)
                   \<and> gi_broadcast_rollbacks (w_info w) = BROADCAST_ROLLBACKS_DEBUG
                then None else Some (tr, resolved w))
             else if err = XAER_NOTA then Some (tr, resolved (upd_tse (tse_remove_rm_by_rmid rm) w))
             else if is_rollback_code err then Some (tr, resolved w)
             else if err = XAER_RMFAIL then
               Some (if tr = XA_OK then err else tr, upd_tse (tse_fail_rm rm) w)
             else if is_heuristic err then Some (err, resolved w)
             else Some (err, resolved w));
          w'' \<leftarrow> glob_dec_left err rmid w';
          Some (tr', w'') }"

fun rollback_completions :: "nat \<Rightarrow> (int \<times> int) list \<Rightarrow> int \<Rightarrow> tm_world \<Rightarrow> (int \<times> tm_world) option" where
  "rollback_completions idx [] tr w = Some (tr, w)"
| "rollback_completions idx ((rmid, err) # rs) tr w =
     do { (tr', w') \<leftarrow> rollback_response idx rmid err tr w; rollback_completions (Suc idx) rs tr' w' }"

definition rollback_branches_single_pass ::
  "tm_env \<Rightarrow> nat \<Rightarrow> bool \<Rightarrow> tm_world \<Rightarrow> (int \<times> tm_world) option" where
  "rollback_branches_single_pass e msg error_condition w =
     do { ((count, tr), w1) \<leftarrow>
            send_loop e XA_ROLLBACK (\<lambda>b. is_member b \<or> (broadcasting w \<and> br_in_use b))
              (\<lambda>rc. rc = XA_OK \<or> rc = XAER_NOTA) (\<lambda>b. b\<lparr> br_resolved := True \<rparr>) (\<lambda>rc. id)
              (slot_range w) 0 XA_OK w;
          w2 \<leftarrow> (if error_condition then Some w1 else msg_responseError msg FEOK w1);
          ((outstanding, resp), w3) \<leftarrow> complete_all e XA_ROLLBACK count w2;
          if outstanding > 0 then Some (XAER_RMFAIL, w3) else rollback_completions 0 resp tr w3 }"

fun rollback_passes :: "tm_env \<Rightarrow> nat \<Rightarrow> bool \<Rightarrow> nat \<Rightarrow> int \<Rightarrow> tm_world \<Rightarrow> (int \<times> tm_world) option" where
  "rollback_passes e msg error_condition 0 err w =
     (let w1 = late_registrations e w
      in Some (if \<not> broadcasting w1 \<and> err = FEOK \<and> tse_num_rms_unresolved (w_tse w1) \<noteq> 0
               then FETOOMANY else err, w1))"
| "rollback_passes e msg error_condition (Suc left) err w =
     (let w1 = late_registrations e w
      in if \<not> broadcasting w1 \<and> err = FEOK \<and> tse_num_rms_unresolved (w_tse w1) \<noteq> 0
         then do { (err', w2) \<leftarrow> rollback_branches_single_pass e msg error_condition w1;
                   rollback_passes e msg error_condition left err' w2 }
         else Some (err, w1))"

definition tse_rollback_branches :: "tm_env \<Rightarrow> nat \<Rightarrow> bool \<Rightarrow> tm_world \<Rightarrow> (int \<times> tm_world) option" where
  "tse_rollback_branches e msg error_condition w =
     do { (err, w1) \<leftarrow> rollback_branches_single_pass e msg error_condition w;
          rollback_passes e msg error_condition 9 err w1 }"

section \<open>Commit\<close>

text \<open>
  One iteration of the completion loop of \<^verbatim>\<open>commit_branches\<close>.  A rollback code first sets
  \<^const>\<open>XA_HEURRB\<close> and then drops through to the assignment of the heuristic case.
\<close>

definition commit_response :: "int \<Rightarrow> int \<Rightarrow> int \<Rightarrow> tm_world \<Rightarrow> (int \<times> tm_world) option" where
  "commit_response rmid err tr w =
     do { i \<leftarrow> resp_slot rmid w;
          let rm = br_rmid (branch_at i w);
          let resolved = upd_branch i (\<lambda>b. b\<lparr> br_resolved := True \<rparr>);
          let (tr', w') =
            (if err = XA_OK then (tr, w)
             else if err = XAER_NOTA then (XA_OK, w)
             else if is_rollback_code err \<or> is_heuristic err then (err, resolved w)
             else if err = XAER_RMFAIL then (err, upd_tse (tse_fail_rm rm) w)
             else (err, resolved w));
          w'' \<leftarrow> glob_dec_left err rmid w';
          Some (tr', w'') }"

fun commit_completions :: "(int \<times> int) list \<Rightarrow> int \<Rightarrow> tm_world \<Rightarrow> (int \<times> tm_world) option" where
  "commit_completions [] tr w = Some (tr, w)"
| "commit_completions ((rmid, err) # rs) tr w =
     do { (tr', w') \<leftarrow> commit_response rmid err tr w; commit_completions rs tr' w' }"

definition tse_commit_branches :: "tm_env \<Rightarrow> nat \<Rightarrow> tm_world \<Rightarrow> (int \<times> tm_world) option" where
  "tse_commit_branches e msg w =
     do { ((count, tr), w1) \<leftarrow> send_loop e XA_COMMIT is_member (\<lambda>rc. rc = XA_OK) id (\<lambda>rc. id)
                                   (slot_range w) 0 XA_OK w;
          w2 \<leftarrow> msg_responseError msg (if tr = XA_OK then FEOK else FEDEVICEDOWNFORTMF) w1;
          ((outstanding, resp), w3) \<leftarrow> complete_all e XA_COMMIT count w2;
          if outstanding > 0 then Some (XAER_RMFAIL, w3) else commit_completions resp tr w3 }"

section \<open>End and forget\<close>

definition end_response :: "int \<Rightarrow> int \<Rightarrow> int \<Rightarrow> tm_world \<Rightarrow> (int \<times> tm_world) option" where
  "end_response rmid err tr w =
     (if err = XA_OK then Some (tr, w)
      else do { i \<leftarrow> resp_slot rmid w;
                let rm = br_rmid (branch_at i w);
                Some (err, if err \<le> 100 \<and> err = XAER_RMFAIL then upd_tse (tse_fail_rm rm) w else w) })"

fun end_completions :: "(int \<times> int) list \<Rightarrow> int \<Rightarrow> tm_world \<Rightarrow> (int \<times> tm_world) option" where
  "end_completions [] tr w = Some (tr, w)"
| "end_completions ((rmid, err) # rs) tr w =
     do { (tr', w') \<leftarrow> end_response rmid err tr w; end_completions rs tr' w' }"

text \<open>TSE resource managers are never sent \<^verbatim>\<open>xa_end\<close>.\<close>

definition tse_end_branches :: "tm_env \<Rightarrow> tm_world \<Rightarrow> (int \<times> tm_world) option" where
  "tse_end_branches e w =
     do { ((count, tr), w1) \<leftarrow>
            send_loop e XA_END (\<lambda>b. is_member b \<and> \<not> env_rmType_TSE e (br_rmid b)) (\<lambda>rc. rc = XA_OK) id
              (\<lambda>rc b. if rc = XAER_RMFAIL then b\<lparr> br_partic := False \<rparr> else b)
              (slot_range w) 0 XA_OK w;
          ((outstanding, resp), w2) \<leftarrow> complete_all e XA_END count w1;
          if outstanding > 0 then Some (XAER_RMFAIL, w2) else end_completions resp tr w2 }"

definition forget_response :: "int \<Rightarrow> int \<Rightarrow> int \<Rightarrow> tm_world \<Rightarrow> (int \<times> tm_world) option" where
  "forget_response rmid err tr w =
     (if err = XA_OK then Some (tr, w)
      else do { i \<leftarrow> resp_slot rmid w;
                let rm = br_rmid (branch_at i w);
                Some (err, if err = XAER_RMFAIL then upd_tse (tse_fail_rm rm) w else w) })"

fun forget_completions :: "(int \<times> int) list \<Rightarrow> int \<Rightarrow> tm_world \<Rightarrow> (int \<times> tm_world) option" where
  "forget_completions [] tr w = Some (tr, w)"
| "forget_completions ((rmid, err) # rs) tr w =
     do { (tr', w') \<leftarrow> forget_response rmid err tr w; forget_completions rs tr' w' }"

definition tse_forget_branches :: "tm_env \<Rightarrow> tm_world \<Rightarrow> (int \<times> tm_world) option" where
  "tse_forget_branches e w =
     do { ((count, tr), w1) \<leftarrow> send_loop e XA_FORGET is_member (\<lambda>rc. rc = XA_OK) id (\<lambda>rc. id)
                                   (slot_range w) 0 XA_OK w;
          ((outstanding, resp), w2) \<leftarrow> complete_all e XA_FORGET count w1;
          if outstanding > 0 then Some (XAER_RMFAIL, w2) else forget_completions resp tr w2 }"

text \<open>
  \<^verbatim>\<open>forget_heur_branches\<close>, which the three branch classes write in the same way around
  their own \<^verbatim>\<open>forget_branches\<close>.
\<close>

definition forget_heur_with ::
  "(tm_world \<Rightarrow> (int \<times> tm_world) option) \<Rightarrow> tm_world \<Rightarrow> (int \<times> tm_world) option" where
  "forget_heur_with forget w =
     (let w1 = upd_tx (\<lambda>x. x\<lparr> tx_wrote_trans_state := True \<rparr>)
                 (write_trans_state FORGOTTEN_HEUR (tx_abort_flags (w_tx w)) w)
      in if tx_state w1 \<noteq> FORGOTTEN_HEUR
         then do { (err, w2) \<leftarrow> forget w1;
                   if err = XA_OK then Some (err, set_state FORGOTTEN_HEUR w2) else None }
         else Some (FEOK, w1))"

definition tse_forget_heur_branches :: "tm_env \<Rightarrow> tm_world \<Rightarrow> (int \<times> tm_world) option" where
  "tse_forget_heur_branches e = forget_heur_with (tse_forget_branches e)"

section \<open>Start\<close>

text \<open>
  The send loop of \<^verbatim>\<open>start_branches\<close>, with its variable \<^verbatim>\<open>lv_replyError\<close>.  A slot whose rmid is
  unknown to the global table dereferences a null pointer.
\<close>

fun start_send_loop ::
  "tm_env \<Rightarrow> nat list \<Rightarrow> nat \<Rightarrow> int \<Rightarrow> int \<Rightarrow> tm_world \<Rightarrow> ((nat \<times> int \<times> int) \<times> tm_world) option" where
  "start_send_loop e [] count tr reply w = Some ((count, tr, reply), w)"
| "start_send_loop e (i # is) count tr reply w =
     do { g \<leftarrow> tse_return_slot (br_rmid (branch_at i w)) (w_gtse w);
          let b = branch_at i w;
          let down = (br_state (ts_branches (w_gtse w) ! g) \<noteq> TSEBranch_UP \<and> is_member b \<and> \<not> br_enlisted b);
          let tr1 = (if down then XAER_RMFAIL else tr);
          let reply1 = (if down then FEBEGINTRDISABLED else reply);
          if tr1 = XA_OK \<and> gi_TSE_xa_start (w_info w) \<and> is_member b
          then let (rc, w1) = xa_send e XA_START (br_rmid b) w
               in if rc = XA_OK then start_send_loop e is (Suc count) tr1 reply1 w1
                  else do { w2 \<leftarrow> send_failed rc (br_rmid b) w1;
                            start_send_loop e is count rc FEDEVICEDOWNFORTMF w2 }
          else start_send_loop e is count tr1 reply1 w }"

fun start_completions ::
  "(int \<times> int) list \<Rightarrow> bool \<Rightarrow> int \<Rightarrow> tm_world \<Rightarrow> ((bool \<times> int) \<times> tm_world) option" where
  "start_completions [] retry tr w = Some ((retry, tr), w)"
| "start_completions ((rmid, err) # rs) retry tr w =
     do { i \<leftarrow> resp_slot rmid w;
          if err = XA_OK
          then start_completions rs retry tr (upd_branch i (\<lambda>b. b\<lparr> br_enlisted := True \<rparr>) w)
          else if err = XA_RETRY
          then start_completions rs True err (upd_branch i (\<lambda>b. b\<lparr> br_enlisted := False \<rparr>) w)
          else if err = XAER_RMFAIL
          then start_completions rs retry err (upd_tse (tse_fail_rm (br_rmid (branch_at i w))) w)
          else start_completions rs retry err w }"

definition tse_start_branches :: "tm_env \<Rightarrow> nat \<Rightarrow> tm_world \<Rightarrow> (int \<times> tm_world) option" where
  "tse_start_branches e msg w =
     do { ((count, tr, reply), w1) \<leftarrow> start_send_loop e (slot_range w) 0 XA_OK FEOK w;
          w2 \<leftarrow> msg_reply_error msg reply w1;
          ((outstanding, resp), w3) \<leftarrow> complete_all e XA_START count w2;
          if outstanding > 0 then Some (XAER_RMFAIL, w3)
          else do { ((retry, tr'), w4) \<leftarrow> start_completions resp False tr w3;
                    Some (if retry then XA_RETRY else tr', w4) } }"

section \<open>Registration and shutdown\<close>

definition tse_registerRegion :: "tm_world \<Rightarrow> (int \<times> tm_world) option" where
  "tse_registerRegion w = Some (FEBADERR, w)"

fun close_loop :: "tm_env \<Rightarrow> tse_branch list \<Rightarrow> nat \<Rightarrow> int \<Rightarrow> tm_world \<Rightarrow> (nat \<times> int) \<times> tm_world" where
  "close_loop e [] count fatal w = ((count, fatal), w)"
| "close_loop e (b # bs) count fatal w =
     (if br_in_use b
      then let (rc, w1) = xa_send e XA_CLOSE (br_rmid b) w
           in if rc \<noteq> FEOK then close_loop e bs count rc w1 else close_loop e bs (Suc count) fatal w1
      else close_loop e bs count fatal w)"

definition tse_shutdown_branches :: "tm_env \<Rightarrow> tm_world \<Rightarrow> (int \<times> tm_world) option" where
  "tse_shutdown_branches e w =
     (let ((count, fatal), w1) = close_loop e (ts_branches (w_gtse w)) 0 FEOK w
      in do { ((outstanding, resp), w2) \<leftarrow> complete_all e XA_CLOSE count w1;
              Some (if outstanding > 0 then XAER_RMFAIL
                    else fold (\<lambda>p fatal. if snd p \<noteq> XA_OK then snd p else fatal) resp fatal, w2) })"

section \<open>What the broadcasts do\<close>

lemma upd_branch_bcast [simp]:
  "bcast P w (upd_branch i f v) = bcast P w v" "bcast P (upd_branch i f v) w = bcast P v w"
  by (simp_all add: upd_branch_def)

lemma xa_send_bcast: "xa_send e entry rmid w = (rc, w') \<Longrightarrow> bcast (xa_of entry) w w'"
  by (auto simp: xa_send_def Let_def intro!: bcast_act)

lemma send_failed_bcast: "send_failed err rmid w = Some w' \<Longrightarrow> bcast P w w'"
  by (auto simp: send_failed_def split: if_splits)

lemma send_loop_bcast:
  "send_loop e entry sel ok sent failed is count tr w = Some (r, w') \<Longrightarrow> bcast (xa_of entry) w w'"
proof (induction "is" arbitrary: count tr w)
  case (Cons i "is")
  obtain rc w1 where s: "xa_send e entry (br_rmid (branch_at i w)) w = (rc, w1)" by force
  note w1 = xa_send_bcast [OF s]
  consider (skip) "\<not> sel (branch_at i w)" | (sent) "sel (branch_at i w)" "ok rc" | (bad) "sel (branch_at i w)" "\<not> ok rc"
    by blast
  then show ?case
  proof cases
    case skip
    with Cons show ?thesis by simp
  next
    case sent
    with Cons.prems s
    have l: "send_loop e entry sel ok sent failed is (Suc count) tr (upd_branch i sent w1) = Some (r, w')" by simp
    have "bcast (xa_of entry) w (upd_branch i sent w1)" using w1 by simp
    from bcast_trans [OF this Cons.IH [OF l]] show ?thesis .
  next
    case bad
    with Cons.prems s obtain w2 where f: "send_failed rc (br_rmid (branch_at i w)) w1 = Some w2"
      and l: "send_loop e entry sel ok sent failed is count rc (upd_branch i (failed rc) w2) = Some (r, w')"
      by (auto simp: bind_Some_iff)
    have "bcast (xa_of entry) w (upd_branch i (failed rc) w2)"
      using bcast_trans [OF w1 send_failed_bcast [OF f]] by simp
    from bcast_trans [OF this Cons.IH [OF l]] show ?thesis .
  qed
qed simp

lemma complete_all_bcast:
  "complete_all e entry num w = Some (r, w') \<Longrightarrow> bcast (xa_of entry) w w'"
  by (auto simp: complete_all_def Let_def bcast_def quiet_def trace_ext_def tick_def list_all_iff split: if_splits)

lemma glob_dec_left_bcast: "glob_dec_left err rmid w = Some w' \<Longrightarrow> bcast P w w'"
  by (auto simp: glob_dec_left_def bind_Some_iff bcast_def quiet_def trace_ext_def split: if_splits)

lemma late_registrations_bcast [simp]: "bcast P w (late_registrations e v) = bcast P w v"
  by (simp add: late_registrations_def)

text \<open>
  The completion loops fold a response handler over the responses and carry \<^verbatim>\<open>lv_TRerror\<close>.
\<close>

locale completion_loop =
  fixes respond :: "int \<Rightarrow> int \<Rightarrow> int \<Rightarrow> tm_world \<Rightarrow> (int \<times> tm_world) option"
    and complete :: "(int \<times> int) list \<Rightarrow> int \<Rightarrow> tm_world \<Rightarrow> (int \<times> tm_world) option"
  assumes complete_Nil: "complete [] tr w = Some (tr, w)"
    and complete_Cons: "complete ((rmid, err) # rs) tr w = respond rmid err tr w \<bind> (\<lambda>(tr', w'). complete rs tr' w')"
begin

lemma complete_invariant:
  assumes step: "\<And>rmid err tr w tr' w'. respond rmid err tr w = Some (tr', w') \<Longrightarrow> R w w'"
    and refl: "\<And>w. R w w" and trans: "\<And>u v w. R u v \<Longrightarrow> R v w \<Longrightarrow> R u w"
    and run: "complete rs tr w = Some (tr', w')"
  shows "R w w'"
  using run
proof (induction rs arbitrary: tr w)
  case Nil
  then show ?case by (simp add: complete_Nil refl)
next
  case (Cons r rs)
  obtain rmid err where r: "r = (rmid, err)" by force
  from Cons.prems obtain t v where "respond rmid err tr w = Some (t, v)" "complete rs t v = Some (tr', w')"
    by (auto simp: r complete_Cons bind_Some_iff)
  then show ?case using trans [OF step Cons.IH] by blast
qed

lemma complete_sticky:
  assumes bad: "\<And>rmid err tr w tr' w'. respond rmid err tr w = Some (tr', w') \<Longrightarrow> tr' = tr \<or> B tr'"
    and set: "\<And>rmid err tr w tr' w'. respond rmid err tr w = Some (tr', w') \<Longrightarrow> B err \<Longrightarrow> B tr'"
    and run: "complete rs tr w = Some (tr', w')"
    and some: "B tr \<or> (\<exists>r \<in> set rs. B (snd r))"
  shows "B tr'"
  using run some
proof (induction rs arbitrary: tr w)
  case Nil
  then show ?case by (simp add: complete_Nil)
next
  case (Cons r rs)
  obtain rmid err where r: "r = (rmid, err)" by force
  from Cons.prems obtain t v where s: "respond rmid err tr w = Some (t, v)" and l: "complete rs t v = Some (tr', w')"
    by (auto simp: r complete_Cons bind_Some_iff)
  have "B t \<or> (\<exists>r \<in> set rs. B (snd r))"
    using Cons.prems(2) bad [OF s] set [OF s] by (auto simp: r)
  with Cons.IH [OF l] show ?case by blast
qed

lemma complete_keeps_error:
  assumes "\<And>rmid err tr w tr' w'. respond rmid err tr w = Some (tr', w') \<Longrightarrow> tr' = tr \<or> B tr'"
    and "complete rs tr w = Some (tr', w')"
  shows "tr' = tr \<or> B tr'"
  using assms(2)
proof (induction rs arbitrary: tr w)
  case Nil
  then show ?case by (simp add: complete_Nil)
next
  case (Cons r rs)
  obtain rmid err where r: "r = (rmid, err)" by force
  from Cons.prems obtain t v where s: "respond rmid err tr w = Some (t, v)" and l: "complete rs t v = Some (tr', w')"
    by (auto simp: r complete_Cons bind_Some_iff)
  from assms(1) [OF s] Cons.IH [OF l] show ?case by auto
qed

end

interpretation pc: completion_loop prepare_response prepare_completions by unfold_locales simp_all
interpretation cc: completion_loop commit_response commit_completions by unfold_locales simp_all
interpretation ec: completion_loop end_response end_completions by unfold_locales simp_all
interpretation fc: completion_loop forget_response forget_completions by unfold_locales simp_all

lemma commit_response_bcast: "commit_response rmid err tr w = Some (tr', w') \<Longrightarrow> bcast P w w'"
  by (auto simp: commit_response_def Let_def bind_Some_iff split: if_splits dest: glob_dec_left_bcast [of _ _ _ _ P])

lemma end_response_bcast: "end_response rmid err tr w = Some (tr', w') \<Longrightarrow> bcast P w w'"
  by (auto simp: end_response_def bind_Some_iff split: if_splits)

lemma forget_response_bcast: "forget_response rmid err tr w = Some (tr', w') \<Longrightarrow> bcast P w w'"
  by (auto simp: forget_response_def bind_Some_iff split: if_splits)


lemma commit_completions_bcast: "commit_completions rs tr w = Some (tr', w') \<Longrightarrow> bcast P w w'"
  by (rule cc.complete_invariant [of "bcast P", OF commit_response_bcast bcast_refl bcast_trans])

lemma end_completions_bcast: "end_completions rs tr w = Some (tr', w') \<Longrightarrow> bcast P w w'"
  by (rule ec.complete_invariant [of "bcast P", OF end_response_bcast bcast_refl bcast_trans])

lemma forget_completions_bcast: "forget_completions rs tr w = Some (tr', w') \<Longrightarrow> bcast P w w'"
  by (rule fc.complete_invariant [of "bcast P", OF forget_response_bcast bcast_refl bcast_trans])

lemma msg_responseError_quiet: "msg_responseError h err w = Some w' \<Longrightarrow> quiet P w w'"
  by (auto simp: msg_responseError_def msg_update_def quiet_def trace_ext_def split: option.splits)

lemma tse_commit_quiet:
  assumes "tse_commit_branches e msg w = Some (err, w')"
  shows "quiet (xa_of XA_COMMIT) w w'"
  using assms
  by (auto simp: tse_commit_branches_def bind_Some_iff split: if_splits
      dest!: send_loop_bcast complete_all_bcast commit_completions_bcast [where P = "xa_of XA_COMMIT"]
        msg_responseError_quiet [where P = "xa_of XA_COMMIT"] bcast_quiet
      intro: quiet_trans)

lemma tse_end_bcast: "tse_end_branches e w = Some (err, w') \<Longrightarrow> bcast (xa_of XA_END) w w'"
  by (auto simp: tse_end_branches_def bind_Some_iff split: if_splits
      dest!: send_loop_bcast complete_all_bcast end_completions_bcast [where P = "xa_of XA_END"]
      intro: bcast_trans)

lemma tse_forget_bcast: "tse_forget_branches e w = Some (err, w') \<Longrightarrow> bcast (xa_of XA_FORGET) w w'"
  by (auto simp: tse_forget_branches_def bind_Some_iff split: if_splits
      dest!: send_loop_bcast complete_all_bcast forget_completions_bcast [where P = "xa_of XA_FORGET"]
      intro: bcast_trans)

lemma rollback_response_bcast: "rollback_response idx rmid err tr w = Some (tr', w') \<Longrightarrow> bcast P w w'"
  by (auto simp: rollback_response_def Let_def bind_Some_iff split: if_splits dest!: glob_dec_left_bcast [of _ _ _ _ P])

lemma rollback_completions_bcast: "rollback_completions idx rs tr w = Some (tr', w') \<Longrightarrow> bcast P w w'"
proof (induction rs arbitrary: idx tr w)
  case (Cons r rs)
  obtain rmid err where r: "r = (rmid, err)" by force
  from Cons.prems obtain t v where "rollback_response idx rmid err tr w = Some (t, v)"
    and "rollback_completions (Suc idx) rs t v = Some (tr', w')"
    by (auto simp: r bind_Some_iff)
  then show ?case using bcast_trans [OF rollback_response_bcast Cons.IH] by blast
qed simp

text \<open>What a rollback leaves alone: with the error condition it does not touch the message.\<close>

definition rb_frame :: "nat \<Rightarrow> bool \<Rightarrow> tm_world \<Rightarrow> tm_world \<Rightarrow> bool" where
  "rb_frame msg ec w w' =
     (quiet (xa_of XA_ROLLBACK) w w' \<and> (ec \<longrightarrow> w_heap w' = w_heap w) \<and> msg_kept msg w w')"

lemma rb_frame_trans: "rb_frame msg ec u v \<Longrightarrow> rb_frame msg ec v w \<Longrightarrow> rb_frame msg ec u w"
  by (auto simp: rb_frame_def intro: quiet_trans msg_kept_trans)

lemma bcast_rb_frame: "bcast (xa_of XA_ROLLBACK) w w' \<Longrightarrow> rb_frame msg ec w w'"
  by (simp add: bcast_def rb_frame_def msg_kept_refl)

lemma rollback_pass_quiet:
  assumes "rollback_branches_single_pass e msg ec w = Some (err, w')"
  shows "rb_frame msg ec w w'"
proof -
  from assms obtain count tr w1 w2 o' resp w3 where
    s: "send_loop e XA_ROLLBACK (\<lambda>b. is_member b \<or> broadcasting w \<and> br_in_use b)
              (\<lambda>rc. rc = XA_OK \<or> rc = XAER_NOTA) (\<lambda>b. b\<lparr> br_resolved := True \<rparr>) (\<lambda>rc. id)
              (slot_range w) 0 XA_OK w = Some ((count, tr), w1)"
    and m: "(if ec then Some w1 else msg_responseError msg FEOK w1) = Some w2"
    and c: "complete_all e XA_ROLLBACK count w2 = Some ((o', resp), w3)"
    and r: "w' = w3 \<or> rollback_completions 0 resp tr w3 = Some (err, w')"
    by (cases ec) (auto simp: rollback_branches_single_pass_def bind_Some_iff split: if_splits)
  have "rb_frame msg ec w1 w2"
    using m by (auto simp: rb_frame_def msg_kept_refl split: if_splits
        dest: msg_responseError_quiet [where P = "xa_of XA_ROLLBACK"] msg_responseError_kept)
  moreover have "rb_frame msg ec w3 w'"
    using r rollback_completions_bcast by (auto intro: bcast_rb_frame)
  ultimately show ?thesis
    using bcast_rb_frame [OF send_loop_bcast [OF s]] bcast_rb_frame [OF complete_all_bcast [OF c]]
    by (meson rb_frame_trans)
qed

lemma rollback_passes_quiet:
  "rollback_passes e msg ec left err w = Some (err', w') \<Longrightarrow> rb_frame msg ec w w'"
proof (induction "left" arbitrary: err w)
  case 0
  then show ?case by (auto simp: Let_def bcast_rb_frame)
next
  case (Suc n)
  have late: "rb_frame msg ec w (late_registrations e w)" by (simp add: bcast_rb_frame)
  show ?case
  proof (cases "w' = late_registrations e w")
    case False
    with Suc.prems obtain e2 w2
      where p: "rollback_branches_single_pass e msg ec (late_registrations e w) = Some (e2, w2)"
      and q: "rollback_passes e msg ec n e2 w2 = Some (err', w')"
      by (auto simp: Let_def bind_Some_iff split: if_splits)
    from rb_frame_trans [OF late rb_frame_trans [OF rollback_pass_quiet [OF p] Suc.IH [OF q]]] show ?thesis .
  qed (use late in simp)
qed

lemma tse_rollback_quiet:
  assumes "tse_rollback_branches e msg ec w = Some (err, w')"
  shows "rb_frame msg ec w w'"
proof -
  from assms obtain e1 w1 where p: "rollback_branches_single_pass e msg ec w = Some (e1, w1)"
    and q: "rollback_passes e msg ec 9 e1 w1 = Some (err, w')"
    by (auto simp: tse_rollback_branches_def bind_Some_iff)
  from rb_frame_trans [OF rollback_pass_quiet [OF p] rollback_passes_quiet [OF q]] show ?thesis .
qed

section \<open>The vote\<close>

text \<open>
  A resource manager that answers a prepare with no error, as a read-only participant, or
  by not knowing the transaction does not object to the commit.
\<close>

definition good_vote :: "int \<Rightarrow> bool" where
  "good_vote err = (err = XA_OK \<or> err = XA_RDONLY \<or> err = XAER_NOTA)"

fun prepare_sent :: "tm_act \<Rightarrow> bool" where
  "prepare_sent (Act_xa XA_PREPARE _ rc) = (rc = XA_OK)"
| "prepare_sent _ = False"

fun prepare_vote :: "tm_act \<Rightarrow> bool" where
  "prepare_vote (Act_response XA_PREPARE _ _) = True"
| "prepare_vote _ = False"

fun refusal :: "tm_act \<Rightarrow> bool" where
  "refusal (Act_response XA_PREPARE _ err) = (\<not> good_vote err)"
| "refusal _ = False"

text \<open>What a prepare leaves alone: it may only set the read-only flag and mark for rollback.\<close>

definition prep_frame :: "tm_world \<Rightarrow> tm_world \<Rightarrow> bool" where
  "prep_frame w w' =
     (w_info w' = w_info w \<and> w_heap w' = w_heap w
      \<and> (w_tx w')\<lparr> tx_read_only := False, tx_mark_for_rollback := False \<rparr>
        = (w_tx w)\<lparr> tx_read_only := False, tx_mark_for_rollback := False \<rparr>
      \<and> (tx_mark_for_rollback (w_tx w) \<longrightarrow> tx_mark_for_rollback (w_tx w')))"

lemma prep_frame_refl [simp, intro]: "prep_frame w w"
  by (simp add: prep_frame_def)

lemma prep_frame_trans [trans]: "prep_frame u v \<Longrightarrow> prep_frame v w \<Longrightarrow> prep_frame u w"
  by (simp add: prep_frame_def)

lemma bcast_prep_frame: "bcast P w w' \<Longrightarrow> prep_frame w w'"
  by (simp add: bcast_def quiet_def prep_frame_def)

lemma prep_frame_upd [simp]:
  "prep_frame w (upd_tse g v) = prep_frame w v" "prep_frame w (upd_branch i f v) = prep_frame w v"
  "prep_frame w (tick v) = prep_frame w v" "prep_frame w (late_registrations e v) = prep_frame w v"
  by (simp_all add: prep_frame_def upd_branch_def late_registrations_def)

lemma prep_frame_read_only: "prep_frame w v \<Longrightarrow> prep_frame w (upd_tx (tx_read_only_update (\<lambda>_. r)) v)"
  by (simp add: prep_frame_def)

lemma prep_frame_mark: "prep_frame w v \<Longrightarrow> prep_frame w (upd_tx (tx_mark_for_rollback_update (\<lambda>_. True)) v)"
  by (simp add: prep_frame_def)

lemma prepare_response_cases:
  assumes "prepare_response rmid err tr w = Some (tr', w')"
  obtains i v where "resp_slot rmid w = Some i" and "tr' = (if good_vote err then tr else err)"
    and "v = w \<or> v = upd_branch i (\<lambda>b. b\<lparr> br_resolved := True \<rparr>) w"
    and "w' = v \<or> (\<exists>rm. w' = upd_tse (tse_remove_rm_by_rmid rm) v) \<or> (\<exists>rm. w' = upd_tse (tse_fail_rm rm) v)
         \<or> w' = upd_tx (\<lambda>x. x\<lparr> tx_read_only := False \<rparr>) v
         \<or> w' = upd_tx (\<lambda>x. x\<lparr> tx_read_only := False \<rparr>) (upd_tx (\<lambda>x. x\<lparr> tx_mark_for_rollback := True \<rparr>) v)"
proof -
  from assms obtain i where i: "resp_slot rmid w = Some i"
    by (cases "resp_slot rmid w") (simp_all add: prepare_response_def)
  let ?v = "upd_branch i (\<lambda>b. b\<lparr> br_resolved := True \<rparr>) w"
  consider "XA_RB_range err" | "err = XA_OK" | "err = XA_RDONLY \<or> err = XAER_NOTA" | "err = XAER_RMFAIL"
    | "\<not> XA_RB_range err" "\<not> good_vote err" "err \<noteq> XAER_RMFAIL" by (auto simp: good_vote_def)
  then show ?thesis
  proof cases
    case 1
    then have "\<not> good_vote err" by (auto simp: XA_RB_range_def good_vote_def)
    with 1 assms i show ?thesis by (intro that [of i ?v]) (simp_all add: prepare_response_def)
  next
    case 2
    with assms i show ?thesis
      by (intro that [of i ?v]) (simp_all add: prepare_response_def XA_RB_range_def good_vote_def Let_def split: if_splits)
  next
    case 3
    with assms i show ?thesis
      by (intro that [of i ?v]) (auto simp: prepare_response_def XA_RB_range_def good_vote_def)
  next
    case 4
    with assms i show ?thesis
      by (intro that [of i w]) (auto simp: prepare_response_def XA_RB_range_def good_vote_def)
  next
    case 5
    with assms i show ?thesis
      by (intro that [of i ?v]) (simp_all add: prepare_response_def good_vote_def)
  qed
qed

lemma prepare_response_frame:
  assumes "prepare_response rmid err tr w = Some (tr', w')"
  shows "prep_frame w w' \<and> w_trace w' = w_trace w"
  using assms by (rule prepare_response_cases) (auto simp: prep_frame_def upd_branch_def)

lemma prepare_completions_frame:
  assumes "prepare_completions rs tr w = Some (tr', w')"
  shows "prep_frame w w' \<and> w_trace w' = w_trace w"
  by (rule pc.complete_invariant [of "\<lambda>w w'. prep_frame w w' \<and> w_trace w' = w_trace w", OF prepare_response_frame _ _ assms])
    (simp_all add: prep_frame_def)

lemma prepare_response_vote:
  assumes "prepare_response rmid err tr w = Some (tr', w')"
  shows "tr' = (if good_vote err then tr else err)"
  using assms by (rule prepare_response_cases)

lemma prepare_completions_vote:
  assumes "prepare_completions rs tr w = Some (tr', w')" and "good_vote tr'"
  shows "good_vote tr" and "\<forall>r \<in> set rs. good_vote (snd r)"
proof -
  have 1: "t' = t \<or> \<not> good_vote t'" 
    if "prepare_response rmid err t v = Some (t', v')" for rmid err t v t' v'
    using prepare_response_vote [OF that] by (auto split: if_splits)
  have 2: "\<not> good_vote t'" 
    if "prepare_response rmid err t v = Some (t', v')" "\<not> good_vote err" for rmid err t v t' v'
    using prepare_response_vote [OF that(1)] that(2) by (auto split: if_splits)
  have "\<not> good_vote tr \<or> (\<exists>r \<in> set rs. \<not> good_vote (snd r)) \<Longrightarrow> \<not> good_vote tr'"
    by (rule pc.complete_sticky [of "\<lambda>x. \<not> good_vote x", OF _ _ assms(1)]) (erule 1, erule (1) 2, assumption)
  then show "good_vote tr" and "\<forall>r \<in> set rs. good_vote (snd r)" using assms(2) by auto
qed


fun sent_ok :: "(int \<Rightarrow> bool) \<Rightarrow> tm_act \<Rightarrow> bool" where
  "sent_ok ok (Act_xa _ _ rc) = ok rc"
| "sent_ok ok _ = False"

fun is_send :: "xa_entry \<Rightarrow> tm_act \<Rightarrow> bool" where
  "is_send entry (Act_xa en _ _) = (en = entry)"
| "is_send entry _ = False"

lemma send_loop_count:
  "send_loop e entry sel ok sent failed is count tr w = Some ((count', tr'), w')
   \<Longrightarrow> \<exists>as. w_trace w' = w_trace w @ as \<and> list_all (is_send entry) as
            \<and> count' = count + length (filter (sent_ok ok) as)"
proof (induction "is" arbitrary: count tr w)
  case (Cons i "is")
  let ?rc = "env_xa e (w_clock w) entry (br_rmid (branch_at i w))"
  let ?a = "Act_xa entry (br_rmid (branch_at i w)) ?rc"
  have s: "xa_send e entry (br_rmid (branch_at i w)) w = (?rc, tick (act ?a w))"
    by (simp add: xa_send_def Let_def)
  have step: ?case if v: "w_trace v = w_trace w @ [?a]"
    and l: "send_loop e entry sel ok sent failed is (if ok ?rc then Suc count else count) t v = Some ((count', tr'), w')" for v t
  proof -
    from Cons.IH [OF l] obtain as where "w_trace w' = w_trace v @ as" "list_all (is_send entry) as"
      "count' = (if ok ?rc then Suc count else count) + length (filter (sent_ok ok) as)" by blast
    with v show ?thesis by (intro exI [of _ "?a # as"]) simp
  qed
  consider (skip) "\<not> sel (branch_at i w)" | (sent) "sel (branch_at i w)" "ok ?rc" | (bad) "sel (branch_at i w)" "\<not> ok ?rc"
    by blast
  then show ?case
  proof cases
    case skip
    with Cons show ?thesis by simp
  next
    case sent
    with Cons.prems s show ?thesis by (intro step [of "upd_branch i sent (tick (act ?a w))"]) (simp_all add: upd_branch_def)
  next
    case bad
    with Cons.prems s obtain w2 where f: "send_failed ?rc (br_rmid (branch_at i w)) (tick (act ?a w)) = Some w2"
      and l: "send_loop e entry sel ok sent failed is count ?rc (upd_branch i (failed ?rc) w2) = Some ((count', tr'), w')"
      by (auto simp: bind_Some_iff)
    from f have "w_trace w2 = w_trace w @ [?a]" by (auto simp: send_failed_def split: if_splits)
    with bad l show ?thesis by (intro step [of "upd_branch i (failed ?rc) w2"]) (simp_all add: upd_branch_def)
  qed
qed simp

text \<open>A pass whose result lets the transaction go on.\<close>

definition votes_in :: "tm_act list \<Rightarrow> bool" where
  "votes_in as =
     (list_all (xa_of XA_PREPARE) as \<and> list_all (\<lambda>a. \<not> refusal a) as
      \<and> length (filter prepare_sent as) = length (filter prepare_vote as))"

lemma votes_in_append [intro]: "votes_in as \<Longrightarrow> votes_in bs \<Longrightarrow> votes_in (as @ bs)"
  by (simp add: votes_in_def)

lemma votes_in_Nil [simp]: "votes_in []"
  by (simp add: votes_in_def)

lemma prepare_sent_sent: "list_all (is_send XA_PREPARE) as
   \<Longrightarrow> filter prepare_sent as = filter (sent_ok (\<lambda>rc. rc = XA_OK)) as \<and> filter prepare_vote as = []
       \<and> list_all (xa_of XA_PREPARE) as \<and> list_all (\<lambda>a. \<not> refusal a) as"
proof (induction as)
  case (Cons a as)
  then show ?case by (cases a) auto
qed simp

lemma complete_all_responses:
  assumes "complete_all e entry num w = Some ((outstanding, resp), w')"
  obtains got where "w_trace w' = w_trace w @ map (\<lambda>p. Act_response entry (fst p) (snd p)) got"
    and "set got \<subseteq> set resp" and "outstanding = int num - int (length got)" and "length got \<le> num"
    and "outstanding = 0 \<longrightarrow> resp = got" and "w_tse w' = w_tse w"
proof -
  let ?got = "map (\<lambda>r. (rp_rmid r, reply_error entry r)) (take num (env_replies e (w_clock w) entry))"
  from assms show ?thesis
    by (intro that [of ?got]) (auto simp: complete_all_def Let_def tick_def split: if_splits)
qed

lemma single_pass_votes:
  assumes "prepare_branches_single_pass e w = Some (err, w')"
  obtains as where "w_trace w' = w_trace w @ as" and "list_all (xa_of XA_PREPARE) as"
    and "prep_frame w w'" and "good_vote err \<longrightarrow> votes_in as"
proof -
  from assms obtain count tr w1 outstanding resp w2 where
    s: "send_loop e XA_PREPARE is_member (\<lambda>rc. rc = XA_OK) id (\<lambda>rc. id) (slot_range w) 0 XA_OK w = Some ((count, tr), w1)"
    and c: "complete_all e XA_PREPARE count w1 = Some ((outstanding, resp), w2)"
    and r: "(if outstanding > 0 then prepare_completions resp XAER_RMFAIL w2
             else prepare_completions resp tr (upd_tx (\<lambda>x. x\<lparr> tx_read_only := True \<rparr>) w2)) = Some (err, w')"
    by (auto simp: prepare_branches_single_pass_def bind_Some_iff)
  define tr0 where "tr0 = (if outstanding > 0 then XAER_RMFAIL else tr)"
  define w3 where "w3 = (if outstanding > 0 then w2 else upd_tx (\<lambda>x. x\<lparr> tx_read_only := True \<rparr>) w2)"
  have p: "prepare_completions resp tr0 w3 = Some (err, w')"
    using r by (simp add: tr0_def w3_def split: if_splits)
  have f3: "prep_frame w2 w3 \<and> w_trace w3 = w_trace w2"
    by (simp add: w3_def prep_frame_read_only)
  from send_loop_count [OF s] obtain bs where bs: "w_trace w1 = w_trace w @ bs" "list_all (is_send XA_PREPARE) bs"
    "count = length (filter (sent_ok (\<lambda>rc. rc = XA_OK)) bs)" by auto
  from complete_all_responses [OF c] obtain got where g: "w_trace w2 = w_trace w1 @ map (\<lambda>p. Act_response XA_PREPARE (fst p) (snd p)) got"
    "set got \<subseteq> set resp" "outstanding = int count - int (length got)" by metis
  let ?rs = "map (\<lambda>p. Act_response XA_PREPARE (fst p) (snd p)) got"
  have "w_trace w' = w_trace w @ bs @ ?rs"
    using g(1) bs(1) f3 prepare_completions_frame [OF p] by simp
  moreover have "prep_frame w w'"
    using bcast_prep_frame [OF send_loop_bcast [OF s]] bcast_prep_frame [OF complete_all_bcast [OF c]] f3
      prepare_completions_frame [OF p] by (meson prep_frame_trans)
  moreover have "list_all (xa_of XA_PREPARE) (bs @ ?rs)"
    using prepare_sent_sent [OF bs(2)] by (auto simp: list_all_iff)
  moreover have "votes_in (bs @ ?rs)" if "good_vote err"
  proof -
    note v = prepare_completions_vote [OF p that]
    have "\<not> good_vote XAER_RMFAIL" by (simp add: good_vote_def)
    with v(1) have "outstanding \<le> 0" by (auto simp: tr0_def split: if_splits)
    have "\<forall>p \<in> set got. good_vote (snd p)" using v(2) g(2) by auto
    moreover have "filter prepare_vote ?rs = ?rs" "filter prepare_sent ?rs = []" by (induction got) auto
    moreover have "length got \<le> count" using c by (auto simp: complete_all_def Let_def g(3) split: if_splits)
    ultimately show ?thesis
      using prepare_sent_sent [OF bs(2)] bs(3) g(3) \<open>outstanding \<le> 0\<close>
      by (auto simp: votes_in_def list_all_iff)
  qed
  ultimately show ?thesis by (intro that [of "bs @ ?rs"]) auto
qed


definition prep_run :: "int \<Rightarrow> tm_world \<Rightarrow> tm_world \<Rightarrow> bool" where
  "prep_run err w w' =
     (\<exists>as. w_trace w' = w_trace w @ as \<and> list_all (xa_of XA_PREPARE) as \<and> prep_frame w w'
            \<and> (good_vote err \<longrightarrow> votes_in as))"

lemma prep_run_trans:
  assumes "prep_run FEOK u v" and "prep_run err v w" shows "prep_run err u w"
proof -
  from assms obtain as bs where "w_trace v = w_trace u @ as" "list_all (xa_of XA_PREPARE) as" "prep_frame u v" "votes_in as"
    "w_trace w = w_trace v @ bs" "list_all (xa_of XA_PREPARE) bs" "prep_frame v w" "good_vote err \<longrightarrow> votes_in bs"
    by (auto simp: prep_run_def good_vote_def)
  then show ?thesis unfolding prep_run_def
    by (intro exI [of _ "as @ bs"]) (auto intro: prep_frame_trans)
qed

lemma single_pass_run: "prepare_branches_single_pass e w = Some (err, w') \<Longrightarrow> prep_run err w w'"
  unfolding prep_run_def by (erule single_pass_votes) blast

lemma late_run: "prep_run err w (late_registrations e w)"
  by (simp add: prep_run_def late_registrations_def prep_frame_def)

lemma prepare_passes_run:
  "prep_run err w0 w \<Longrightarrow> prepare_passes e left err w = Some (err', w') \<Longrightarrow> prep_run err' w0 w'"
proof (induction "left" arbitrary: err w)
  case 0
  then have w: "prep_run err w0 (late_registrations e w)"
    by (auto simp: prep_run_def late_registrations_def prep_frame_def)
  then show ?case
    using 0(2) by (auto simp: Let_def good_vote_def prep_run_def split: if_splits)
next
  case (Suc n)
  then have w: "prep_run err w0 (late_registrations e w)"
    by (auto simp: prep_run_def late_registrations_def prep_frame_def)
  show ?case
  proof (cases "err = FEOK \<and> tse_num_rms_unresolved (w_tse (late_registrations e w)) \<noteq> 0")
    case True
    with Suc.prems(2) obtain e2 w2
      where p: "prepare_branches_single_pass e (late_registrations e w) = Some (e2, w2)"
      and q: "prepare_passes e n e2 w2 = Some (err', w')"
      by (auto simp: Let_def bind_Some_iff)
    have "prep_run e2 w0 w2" using prep_run_trans [OF _ single_pass_run [OF p]] w True by auto
    from Suc.IH [OF this q] show ?thesis .
  qed (use Suc.prems(2) w in \<open>auto simp: Let_def\<close>)
qed

lemma tse_prepare_run:
  assumes "tse_prepare_branches e w = Some (err, w')"
  shows "prep_run err w w'"
proof -
  from assms obtain e1 w1 w2 where p: "prepare_branches_single_pass e w = Some (e1, w1)"
    and q: "prepare_passes e 9 e1 w1 = Some (err, w2)" and r: "w' = upd_tse tse_reset_resolved w2"
    by (auto simp: tse_prepare_branches_def bind_Some_iff)
  from prepare_passes_run [OF single_pass_run [OF p] q] r show ?thesis
    by (auto simp: prep_run_def prep_frame_def)
qed


text \<open>Slots keep their rmid, and one that becomes resolved has an rmid in \<open>R\<close>.\<close>

definition resolves :: "int set \<Rightarrow> tse_table \<Rightarrow> tse_table \<Rightarrow> bool" where
  "resolves R t t' =
     (ts_high_index_used t' = ts_high_index_used t \<and> length (ts_branches t') = length (ts_branches t)
      \<and> (\<forall>i < length (ts_branches t).
           br_rmid (ts_branches t' ! i) = br_rmid (ts_branches t ! i)
           \<and> (br_resolved (ts_branches t' ! i)
              \<longrightarrow> br_resolved (ts_branches t ! i) \<or> br_rmid (ts_branches t ! i) \<in> R)))"

lemma resolves_refl [simp, intro]: "resolves R t t"
  by (simp add: resolves_def)

lemma resolves_trans: "resolves R t u \<Longrightarrow> resolves S u v \<Longrightarrow> resolves (R \<union> S) t v"
  by (auto simp: resolves_def)

lemma resolves_mono: "resolves R t u \<Longrightarrow> R \<subseteq> S \<Longrightarrow> resolves S t u"
  by (auto simp: resolves_def)

lemma resolves_trans_same: "resolves R t u \<Longrightarrow> resolves R u v \<Longrightarrow> resolves R t v"
  using resolves_trans [of R t u R v] by simp

lemma resolves_update:
  assumes "\<And>b. br_rmid (f b) = br_rmid b" and "\<And>b. br_resolved (f b) \<Longrightarrow> br_resolved b \<or> br_rmid (ts_branches t ! i) \<in> R"
  shows "resolves R t (ts_update i f t)"
  using assms by (auto simp: resolves_def ts_update_def nth_update_if split: if_splits)

lemma resolves_fail_rm: "resolves R t (tse_fail_rm rm t)"
  by (auto simp: tse_fail_rm_def intro!: resolves_update split: option.splits)

lemma resolves_partic: "resolves R t (t'\<lparr> ts_num_rm_partic := n \<rparr>) = resolves R t t'"
  by (simp add: resolves_def)

lemma resolves_remove_rm: "resolves R t (tse_remove_rm_by_rmid rm t)"
  by (auto simp: tse_remove_rm_by_rmid_def resolves_partic intro!: resolves_update split: option.splits)

lemma resolves_register: "resolves R t (snd (tse_register tid rm t))"
  by (auto simp: tse_register_def tse_inc_num_rm_partic_def resolves_partic branch_add_partic_def branch_up_def
      resolves_def ts_update_def nth_update_if split: option.splits if_splits)

lemma resolves_late: "resolves R (w_tse w) (w_tse (late_registrations e w))"
proof -
  have "resolves R t (fold (\<lambda>rmid t. snd (tse_register tid rmid t)) rs t)" for tid rs t
  proof (induction rs arbitrary: t)
    case (Cons r rs)
    show ?case
      using resolves_trans_same [OF resolves_register Cons.IH] by simp
  qed simp
  then show ?thesis by (simp add: late_registrations_def)
qed

lemma resolves_send_loop:
  assumes sent: "\<And>b. br_rmid (sent b) = br_rmid b" "\<And>b. br_resolved (sent b) = br_resolved b"
    and failed: "\<And>rc b. br_rmid (failed rc b) = br_rmid b" "\<And>rc b. br_resolved (failed rc b) = br_resolved b"
  shows "send_loop e entry sel ok sent failed is count tr w = Some (r, w') \<Longrightarrow> resolves R (w_tse w) (w_tse w')"
proof (induction "is" arbitrary: count tr w)
  case (Cons i "is")
  obtain rc w1 where s: "xa_send e entry (br_rmid (branch_at i w)) w = (rc, w1)" by force
  then have w1: "w_tse w1 = w_tse w" by (auto simp: xa_send_def Let_def)
  have upd: "resolves R (w_tse v) (w_tse (upd_branch i sent v))" "resolves R (w_tse v) (w_tse (upd_branch i (failed rc) v))"
    for v by (auto simp: upd_branch_def sent failed intro!: resolves_update)
  consider (skip) "\<not> sel (branch_at i w)" | (ok) "sel (branch_at i w)" "ok rc" | (bad) "sel (branch_at i w)" "\<not> ok rc"
    by blast
  then show ?case
  proof cases
    case ok
    with Cons.prems s have l: "send_loop e entry sel ok sent failed is (Suc count) tr (upd_branch i sent w1) = Some (r, w')" by simp
    from resolves_trans_same [OF upd(1) Cons.IH [OF l]] show ?thesis by (simp add: w1)
  next
    case bad
    with Cons.prems s obtain w2 where f: "send_failed rc (br_rmid (branch_at i w)) w1 = Some w2"
      and l: "send_loop e entry sel ok sent failed is count rc (upd_branch i (failed rc) w2) = Some (r, w')"
      by (auto simp: bind_Some_iff)
    have "resolves R (w_tse w) (w_tse w2)"
      using f w1 by (auto simp: send_failed_def resolves_fail_rm split: if_splits)
    from resolves_trans_same [OF this resolves_trans_same [OF upd(2) Cons.IH [OF l]]] show ?thesis .
  qed (use Cons in simp)
qed simp

lemma resp_slot_rmid: "resp_slot rmid w = Some i \<Longrightarrow> br_rmid (ts_branches (w_tse w) ! i) = rmid"
  by (auto simp: resp_slot_def tse_return_slot_def dest: find_index_SomeD(2))

lemma resolves_prepare_response:
  assumes "prepare_response rmid err tr w = Some (tr', w')"
  shows "resolves {rmid} (w_tse w) (w_tse w')"
  using assms
proof (rule prepare_response_cases)
  fix i v
  assume i: "resp_slot rmid w = Some i" and v: "v = w \<or> v = upd_branch i (\<lambda>b. b\<lparr> br_resolved := True \<rparr>) w"
    and w': "w' = v \<or> (\<exists>rm. w' = upd_tse (tse_remove_rm_by_rmid rm) v) \<or> (\<exists>rm. w' = upd_tse (tse_fail_rm rm) v)
         \<or> w' = upd_tx (\<lambda>x. x\<lparr> tx_read_only := False \<rparr>) v
         \<or> w' = upd_tx (\<lambda>x. x\<lparr> tx_read_only := False \<rparr>) (upd_tx (\<lambda>x. x\<lparr> tx_mark_for_rollback := True \<rparr>) v)"
  have "resolves {rmid} (w_tse w) (w_tse v)"
    using v resp_slot_rmid [OF i] by (auto simp: upd_branch_def intro!: resolves_update)
  moreover have "resolves {rmid} (w_tse v) (w_tse w')"
    using w' by (auto simp: resolves_fail_rm resolves_remove_rm)
  ultimately show ?thesis by (rule resolves_trans_same)
qed

lemma resolves_prepare_completions:
  "prepare_completions rs tr w = Some (tr', w') \<Longrightarrow> resolves (fst ` set rs) (w_tse w) (w_tse w')"
proof (induction rs arbitrary: tr w)
  case (Cons r rs)
  obtain rmid err where r: "r = (rmid, err)" by force
  from Cons.prems obtain t v where "prepare_response rmid err tr w = Some (t, v)" "prepare_completions rs t v = Some (tr', w')"
    by (auto simp: r bind_Some_iff)
  with resolves_trans [OF resolves_prepare_response Cons.IH] show ?case by (simp add: r)
qed simp


lemma resolves_single_pass:
  assumes "prepare_branches_single_pass e w = Some (err, w')" and "good_vote err"
  obtains as where "w_trace w' = w_trace w @ as" and "votes_in as"
    and "resolves {r. \<exists>v. Act_response XA_PREPARE r v \<in> set as} (w_tse w) (w_tse w')"
proof -
  from assms obtain count tr w1 outstanding resp w2 where
    s: "send_loop e XA_PREPARE is_member (\<lambda>rc. rc = XA_OK) id (\<lambda>rc. id) (slot_range w) 0 XA_OK w = Some ((count, tr), w1)"
    and c: "complete_all e XA_PREPARE count w1 = Some ((outstanding, resp), w2)"
    and r: "(if outstanding > 0 then prepare_completions resp XAER_RMFAIL w2
             else prepare_completions resp tr (upd_tx (\<lambda>x. x\<lparr> tx_read_only := True \<rparr>) w2)) = Some (err, w')"
    by (auto simp: prepare_branches_single_pass_def bind_Some_iff)
  from assms single_pass_votes obtain as where as: "w_trace w' = w_trace w @ as" "votes_in as" by metis
  have n: "\<not> outstanding > 0"
    using r prepare_completions_vote(1) [of resp XAER_RMFAIL w2 err w'] assms(2) by (auto simp: good_vote_def)
  with r have p: "prepare_completions resp tr (upd_tx (\<lambda>x. x\<lparr> tx_read_only := True \<rparr>) w2) = Some (err, w')" by simp
  from complete_all_responses [OF c] n obtain got where
    g: "w_trace w2 = w_trace w1 @ map (\<lambda>p. Act_response XA_PREPARE (fst p) (snd p)) got" "resp = got" "w_tse w2 = w_tse w1"
    by (metis diff_ge_0_iff_ge nle_le not_less of_nat_mono)
  from send_loop_count [OF s] obtain bs where "w_trace w1 = w_trace w @ bs" by blast
  with g(1) as(1) prepare_completions_frame [OF p]
  have "as = bs @ map (\<lambda>p. Act_response XA_PREPARE (fst p) (snd p)) resp" by (simp add: g(2))
  then have "fst ` set resp \<subseteq> {r. \<exists>v. Act_response XA_PREPARE r v \<in> set as}" by auto
  moreover have "resolves (fst ` set resp) (w_tse w) (w_tse w')"
    using resolves_trans_same [OF resolves_send_loop [OF _ _ _ _ s]] resolves_prepare_completions [OF p] by (simp add: g(3))
  ultimately show ?thesis using as resolves_mono by (intro that [of as])
qed

definition voted :: "tm_world \<Rightarrow> tm_world \<Rightarrow> bool" where
  "voted w w' =
     (\<exists>as. w_trace w' = w_trace w @ as \<and> votes_in as
            \<and> resolves {r. \<exists>v. Act_response XA_PREPARE r v \<in> set as} (w_tse w) (w_tse w'))"

lemma voted_trans:
  assumes "voted u v" and "voted v w" shows "voted u w"
proof -
  let ?R = "\<lambda>as. {r. \<exists>v. Act_response XA_PREPARE r v \<in> set as}"
  from assms obtain as bs where a: "w_trace v = w_trace u @ as" "votes_in as" "resolves (?R as) (w_tse u) (w_tse v)"
    and b: "w_trace w = w_trace v @ bs" "votes_in bs" "resolves (?R bs) (w_tse v) (w_tse w)"
    unfolding voted_def by blast
  have "?R as \<union> ?R bs = ?R (as @ bs)" by auto
  with resolves_trans [OF a(3) b(3)] a b show ?thesis
    unfolding voted_def by (intro exI [of _ "as @ bs"]) auto
qed

lemma voted_late: "voted w (late_registrations e w)"
  unfolding voted_def using resolves_late [of _ w e] by (intro exI [of _ "[]"]) (simp add: late_registrations_def)

lemma prepare_passes_voted:
  "voted w0 w \<Longrightarrow> prepare_passes e left FEOK w = Some (FEOK, w')
   \<Longrightarrow> voted w0 w' \<and> tse_num_rms_unresolved (w_tse w') = 0"
proof (induction "left" arbitrary: w)
  case 0
  then show ?case
    using voted_trans [OF _ voted_late] by (auto simp: Let_def split: if_splits)
next
  case (Suc n)
  let ?w = "late_registrations e w"
  have w: "voted w0 ?w" using voted_trans [OF Suc.prems(1) voted_late] .
  show ?case
  proof (cases "tse_num_rms_unresolved (w_tse ?w) = 0")
    case False
    with Suc.prems(2) obtain e2 w2
      where p: "prepare_branches_single_pass e ?w = Some (e2, w2)"
      and q: "prepare_passes e n e2 w2 = Some (FEOK, w')"
      by (auto simp: Let_def bind_Some_iff)
    have e2: "e2 = FEOK" using q by (cases n) (auto simp: Let_def split: if_splits)
    with p have "voted ?w w2" using resolves_single_pass [OF p] unfolding voted_def good_vote_def by blast
    from Suc.IH [OF voted_trans [OF w this]] q e2 show ?thesis by simp
  qed (use Suc.prems(2) w in \<open>auto simp: Let_def\<close>)
qed

lemma unresolved_zero:
  assumes "tse_num_rms_unresolved t = 0" and "b \<in> set (ts_used t)" and "br_partic b"
  shows "br_resolved b"
  using assms by (auto simp: tse_num_rms_unresolved_def filter_empty_conv)

lemma reset_resolved_used:
  assumes "b \<in> set (ts_used (tse_reset_resolved t))"
  obtains b0 where "b0 \<in> set (ts_used t)" and "b = b0\<lparr> br_resolved := False \<rparr>"
proof -
  have "take (Suc n - min (length xs) (Suc n)) (drop (Suc n) xs) = []" for n and xs :: "tse_branch list"
    by (cases "length xs \<le> Suc n") (simp_all add: min_def)
  with assms that show ?thesis by (auto simp: tse_reset_resolved_def ts_used_def simp del: take_eq_Nil)
qed

text \<open>
  C5: when the prepare broadcast over the TSE branches reports success, every branch that is
  still a participant afterwards has answered the prepare request of this broadcast, in one
  of its passes, with an acceptable vote (\<^verbatim>\<open>CTmTseXa::prepare_branches\<close>).  Branches that register
  while the first pass runs are included.
\<close>

theorem prepared_participants_voted:
  assumes "tse_prepare_branches e w = Some (FEOK, w')"
    and "\<forall>b \<in> set (ts_branches (w_tse w)). \<not> br_resolved b"
    and "w_trace w' = w_trace w @ as"
    and "b \<in> set (ts_used (w_tse w'))" and "br_partic b"
  shows "\<exists>v. Act_response XA_PREPARE (br_rmid b) v \<in> set as \<and> good_vote v"
proof -
  from assms(1) obtain e1 w1 w2 where p: "prepare_branches_single_pass e w = Some (e1, w1)"
    and q: "prepare_passes e 9 e1 w1 = Some (FEOK, w2)" and r: "w' = upd_tse tse_reset_resolved w2"
    by (auto simp: tse_prepare_branches_def bind_Some_iff)
  have e1: "e1 = FEOK" using q by (simp add: eval_nat_numeral Let_def split: if_splits)
  have "voted w w1" using resolves_single_pass [OF p] e1 unfolding voted_def good_vote_def by blast
  from prepare_passes_voted [OF this q [unfolded e1]] obtain as' where
    z: "tse_num_rms_unresolved (w_tse w2) = 0" and as': "w_trace w2 = w_trace w @ as'" and v: "votes_in as'"
    and res: "resolves {r. \<exists>v. Act_response XA_PREPARE r v \<in> set as'} (w_tse w) (w_tse w2)"
    unfolding voted_def by blast
  from as' assms(3) r have eq: "as' = as" by simp
  from assms(4) r reset_resolved_used obtain b0 where b0: "b0 \<in> set (ts_used (w_tse w2))" and b: "b = b0\<lparr> br_resolved := False \<rparr>"
    by (metis upd_sel(10))
  from b assms(5) have "br_partic b0" by simp
  with unresolved_zero [OF z b0] have "br_resolved b0" by simp
  moreover from b0 obtain i where "i < length (ts_branches (w_tse w2))" "b0 = ts_branches (w_tse w2) ! i"
    by (auto simp: ts_used_def in_set_conv_nth)
  ultimately have "br_rmid b0 \<in> {r. \<exists>v. Act_response XA_PREPARE r v \<in> set as'}"
    using res assms(2) by (auto simp: resolves_def)
  then obtain v where "Act_response XA_PREPARE (br_rmid b) v \<in> set as" by (auto simp: b eq)
  moreover from this v have "good_vote v" by (auto simp: votes_in_def list_all_iff eq)
  ultimately show ?thesis by blast
qed

theorem prepared_participants_voted_witness:
  "\<exists>v. Act_response XA_PREPARE 11 v
        \<in> set (w_trace (snd (the (tse_prepare_branches (sample_env 0 0 0 XA_RDONLY) (sample_world True MSG_ENDTRANSACTION)))))
     \<and> good_vote v"
proof -
  let ?w = "sample_world True MSG_ENDTRANSACTION" let ?r = "tse_prepare_branches (sample_env 0 0 0 XA_RDONLY) ?w"
  have run: "?r = Some (FEOK, snd (the ?r))" by (rule run_result) code_simp
  have b: "(ts_used (w_tse (snd (the ?r)))) ! 0 \<in> set (ts_used (w_tse (snd (the ?r))))" by (rule nth_mem) code_simp
  have "\<exists>v. Act_response XA_PREPARE (br_rmid (ts_used (w_tse (snd (the ?r))) ! 0)) v \<in> set (w_trace (snd (the ?r))) \<and> good_vote v"
    by (rule prepared_participants_voted [OF run _ _ b]; code_simp)
  moreover have "br_rmid (ts_used (w_tse (snd (the ?r))) ! 0) = 11" by code_simp
  ultimately show ?thesis by simp
qed

end
