(* ===== verification/Tm_Branches.thy ===== *)
theory Tm_Branches
  imports Tm_TseXa
begin

text \<open>
  The HBase branches (\<^verbatim>\<open>RM_Info_HBASE\<close>, \<^verbatim>\<open>tmrmhbase.cpp\<close>), a thin layer over the HBase
  transaction library, and \<^verbatim>\<open>CTmTxBranches\<close> (\<^verbatim>\<open>tmtxbranches.cpp\<close>), which drives both kinds
  of branches and combines their results for the transaction state machine.
\<close>

section \<open>RM_Info_HBASE\<close>

abbreviation (input) RET_OK :: int where "RET_OK \<equiv> 0"
abbreviation (input) RET_READONLY :: int where "RET_READONLY \<equiv> 2"

text \<open>A call into the HBase library that acts, and one that only asks.\<close>

definition hbase_do :: "tm_env \<Rightarrow> hbase_call \<Rightarrow> tm_world \<Rightarrow> int \<times> tm_world" where
  "hbase_do e call w = (let rc = env_hbase e (w_clock w) call in (rc, tick (act (Act_hbase call rc) w)))"

definition hbase_ask :: "tm_env \<Rightarrow> hbase_call \<Rightarrow> tm_world \<Rightarrow> int \<times> tm_world" where
  "hbase_ask e call w = (env_hbase e (w_clock w) call, tick w)"

text \<open>\<^verbatim>\<open>legacyTransid()\<close>: the first eight bytes of the transid.\<close>

definition tx_legacyTransid :: "tx \<Rightarrow> int" where
  "tx_legacyTransid x =
     txkey_id (txkey_set (word_of_int (txid_node (tx_transid x))) (word_of_int (txid_seq_num (tx_transid x))))"

definition hbase_num_rm_failed :: "tm_env \<Rightarrow> tm_world \<Rightarrow> int \<times> tm_world" where
  "hbase_num_rm_failed e w = hbase_ask e HB_failedRegions w"

definition hbase_num_rm_partic :: "tm_env \<Rightarrow> tm_world \<Rightarrow> int \<times> tm_world" where
  "hbase_num_rm_partic e w = hbase_ask e HB_participatingRegions w"

definition hbase_init_rms :: "bool \<Rightarrow> tm_world \<Rightarrow> tm_world" where
  "hbase_init_rms partic w = w"

definition hbase_num_rms_unresolved :: "tm_env \<Rightarrow> tm_world \<Rightarrow> int \<times> tm_world" where
  "hbase_num_rms_unresolved e w = hbase_ask e HB_unresolvedRegions w"

definition hbase_reset_resolved :: "tm_world \<Rightarrow> tm_world" where
  "hbase_reset_resolved w = w"

definition hbase_rollback_branches :: "tm_env \<Rightarrow> tm_world \<Rightarrow> int \<times> tm_world" where
  "hbase_rollback_branches e w = hbase_do e HB_abortTransaction w"

definition hbase_commit_branches :: "tm_env \<Rightarrow> tm_world \<Rightarrow> int \<times> tm_world" where
  "hbase_commit_branches e w = hbase_do e HB_doCommit w"

definition hbase_completeRequest_branches :: "tm_env \<Rightarrow> tm_world \<Rightarrow> int \<times> tm_world" where
  "hbase_completeRequest_branches e w = hbase_do e HB_completeRequest w"

definition hbase_end_branches :: "tm_world \<Rightarrow> int \<times> tm_world" where
  "hbase_end_branches w = (FEOK, w)"

definition hbase_forget_branches :: "tm_world \<Rightarrow> (int \<times> tm_world) option" where
  "hbase_forget_branches w = Some (FEOK, w)"

definition hbase_forget_heur_branches :: "tm_world \<Rightarrow> (int \<times> tm_world) option" where
  "hbase_forget_heur_branches = forget_heur_with hbase_forget_branches"

definition hbase_prepare_branches :: "tm_env \<Rightarrow> tm_world \<Rightarrow> int \<times> tm_world" where
  "hbase_prepare_branches e w = hbase_do e HB_prepareCommit w"

text \<open>\<^verbatim>\<open>start_branches\<close> aborts on an error and on a transid the library changed.\<close>

definition hbase_start_branches :: "tm_env \<Rightarrow> tm_world \<Rightarrow> (int \<times> tm_world) option" where
  "hbase_start_branches e w =
     (let tid = tx_legacyTransid (w_tx w);
          tid' = env_hbase_transid e (w_clock w) tid;
          (rc, w1) = hbase_do e HB_beginTransaction w
      in if tid' \<noteq> tid \<or> rc \<noteq> 0 then None else Some (rc, w1))"

definition hbase_registerRegion :: "tm_env \<Rightarrow> tm_world \<Rightarrow> int \<times> tm_world" where
  "hbase_registerRegion e w = hbase_do e HB_registerRegion w"

definition hbase_shutdown_branches :: "tm_env \<Rightarrow> tm_world \<Rightarrow> int \<times> tm_world" where
  "hbase_shutdown_branches e w = (FEOK, snd (hbase_do e HB_shutdown w))"

section \<open>CTmTxBranches\<close>

definition num_rm_failed :: "tm_env \<Rightarrow> tm_world \<Rightarrow> int \<times> tm_world" where
  "num_rm_failed e w =
     (let (h, w1) = hbase_num_rm_failed e w in (tse_num_rm_failed (w_tse w) + h, w1))"

definition num_rm_partic :: "tm_env \<Rightarrow> tm_world \<Rightarrow> int \<times> tm_world" where
  "num_rm_partic e w =
     (let (h, w1) = hbase_num_rm_partic e w in (tse_num_rm_partic (w_tse w) + h, w1))"

definition num_rms_unresolved :: "tm_env \<Rightarrow> tm_world \<Rightarrow> int \<times> tm_world" where
  "num_rms_unresolved e w =
     (let (h, w1) = hbase_num_rms_unresolved e w in (tse_num_rms_unresolved (w_tse w) + h, w1))"

definition reset_resolved :: "tm_world \<Rightarrow> tm_world" where
  "reset_resolved w = hbase_reset_resolved (upd_tse tse_reset_resolved w)"

definition init_rms :: "bool \<Rightarrow> tm_world \<Rightarrow> tm_world" where
  "init_rms partic w =
     hbase_init_rms partic (upd_tse (tse_init_rms (tx_transid (w_tx w)) partic (w_gtse w)) w)"

definition completeRequest_branches :: "tm_env \<Rightarrow> tm_world \<Rightarrow> int \<times> tm_world" where
  "completeRequest_branches e w =
     (let (err1, w1) = hbase_completeRequest_branches e w
      in (if err1 \<noteq> RET_OK then XAER_RMERR else XA_OK, w1))"

definition rollback_branches :: "tm_env \<Rightarrow> nat \<Rightarrow> bool \<Rightarrow> tm_world \<Rightarrow> (int \<times> tm_world) option" where
  "rollback_branches e msg error_condition w =
     (let (_, w1) = hbase_rollback_branches e w
      in do { (_, w2) \<leftarrow> tse_rollback_branches e msg error_condition w1;
              p \<leftarrow> msg_replyPending msg w2;
              w3 \<leftarrow> (if p then msg_reply msg w2 else Some w2);
              let (err1, w4) = completeRequest_branches e w3;
              Some (if err1 \<noteq> RET_OK then XAER_RMERR else XA_OK, w4) })"

definition commit_branches :: "tm_env \<Rightarrow> nat \<Rightarrow> tm_world \<Rightarrow> (int \<times> tm_world) option" where
  "commit_branches e msg w =
     (let (err1, w1) = hbase_commit_branches e w
      in do { (err2, w2) \<leftarrow> tse_commit_branches e msg w1;
              Some (if err1 \<noteq> RET_OK then XAER_RMERR else if err2 \<noteq> XA_OK then err2 else XA_OK, w2) })"

definition end_branches :: "tm_env \<Rightarrow> tm_world \<Rightarrow> (int \<times> tm_world) option" where
  "end_branches e w = tse_end_branches e (snd (hbase_end_branches w))"

text \<open>The results of both \<^verbatim>\<open>forget_branches\<close> are dropped.\<close>

definition forget_branches :: "tm_env \<Rightarrow> tm_world \<Rightarrow> (int \<times> tm_world) option" where
  "forget_branches e w =
     do { (_, w1) \<leftarrow> tse_forget_branches e w; (_, w2) \<leftarrow> hbase_forget_branches w1; Some (FEOK, w2) }"

definition forget_heur_branches :: "tm_env \<Rightarrow> tm_world \<Rightarrow> (int \<times> tm_world) option" where
  "forget_heur_branches e = forget_heur_with (forget_branches e)"

text \<open>How the results of the two kinds of branches combine in \<^verbatim>\<open>prepare_branches\<close>.\<close>

definition prepare_result :: "int \<Rightarrow> int \<Rightarrow> int" where
  "prepare_result err1 err2 =
     (if err1 = RET_READONLY \<and> (err2 = XA_RDONLY \<or> err2 = XAER_NOTA) then XA_OK
      else let e1 = (if err1 = RET_READONLY then RET_OK else err1);
               e2 = (if err2 = XA_RDONLY \<or> err2 = XAER_NOTA then XA_OK else err2)
           in if e2 \<noteq> RET_OK then XAER_RMERR else if e1 \<noteq> XA_OK then e1 else XA_OK)"

definition prepare_branches :: "tm_env \<Rightarrow> tm_world \<Rightarrow> (int \<times> tm_world) option" where
  "prepare_branches e w =
     (let (err1, w1) = hbase_prepare_branches e w
      in do { (err2, w2) \<leftarrow> tse_prepare_branches e w1;
              let err = prepare_result err1 err2;
              Some (err, if err \<noteq> XA_OK \<and> err \<noteq> XA_RDONLY
                         then upd_tx (\<lambda>x. x\<lparr> tx_mark_for_rollback := True \<rparr>) w2 else w2) })"

text \<open>\<^verbatim>\<open>start_branches\<close> drops the results as well and always returns \<^const>\<open>FEOK\<close>.\<close>

definition start_branches :: "tm_env \<Rightarrow> nat \<Rightarrow> tm_world \<Rightarrow> (int \<times> tm_world) option" where
  "start_branches e msg w =
     do { (_, w1) \<leftarrow> tse_start_branches e msg w; (_, w2) \<leftarrow> hbase_start_branches e w1; Some (FEOK, w2) }"

definition registerRegion :: "tm_env \<Rightarrow> tm_world \<Rightarrow> int \<times> tm_world" where
  "registerRegion e w = hbase_registerRegion e w"

definition shutdown_branches :: "tm_env \<Rightarrow> tm_world \<Rightarrow> (int \<times> tm_world) option" where
  "shutdown_branches e w =
     do { (err1, w1) \<leftarrow> tse_shutdown_branches e w;
          let (err2, w2) = hbase_shutdown_branches e w1;
          Some (if err1 \<noteq> RET_OK then err1 else if err2 \<noteq> XA_OK then XAER_RMERR else FEOK, w2) }"

section \<open>What the branches are told\<close>

fun hb_of :: "hbase_call set \<Rightarrow> tm_act \<Rightarrow> bool" where
  "hb_of calls (Act_hbase call _) = (call \<in> calls)"
| "hb_of calls _ = False"

lemma hbase_do_bcast: "hbase_do e call w = (rc, w') \<Longrightarrow> bcast (hb_of {call}) w w'"
  by (auto simp: hbase_do_def Let_def intro!: bcast_act)

lemma end_branches_bcast: "end_branches e w = Some (err, w') \<Longrightarrow> bcast (xa_of XA_END) w w'"
  by (auto simp: end_branches_def hbase_end_branches_def dest: tse_end_bcast)

text \<open>
  The actions that matter for the outcome: branches told to commit, branches told to roll back,
  votes, and the commit record.
\<close>

fun commit_act :: "tm_act \<Rightarrow> bool" where
  "commit_act (Act_xa XA_COMMIT _ _) = True"
| "commit_act (Act_response XA_COMMIT _ _) = True"
| "commit_act (Act_hbase HB_doCommit _) = True"
| "commit_act _ = False"

fun rollback_act :: "tm_act \<Rightarrow> bool" where
  "rollback_act (Act_xa XA_ROLLBACK _ _) = True"
| "rollback_act (Act_response XA_ROLLBACK _ _) = True"
| "rollback_act (Act_hbase HB_abortTransaction _) = True"
| "rollback_act _ = False"

fun vote_act :: "tm_act \<Rightarrow> bool" where
  "vote_act (Act_xa XA_PREPARE _ _) = True"
| "vote_act (Act_response XA_PREPARE _ _) = True"
| "vote_act (Act_hbase HB_prepareCommit _) = True"
| "vote_act _ = False"

fun commit_record :: "tm_act \<Rightarrow> bool" where
  "commit_record (Act_audit COMMITTED _) = True"
| "commit_record _ = False"

fun is_audit :: "tm_act \<Rightarrow> bool" where
  "is_audit (Act_audit _ _) = True"
| "is_audit _ = False"

fun ok_reply :: "tm_act \<Rightarrow> bool" where
  "ok_reply (Act_reply _ err) = (err = FEOK)"
| "ok_reply _ = False"

lemma act_classes:
  "xa_of XA_END a \<Longrightarrow> \<not> commit_act a \<and> \<not> rollback_act a \<and> \<not> vote_act a \<and> \<not> commit_record a \<and> \<not> ok_reply a"
  "xa_of XA_FORGET a \<Longrightarrow> \<not> commit_act a \<and> \<not> rollback_act a \<and> \<not> vote_act a \<and> \<not> commit_record a \<and> \<not> ok_reply a"
  "xa_of XA_PREPARE a \<Longrightarrow> \<not> commit_act a \<and> \<not> rollback_act a \<and> \<not> commit_record a \<and> \<not> ok_reply a"
  "xa_of XA_COMMIT a \<Longrightarrow> \<not> rollback_act a \<and> \<not> vote_act a \<and> \<not> commit_record a \<and> \<not> ok_reply a"
  "xa_of XA_ROLLBACK a \<Longrightarrow> \<not> commit_act a \<and> \<not> vote_act a \<and> \<not> commit_record a \<and> \<not> ok_reply a"
  "hb_of {HB_abortTransaction} a \<Longrightarrow> \<not> commit_act a \<and> \<not> vote_act a \<and> \<not> commit_record a \<and> \<not> ok_reply a"
  "hb_of {HB_doCommit} a \<Longrightarrow> \<not> rollback_act a \<and> \<not> vote_act a \<and> \<not> commit_record a \<and> \<not> ok_reply a"
  "hb_of {HB_completeRequest} a \<Longrightarrow> \<not> commit_act a \<and> \<not> rollback_act a \<and> \<not> vote_act a \<and> \<not> commit_record a \<and> \<not> ok_reply a"
  by (cases a; simp)+

lemma completeRequest_bcast: "bcast (hb_of {HB_completeRequest}) w (snd (completeRequest_branches e w))"
  by (auto simp: completeRequest_branches_def hbase_completeRequest_branches_def hbase_do_def Let_def intro!: bcast_act)

lemma commit_branches_quiet:
  assumes "commit_branches e msg w = Some (err, w')"
  shows "quiet (\<lambda>a. xa_of XA_COMMIT a \<or> hb_of {HB_doCommit} a) w w'"
proof -
  obtain e1 w1 where h: "hbase_do e HB_doCommit w = (e1, w1)" by force
  with assms obtain e2 where t: "tse_commit_branches e msg w1 = Some (e2, w')"
    by (auto simp: commit_branches_def hbase_commit_branches_def bind_Some_iff)
  have "quiet (\<lambda>a. xa_of XA_COMMIT a \<or> hb_of {HB_doCommit} a) w w1"
    by (rule quiet_mono [OF bcast_quiet [OF hbase_do_bcast [OF h]]]) simp
  moreover have "quiet (\<lambda>a. xa_of XA_COMMIT a \<or> hb_of {HB_doCommit} a) w1 w'"
    by (rule quiet_mono [OF tse_commit_quiet [OF t]]) simp
  ultimately show ?thesis by (rule quiet_trans)
qed

definition abort_only :: "tm_act \<Rightarrow> bool" where
  "abort_only a = (\<not> commit_act a \<and> \<not> vote_act a \<and> \<not> is_audit a)"

lemma abort_only_classes:
  "xa_of XA_ROLLBACK a \<Longrightarrow> abort_only a" "xa_of XA_END a \<Longrightarrow> abort_only a"
  "hb_of {HB_abortTransaction} a \<Longrightarrow> abort_only a" "hb_of {HB_completeRequest} a \<Longrightarrow> abort_only a"
  by (cases a; auto simp: abort_only_def)+

lemma abort_only_simps [simp]:
  "abort_only (Act_reply i err)" "abort_only (Act_sync ty s)" "abort_only (Act_timer m d)" "abort_only Act_timer_cancel"
  by (simp_all add: abort_only_def)

lemma rollback_branches_quiet:
  assumes "rollback_branches e msg ec w = Some (err, w')"
  shows "quiet abort_only w w' \<and> (err = XA_OK \<or> err = XAER_RMERR)"
proof -
  obtain e1 w1 where h: "hbase_do e HB_abortTransaction w = (e1, w1)" by force
  with assms obtain e2 w2 w3 where t: "tse_rollback_branches e msg ec w1 = Some (e2, w2)"
    and r: "w3 = w2 \<or> msg_reply msg w2 = Some w3" and c: "w' = snd (completeRequest_branches e w3)"
    by (auto simp: rollback_branches_def hbase_rollback_branches_def bind_Some_iff Let_def case_prod_beta split: if_splits)
  have "quiet abort_only w w1"
    by (rule quiet_mono [OF bcast_quiet [OF hbase_do_bcast [OF h]] abort_only_classes(3)])
  also have "quiet abort_only w1 w2"
    using tse_rollback_quiet [OF t] abort_only_classes(1) by (auto simp: rb_frame_def elim!: quiet_mono)
  also have "quiet abort_only w2 w3" using r by (auto dest!: msg_reply_quiet elim!: quiet_mono)
  also have "quiet abort_only w3 w'"
    unfolding c by (rule quiet_mono [OF bcast_quiet [OF completeRequest_bcast] abort_only_classes(4)])
  finally show ?thesis
    using assms by (auto simp: rollback_branches_def bind_Some_iff Let_def case_prod_beta split: if_splits)
qed

lemma prepare_result_go:
  assumes "prepare_result err1 err2 = XA_OK \<or> prepare_result err1 err2 = XA_RDONLY"
  shows "good_vote err2 \<and> err1 \<in> {0, 2, 3}"
  using assms by (auto simp: prepare_result_def good_vote_def Let_def split: if_splits)

lemma prepare_branches_run:
  assumes "prepare_branches e w = Some (err, w')"
  obtains as rc where "w_trace w' = w_trace w @ Act_hbase HB_prepareCommit rc # as"
    and "list_all (xa_of XA_PREPARE) as" and "prep_frame w w'"
    and "err = XA_OK \<or> err = XA_RDONLY \<Longrightarrow> votes_in as \<and> rc \<in> {0, 2, 3}"
    and "\<not> (err = XA_OK \<or> err = XA_RDONLY) \<Longrightarrow> tx_mark_for_rollback (w_tx w')"
proof -
  obtain rc w1 where h: "hbase_do e HB_prepareCommit w = (rc, w1)" by force
  then have w1: "w_trace w1 = w_trace w @ [Act_hbase HB_prepareCommit rc]" "prep_frame w w1"
    by (auto simp: hbase_do_def Let_def prep_frame_def)
  from assms h obtain err2 w2 where t: "tse_prepare_branches e w1 = Some (err2, w2)" and err: "err = prepare_result rc err2"
    and w': "w' = (if err \<noteq> XA_OK \<and> err \<noteq> XA_RDONLY then upd_tx (\<lambda>x. x\<lparr> tx_mark_for_rollback := True \<rparr>) w2 else w2)"
    by (auto simp: prepare_branches_def hbase_prepare_branches_def bind_Some_iff Let_def)
  from tse_prepare_run [OF t] obtain as where as: "w_trace w2 = w_trace w1 @ as" "list_all (xa_of XA_PREPARE) as"
    "prep_frame w1 w2" "good_vote err2 \<longrightarrow> votes_in as" by (auto simp: prep_run_def)
  show ?thesis
  proof (rule that [of rc as])
    show "prep_frame w w'"
      using prep_frame_trans [OF w1(2) as(3)] prep_frame_mark by (auto simp: w')
  next
    assume "err = XA_OK \<or> err = XA_RDONLY"
    with prepare_result_go [of rc err2] as(4) show "votes_in as \<and> rc \<in> {0, 2, 3}" by (simp add: err)
  qed (use w1 as w' in auto)
qed

end
