(* ===== verification/Tm_TxBase.thy ===== *)
theory Tm_TxBase
  imports Tm_Branches
begin

text \<open>
  The base class of transactions, \<^verbatim>\<open>CTmTxBase\<close> (\<^verbatim>\<open>tmtxbase.cpp\<close>): initialisation, event and
  pending request queues, the busy flag, the application participation list,
  timers, and the requests that are served outside the state machine (join, suspend,
  status, branch and region registration).  A request method takes the address of
  its message.  \<^verbatim>\<open>mapErr\<close> is the identity for the transactions of this class hierarchy
  that are modelled (\<^verbatim>\<open>TM_TX_Info\<close>).
\<close>

section \<open>Application participants\<close>

definition app_key :: "int \<Rightarrow> int \<Rightarrow> 64 word" where
  "app_key nid pid = txkey_set (word_of_int nid) (word_of_int pid)"

definition add_app_partic :: "int \<Rightarrow> int \<Rightarrow> tx \<Rightarrow> (bool \<times> tx) option" where
  "add_app_partic pid nid x =
     (let k = app_key nid pid
      in case map_get (txkey_id k) (tx_app_partic_list x) of
           None \<Rightarrow> do { m \<leftarrow> map_put (txkey_id k) k (tx_app_partic_list x);
                        Some (True, x\<lparr> tx_app_partic_list := m \<rparr>) }
         | Some _ \<Rightarrow> Some (False, x))"

definition remove_app_partic :: "int \<Rightarrow> int \<Rightarrow> tx \<Rightarrow> bool \<times> tx" where
  "remove_app_partic pid nid x =
     (let (r, m) = map_remove (txkey_id (app_key nid pid)) (tx_app_partic_list x)
      in (r \<noteq> None, x\<lparr> tx_app_partic_list := m \<rparr>))"

text \<open>\<^verbatim>\<open>erase_app_partic\<close> does nothing for the key 0.\<close>

definition erase_app_partic :: "64 word \<Rightarrow> tx \<Rightarrow> bool \<times> tx" where
  "erase_app_partic k x =
     (if txkey_id k \<noteq> 0
      then (True, x\<lparr> tx_app_partic_list := map_erase (txkey_id k) (tx_app_partic_list x) \<rparr>)
      else (False, x))"

definition is_app_partic :: "int \<Rightarrow> int \<Rightarrow> tx \<Rightarrow> bool" where
  "is_app_partic pid nid x = (map_get (txkey_id (app_key nid pid)) (tx_app_partic_list x) \<noteq> None)"

text \<open>The loop of \<^verbatim>\<open>cleanup_app_partic\<close>: at most \<^verbatim>\<open>num_active_partic\<close> entries are erased.\<close>

fun cleanup_app_loop :: "nat \<Rightarrow> 64 word option \<Rightarrow> tx \<Rightarrow> tx option" where
  "cleanup_app_loop 0 k x = Some x"
| "cleanup_app_loop (Suc n) None x = Some x"
| "cleanup_app_loop (Suc n) (Some k) x =
     do { (next, m) \<leftarrow> map_get_next (tx_app_partic_list x);
          cleanup_app_loop n next (snd (erase_app_partic k (x\<lparr> tx_app_partic_list := m \<rparr>))) }"

definition cleanup_app_partic :: "tx \<Rightarrow> tx option" where
  "cleanup_app_partic x =
     (let (first, m) = map_get_first (tx_app_partic_list x)
      in cleanup_app_loop (nat (tx_num_active_partic x)) first (x\<lparr> tx_app_partic_list := m \<rparr>))"

section \<open>Initialisation\<close>

text \<open>
  \<^verbatim>\<open>CTmTxBase::initialize\<close>; the flags are cast to \<^verbatim>\<open>short\<close> and the last argument is the
  result of \<^verbatim>\<open>SB_Thread::Sthr::time\<close>.
\<close>

definition tx_initialize ::
  "int \<Rightarrow> int \<Rightarrow> int \<Rightarrow> int \<Rightarrow> int \<Rightarrow> int \<Rightarrow> int \<Rightarrow> tm_world \<Rightarrow> tm_world option" where
  "tx_initialize nid flags seq creator_nid creator_pid rm_wait_time time w =
     do { let x = (w_tx w)
            \<lparr> tx_transid := \<lparr> txid_seq_num = seq, txid_node = nid,
                              txid_incarnation_num = gi_incarnation_num (w_info w), txid_tx_flags = sint (word_of_int flags :: 16 word),
                              txid_tt_flags = 0, txid_version = 1, txid_check_sum = 403,
                              txid_timestamp = time \<rparr>,
              tx_Thread := False, tx_threadPending := False,
              tx_timeout := gi_timeout (w_info w), tx_timeoutEvent := False,
              tx_tm_aborted := False, tx_tse_aborted := False, tx_appl_aborted := False,
              tx_heur_aborted := False, tx_written_in_cp := False, tx_wrote_trans_state := False,
              tx_mark_for_rollback := False, tx_recovering := False, tx_read_only := False,
              tx_in_use := True, tx_prepared_rms := 0, tx_tx_state := NOTX, tx_tag := seq,
              tx_num_active_partic := 1, tx_ender_nid := creator_nid, tx_ender_pid := creator_pid,
              tx_currRequest := None, tx_transactionBusy := False, tx_cleanup_sem := 0,
              tx_rm_wait_time := rm_wait_time, tx_hung_event := False \<rparr>;
          (_, x') \<leftarrow> add_app_partic creator_pid creator_nid x;
          Some (w\<lparr> w_tx := x' \<rparr>) }"

definition initialize_slot :: "int \<Rightarrow> tm_world \<Rightarrow> int \<times> tm_world" where
  "initialize_slot rmid w =
     (let (i, t) = tse_set_partic_and_transid (tx_transid (w_tx w)) rmid (w_tse w) in (i, w\<lparr> w_tse := t \<rparr>))"

definition initialize_tx_rms :: "bool \<Rightarrow> tm_world \<Rightarrow> tm_world" where
  "initialize_tx_rms partic w = init_rms partic w"

definition get_rm :: "int \<Rightarrow> tm_world \<Rightarrow> nat option" where
  "get_rm rmid w = tse_return_slot rmid (w_tse w)"

section \<open>Synchronisation, event queue and timers\<close>

definition sync_write :: "TM_TX_STATE \<Rightarrow> tm_world \<Rightarrow> tm_world" where
  "sync_write s w =
     (let w1 = set_state s w
      in case s of
           BEGINNING \<Rightarrow> act (Act_sync TM_BEGIN_SYNC s) w1
         | COMMITTED \<Rightarrow> act (Act_sync TM_END_SYNC s) w1
         | ABORTING \<Rightarrow> act (Act_sync TM_END_SYNC s) w1
         | ABORTING_PART2 \<Rightarrow> act (Act_sync TM_END_SYNC s) w1
         | ABORTED \<Rightarrow> act (Act_sync TM_END_SYNC s) w1
         | FORGOTTEN \<Rightarrow> act (Act_sync TM_FORGET_SYNC s) w1
         | _ \<Rightarrow> w1)"

definition push_disassociated :: "tm_world \<Rightarrow> tm_world" where
  "push_disassociated w =
     upd_info (\<lambda>g. g\<lparr> gi_txdisassociatedQ := deque_push (tx_tag (w_tx w)) (gi_txdisassociatedQ g) \<rparr>) w"

text \<open>\<^verbatim>\<open>eventQ_push\<close>; a NULL message is \<^const>\<open>None\<close> and aborts.\<close>

definition eventQ_push :: "tm_env \<Rightarrow> nat option \<Rightarrow> bool \<Rightarrow> tm_world \<Rightarrow> tm_world option" where
  "eventQ_push e msg threadAssociated w =
     (case msg of
        None \<Rightarrow> None
      | Some h \<Rightarrow>
          (let x = w_tx w;
               start = (\<not> threadAssociated \<and> \<not> tx_Thread x \<and> \<not> tx_threadPending x);
               got = env_new_thread e (w_clock w);
               associated = (threadAssociated \<or> (start \<and> got));
               w1 = (if start then tick (upd_tx (\<lambda>x. x\<lparr> tx_threadPending := got \<rparr>) w) else w);
               w2 = upd_tx (\<lambda>x. x\<lparr> tx_eventQ := deque_push h (tx_eventQ x) \<rparr>) w1
           in Some (if tx_Thread (w_tx w2) \<or> tx_threadPending (w_tx w2) \<or> associated
                    then w2 else push_disassociated w2)))"

definition eventQ_push_top :: "nat option \<Rightarrow> tm_world \<Rightarrow> tm_world option" where
  "eventQ_push_top msg w =
     (case msg of
        None \<Rightarrow> None
      | Some h \<Rightarrow> Some (upd_tx (\<lambda>x. x\<lparr> tx_eventQ := deque_push_back h (tx_eventQ x) \<rparr>) w))"

text \<open>
  \<^verbatim>\<open>eventQ_pop\<close> by the thread of the transaction; without one it aborts.  On an empty
  queue it returns NULL when called without waiting, and blocks otherwise; both are
  the inner \<^const>\<open>None\<close>.
\<close>

definition eventQ_pop :: "tm_world \<Rightarrow> (nat option \<times> tm_world) option" where
  "eventQ_pop w =
     (if \<not> tx_Thread (w_tx w) then None
      else let (r, q) = deque_pop_end (tx_eventQ (w_tx w))
           in Some (r, upd_tx (\<lambda>x. x\<lparr> tx_eventQ := q \<rparr>) w))"

definition addTimerEvent :: "TM_MSG_TYPE \<Rightarrow> int \<Rightarrow> tm_world \<Rightarrow> tm_world" where
  "addTimerEvent ty delay w = act (Act_timer ty delay) w"

definition setAbortTimeout :: "int \<Rightarrow> tm_world \<Rightarrow> tm_world" where
  "setAbortTimeout timeout w =
     (let t = (if timeout \<noteq> 0 then timeout else gi_timeout (w_info w));
          msec = (if t = - 1 then - 1 else t * 1000);
          w1 = (if tx_timeoutEvent (w_tx w) then act Act_timer_cancel w else w)
      in if t \<noteq> - 1
         then upd_tx (\<lambda>x. x\<lparr> tx_timeoutEvent := True \<rparr>) (addTimerEvent TXINTERNAL_ROLLBACK msec w1)
         else w1)"

definition addHungTimerEvent :: "TM_MSG_TYPE \<Rightarrow> tm_world \<Rightarrow> tm_world" where
  "addHungTimerEvent ty w =
     (if \<not> tx_hung_event (w_tx w)
      then upd_tx (\<lambda>x. x\<lparr> tx_hung_event := True \<rparr>)
             (addTimerEvent ty (gi_trans_hung_retry_interval (w_info w)) w)
      else w)"

text \<open>The removal of a hung timer at the start of both redrive methods.\<close>

definition cancel_hung_event :: "tm_world \<Rightarrow> tm_world" where
  "cancel_hung_event w =
     (if tx_hung_event (w_tx w)
      then upd_tx (\<lambda>x. x\<lparr> tx_hung_event := False \<rparr>) (act Act_timer_cancel w) else w)"

section \<open>The busy flag and the pending requests\<close>

text \<open>Setting the current request aborts when there is one already.\<close>

definition set_currRequest :: "nat option \<Rightarrow> tm_world \<Rightarrow> tm_world option" where
  "set_currRequest msg w =
     (if tx_currRequest (w_tx w) \<noteq> None then None
      else Some (upd_tx (\<lambda>x. x\<lparr> tx_currRequest := msg \<rparr>) w))"

definition delete_currRequest :: "tm_world \<Rightarrow> tm_world option" where
  "delete_currRequest w =
     do { w1 \<leftarrow> (case tx_currRequest (w_tx w) of None \<Rightarrow> Some w | Some h \<Rightarrow> msg_delete h w);
          Some (upd_tx (\<lambda>x. x\<lparr> tx_currRequest := None \<rparr>) w1) }"

definition inc_cleanup :: "tm_world \<Rightarrow> tm_world" where
  "inc_cleanup w = upd_tx (\<lambda>x. x\<lparr> tx_cleanup_sem := tx_cleanup_sem x + 1 \<rparr>) w"

definition dec_cleanup :: "tm_world \<Rightarrow> bool \<times> tm_world" where
  "dec_cleanup w =
     (tx_cleanup_sem (w_tx w) = 1,
      if tx_cleanup_sem (w_tx w) > 0 then upd_tx (\<lambda>x. x\<lparr> tx_cleanup_sem := tx_cleanup_sem x - 1 \<rparr>) w else w)"

definition set_transactionBusy :: "nat option \<Rightarrow> tm_world \<Rightarrow> (bool \<times> tm_world) option" where
  "set_transactionBusy msg w =
     (if \<not> tx_transactionBusy (w_tx w)
      then do { w1 \<leftarrow> set_currRequest msg (upd_tx (\<lambda>x. x\<lparr> tx_transactionBusy := True \<rparr>) w); Some (True, w1) }
      else if \<not> tx_Thread (w_tx w) \<and> tx_currRequest (w_tx w) = None then None
      else Some (False, w))"

definition pop_pending :: "tm_world \<Rightarrow> nat option \<times> tm_world" where
  "pop_pending w =
     (let (r, q) = deque_pop_end (tx_PendingRequestQ (w_tx w))
      in (r, upd_tx (\<lambda>x. x\<lparr> tx_PendingRequestQ := q \<rparr>) w))"

text \<open>
  The loop of \<^verbatim>\<open>reset_transactionBusy\<close> when the transaction is cleaned up.  Every iteration
  takes one element off the queue, so it runs as often as the queue is long.
\<close>

fun cleanup_pending :: "nat \<Rightarrow> tm_world \<Rightarrow> tm_world option" where
  "cleanup_pending 0 w = Some w"
| "cleanup_pending (Suc n) w =
     (case pop_pending w of
        (None, w1) \<Rightarrow> Some w1
      | (Some h, w1) \<Rightarrow>
          do { w2 \<leftarrow> msg_reply_if_pending h
                       (if tx_isAborting (w_tx w1) then FEABORTEDTRANSID else FEENDEDTRANSID) w1;
               w3 \<leftarrow> msg_delete h w2;
               cleanup_pending n w3 })"

text \<open>The loop over the pending requests: it cleans them up, or makes the first one current.\<close>

definition serve_pending :: "tm_env \<Rightarrow> bool \<Rightarrow> tm_world \<Rightarrow> tm_world option" where
  "serve_pending e cleanupPending w =
     (if cleanupPending then cleanup_pending (length (dq_deque (tx_PendingRequestQ (w_tx w)))) w
      else case pop_pending w of
             (None, w1) \<Rightarrow> Some w1
           | (Some h, w1) \<Rightarrow> do { w2 \<leftarrow> eventQ_push e (Some h) False w1; set_currRequest (Some h) w2 })"

definition reset_transactionBusy :: "tm_env \<Rightarrow> bool \<Rightarrow> tm_world \<Rightarrow> (bool \<times> tm_world) option" where
  "reset_transactionBusy e cleanupPending w =
     (if tx_transactionBusy (w_tx w)
      then do { w1 \<leftarrow> delete_currRequest w;
                w2 \<leftarrow> serve_pending e cleanupPending w1;
                let w3 = (if tx_currRequest (w_tx w2) = None
                          then upd_tx (\<lambda>x. x\<lparr> tx_transactionBusy := False \<rparr>) w2 else w2);
                Some (tx_transactionBusy (w_tx w3), w3) }
      else Some (False, w))"

definition txn_object_good :: "txid \<Rightarrow> nat \<Rightarrow> tm_world \<Rightarrow> (bool \<times> tm_world) option" where
  "txn_object_good transid h w =
     (if \<not> tx_cleaning_up (w_tx w) \<and> tx_in_use (w_tx w)
         \<and> txid_seq_num (tx_transid (w_tx w)) = txid_seq_num transid
      then Some (True, w)
      else do { w1 \<leftarrow> msg_reply_error h FEINVTRANSID w; w2 \<leftarrow> msg_delete h w1; Some (False, w2) })"

definition queueToTransaction :: "tm_env \<Rightarrow> txid \<Rightarrow> nat \<Rightarrow> tm_world \<Rightarrow> (bool \<times> tm_world) option" where
  "queueToTransaction e transid h w =
     do { (good, w1) \<leftarrow> txn_object_good transid h w;
          if good then do { w2 \<leftarrow> eventQ_push e (Some h) (tx_Thread (w_tx w1)) w1; Some (True, w2) }
          else Some (False, w1) }"

definition PendingRequestQ_push :: "nat \<Rightarrow> tm_world \<Rightarrow> tm_world" where
  "PendingRequestQ_push h w =
     (let w1 = upd_tx (\<lambda>x. x\<lparr> tx_PendingRequestQ := deque_push h (tx_PendingRequestQ x) \<rparr>) w
      in if tx_Thread (w_tx w1) then w1 else push_disassociated w1)"

text \<open>
  \<^verbatim>\<open>reply_to_queuedRequests\<close>: its two loops, each of which takes one message off its queue in
  every iteration, and the reply to the current request.
\<close>

fun flush_eventQ :: "nat \<Rightarrow> int \<Rightarrow> tm_world \<Rightarrow> tm_world option" where
  "flush_eventQ 0 err w = do { (_, w1) \<leftarrow> eventQ_pop w; Some w1 }"
| "flush_eventQ (Suc n) err w =
     do { (r, w1) \<leftarrow> eventQ_pop w;
          case r of
            None \<Rightarrow> Some w1
          | Some h \<Rightarrow>
              do { w2 \<leftarrow> msg_reply_if_pending h err w1;
                   let w3 = (if tx_currRequest (w_tx w2) = Some h
                             then upd_tx (\<lambda>x. x\<lparr> tx_currRequest := None \<rparr>) w2 else w2);
                   w4 \<leftarrow> msg_delete h w3;
                   flush_eventQ n err w4 } }"

fun flush_pending :: "nat \<Rightarrow> int \<Rightarrow> tm_world \<Rightarrow> tm_world option" where
  "flush_pending 0 err w = Some w"
| "flush_pending (Suc n) err w =
     (case pop_pending w of
        (None, w1) \<Rightarrow> Some w1
      | (Some h, w1) \<Rightarrow> do { w2 \<leftarrow> msg_reply_error h err w1; w3 \<leftarrow> msg_delete h w2; flush_pending n err w3 })"

definition reply_to_queuedRequests :: "int \<Rightarrow> tm_world \<Rightarrow> tm_world option" where
  "reply_to_queuedRequests err w =
     do { w1 \<leftarrow> flush_eventQ (length (dq_deque (tx_eventQ (w_tx w)))) err w;
          w2 \<leftarrow> flush_pending (length (dq_deque (tx_PendingRequestQ (w_tx w1)))) err w1;
          case tx_currRequest (w_tx w2) of
            None \<Rightarrow> Some w2
          | Some h \<Rightarrow>
              do { p \<leftarrow> msg_replyPending h w2;
                   if p then do { w3 \<leftarrow> msg_reply_error h err w2; delete_currRequest w3 } else Some w2 } }"

section \<open>Requests served for any transaction\<close>

text \<open>
  \<^verbatim>\<open>req_join\<close>.  Whatever error the request ran into, the final \<^verbatim>\<open>reply\<close> carries \<^const>\<open>FEOK\<close>.
\<close>

definition join_partic :: "int \<Rightarrow> int \<Rightarrow> tm_world \<Rightarrow> tm_world option" where
  "join_partic pid nid w =
     do { (_, x) \<leftarrow> add_app_partic pid nid
                      ((w_tx w)\<lparr> tx_num_active_partic := tx_num_active_partic (w_tx w) + 1 \<rparr>);
          Some (w\<lparr> w_tx := x \<rparr>) }"

definition req_join :: "nat \<Rightarrow> tm_world \<Rightarrow> (bool \<times> tm_world) option" where
  "req_join h w =
     do { m \<leftarrow> msg_at h w;
          w1 \<leftarrow> (if tx_state w \<noteq> NOTX \<and> tx_state w \<noteq> BEGINNING \<and> tx_state w \<noteq> ACTIVE
                 then msg_responseError h FEENDEDTRANSID w
                 else do { w0 \<leftarrow> msg_responseError h FEOK w;
                           if ms_coord_role m
                           then if tx_ender_pid (w_tx w0) = - 1
                                then join_partic (ms_pid m) (ms_nid m)
                                       (upd_tx (\<lambda>x. x\<lparr> tx_ender_pid := ms_pid m \<rparr>) w0)
                                else msg_responseError h FETXNOTSUSPENDED w0
                           else join_partic (ms_pid m) (ms_nid m) w0 });
          w2 \<leftarrow> msg_update h (\<lambda>m. m\<lparr> ms_rspTm_pid := gi_nid (w_info w1) \<rparr>) w1;
          w3 \<leftarrow> msg_reply_error h FEOK w2;
          Some (False, w3) }"

definition status_of :: "tx \<Rightarrow> TM_TX_STATE" where
  "status_of x =
     (if tx_tx_state x = BEGINNING \<or> tx_tx_state x = NOTX then ACTIVE
      else if tx_isAborting x \<and> tx_tx_state x \<noteq> ABORTING \<and> tx_tx_state x \<noteq> ABORTING_PART2
              \<and> tx_tx_state x \<noteq> ACTIVE then ABORTED
      else tx_tx_state x)"

definition req_status :: "nat \<Rightarrow> tm_world \<Rightarrow> (bool \<times> tm_world) option" where
  "req_status h w =
     do { w1 \<leftarrow> msg_update h (\<lambda>m. m\<lparr> ms_rspStatus := tx_state_code (status_of (w_tx w)) \<rparr>) w;
          w2 \<leftarrow> msg_reply_error h FEOK w1;
          Some (False, w2) }"

definition req_suspend :: "nat \<Rightarrow> tm_world \<Rightarrow> (bool \<times> tm_world) option" where
  "req_suspend h w =
     do { m \<leftarrow> msg_at h w;
          w1 \<leftarrow> (if tx_state w = NOTX then msg_responseError h FENOTRANSID w
                 else let (removed, x) = remove_app_partic (ms_pid m) (ms_nid m) (w_tx w)
                      in if removed
                         then msg_responseError h FEOK
                                (w\<lparr> w_tx := x\<lparr> tx_num_active_partic := tx_num_active_partic x - 1,
                                                tx_ender_pid :=
                                                  (if \<not> ms_coord_role m \<and> ms_pid m = tx_ender_pid x
                                                   then - 1 else tx_ender_pid x) \<rparr> \<rparr>)
                         else msg_responseError h FENOTRANSID w);
          w2 \<leftarrow> msg_reply h w1;
          Some (False, w2) }"

text \<open>The states in which a branch may still join.\<close>

definition accepts_branches :: "TM_TX_STATE \<Rightarrow> bool" where
  "accepts_branches s =
     (s = ACTIVE \<or> s = IDLE \<or> s = ABORTING \<or> s = COMMITTING \<or> s = PREPARING \<or> s = PREPARED
      \<or> s = HUNGABORTED \<or> s = ABORTING_PART2)"

text \<open>Flags the TSE knows about are added, and recorded in the audit trail when they are new.\<close>

definition merge_TT_flags :: "64 word \<Rightarrow> tm_world \<Rightarrow> bool \<times> tm_world" where
  "merge_TT_flags flags w =
     (let tt = tx_TT_flags (w_tx w) OR flags
      in if tt \<noteq> tx_TT_flags (w_tx w)
         then let w1 = upd_tx (tx_set_TT_flags tt) w
              in (True, write_trans_state (tx_state w1) (tx_abort_flags (w_tx w1)) w1)
         else (False, w))"

text \<open>The response of \<^verbatim>\<open>register_branch\<close> to an \<^verbatim>\<open>ax_reg\<close>.\<close>

definition register_reply :: "nat \<Rightarrow> nat \<Rightarrow> bool \<Rightarrow> int \<Rightarrow> tm_world \<Rightarrow> (int \<times> tm_world) option" where
  "register_reply h i active err w =
     do { m \<leftarrow> msg_at h w;
          w1 \<leftarrow> msg_update h (\<lambda>m. m\<lparr> ms_rspXid := br_xid (branch_at i w) \<rparr>) w;
          let (changed, w2) = merge_TT_flags (ms_flags m) w1;
          w3 \<leftarrow> msg_update h (\<lambda>m. m\<lparr> ms_rspFlags := tx_TT_flags (w_tx w2) \<rparr>) w2;
          let err' = (if \<not> active \<and> \<not> changed then FEINVTRANSID else err);
          w4 \<leftarrow> msg_responseError h err' w3;
          Some (err', w4) }"

text \<open>
  \<^verbatim>\<open>register_branch\<close>; the message is \<^const>\<open>None\<close> when a doom request registers the branch.
  The branch lock and the transaction lock are not part of the state.
\<close>

definition register_branch :: "int \<Rightarrow> nat option \<Rightarrow> tm_world \<Rightarrow> (int \<times> tm_world) option" where
  "register_branch rmid msg w =
     (case tse_return_slot rmid (w_tse w) of
        None \<Rightarrow> Some (FEINVTRANSID, w)
      | Some i \<Rightarrow>
          (let active = accepts_branches (tx_state w);
               (added, t) = tse_register (tx_transid (w_tx w)) rmid (w_tse w);
               w1 = (if active then w\<lparr> w_tse := t \<rparr> else w);
               err = (if active \<and> \<not> added then FEINVTRANSID else FEOK)
           in case msg of
                None \<Rightarrow> Some (if \<not> active then FEINVTRANSID else err, w1)
              | Some h \<Rightarrow> register_reply h i active err w1))"

definition req_ax_reg :: "nat \<Rightarrow> tm_world \<Rightarrow> (bool \<times> tm_world) option" where
  "req_ax_reg h w =
     do { m \<leftarrow> msg_at h w;
          (err, w1) \<leftarrow> register_branch (ms_rmid m) (Some h) w;
          w2 \<leftarrow> msg_update h (\<lambda>m. m\<lparr> ms_rspIncarnation_num := gi_incarnation_num (w_info w1),
                                    ms_rspLeadTM_nid := gi_lead_tm_nid (w_info w1) \<rparr>) w1;
          w3 \<leftarrow> msg_reply_error h err w2;
          Some (False, w3) }"

definition req_registerRegion :: "tm_env \<Rightarrow> nat \<Rightarrow> tm_world \<Rightarrow> (bool \<times> tm_world) option" where
  "req_registerRegion e h w =
     (let (err, w1) = registerRegion e w
      in do { w2 \<leftarrow> msg_reply_if_pending h err w1;
              (_, w3) \<leftarrow> reset_transactionBusy e False w2;
              Some (False, w3) })"

section \<open>Requests the transaction manager queues itself\<close>

definition queue_internal :: "tm_env \<Rightarrow> tx_msg \<Rightarrow> tm_world \<Rightarrow> (int \<times> tm_world) option" where
  "queue_internal e m w =
     (let (h, w1) = msg_new m w
      in do { (_, w2) \<leftarrow> queueToTransaction e (tx_transid (w_tx w1)) h w1; Some (FEOK, w2) })"

definition internal_abortTrans :: "tm_env \<Rightarrow> bool \<Rightarrow> tm_world \<Rightarrow> (int \<times> tm_world) option" where
  "internal_abortTrans e takeover_or_shutdown w =
     queue_internal e ((msg_internal TXINTERNAL_ROLLBACK)
                         \<lparr> ms_takeover_or_shutdown := takeover_or_shutdown \<rparr>) w"

definition redrive_rollback :: "tm_env \<Rightarrow> tm_world \<Rightarrow> (int \<times> tm_world) option" where
  "redrive_rollback e w = queue_internal e (msg_internal TXINTERNAL_REDRIVEROLLBACK) w"

definition redrive_commit :: "tm_env \<Rightarrow> tm_world \<Rightarrow> (int \<times> tm_world) option" where
  "redrive_commit e w = queue_internal e (msg_internal TXINTERNAL_REDRIVECOMMIT) w"

definition schedule_redrive_sync :: "tm_env \<Rightarrow> tm_world \<Rightarrow> tm_world option" where
  "schedule_redrive_sync e w =
     (let (h, w1) = msg_new (msg_internal TXINTERNAL_REDRIVESYNC) w in eventQ_push e (Some h) False w1)"

definition hung_redrive :: "tm_env \<Rightarrow> tm_world \<Rightarrow> tm_world option" where
  "hung_redrive e w =
     (case tx_state w of
        HUNGABORTED \<Rightarrow> map_option snd (queue_internal e (msg_internal TXINTERNAL_REDRIVEROLLBACK) w)
      | HUNGCOMMITTED \<Rightarrow> map_option snd (queue_internal e (msg_internal TXINTERNAL_REDRIVECOMMIT) w)
      | _ \<Rightarrow> Some w)"

definition associate_tx :: "tm_env \<Rightarrow> tm_world \<Rightarrow> bool \<times> tm_world" where
  "associate_tx e w =
     (if gi_threadModel (w_info w) = TH_TRANSACTION
      then (env_new_thread e (w_clock w), tick w) else (False, w))"

definition recover_tx :: "tm_env \<Rightarrow> TM_MSG_TYPE \<Rightarrow> tm_world \<Rightarrow> tm_world option" where
  "recover_tx e ty w =
     (let (h, w1) = msg_new (msg_internal ty) w;
          (associated, w2) = associate_tx e w1
      in do { w3 \<leftarrow> (case ty of
                       TXINTERNAL_REDRIVEROLLBACK \<Rightarrow> Some (set_state ABORTING w2)
                     | TXINTERNAL_REDRIVECOMMIT \<Rightarrow> Some (set_state COMMITTING w2)
                     | _ \<Rightarrow> None);
              (free, w4) \<leftarrow> set_transactionBusy (Some h) w3;
              if free then eventQ_push e (Some h) associated w4 else None })"

section \<open>What the queue operations do\<close>

lemma eventQ_push_trace: "eventQ_push e m a w = Some w' \<Longrightarrow> w_trace w' = w_trace w"
  by (auto simp: eventQ_push_def Let_def push_disassociated_def split: option.splits if_splits)

lemma delete_currRequest_trace: "delete_currRequest w = Some w' \<Longrightarrow> w_trace w' = w_trace w"
  by (auto simp: delete_currRequest_def bind_Some_iff split: option.splits dest: msg_delete_trace)

lemma pop_pending_trace: "pop_pending w = (r, w') \<Longrightarrow> w_trace w' = w_trace w"
  by (auto simp: pop_pending_def Let_def split: prod.splits)

lemma set_currRequest_trace: "set_currRequest m w = Some w' \<Longrightarrow> w_trace w' = w_trace w"
  by (auto simp: set_currRequest_def split: if_splits)

lemma cleanup_pending_trace:
  "cleanup_pending n w = Some w' \<Longrightarrow> trace_ext (reply_of (\<lambda>err. err \<noteq> FEOK)) w w'"
proof (induction n arbitrary: w)
  case (Suc n)
  obtain r w1 where p: "pop_pending w = (r, w1)" by force
  note w1 = pop_pending_trace [OF p]
  show ?case
  proof (cases r)
    case None
    with Suc.prems p w1 show ?thesis by (simp add: trace_ext_def)
  next
    case (Some h)
    with Suc.prems p obtain w2 w3 where
      r: "msg_reply_if_pending h (if tx_isAborting (w_tx w1) then FEABORTEDTRANSID else FEENDEDTRANSID) w1 = Some w2"
      and d: "msg_delete h w2 = Some w3" and l: "cleanup_pending n w3 = Some w'"
      by (auto simp: bind_Some_iff)
    have "trace_ext (reply_of (\<lambda>err. err \<noteq> FEOK)) w1 w2"
      by (rule trace_ext_mono [OF msg_reply_if_pending_trace [OF r]]) (auto simp: reply_of_def)
    then have "trace_ext (reply_of (\<lambda>err. err \<noteq> FEOK)) w w3"
      using w1 msg_delete_trace [OF d] by (simp add: trace_ext_def)
    from trace_ext_trans [OF this Suc.IH [OF l]] show ?thesis .
  qed
qed simp

lemma reset_transactionBusy_trace:
  assumes "reset_transactionBusy e c w = Some (b, w')"
  shows "trace_ext (reply_of (\<lambda>err. err \<noteq> FEOK)) w w'"
proof (cases "tx_transactionBusy (w_tx w)")
  case True
  with assms obtain w1 w2 where d: "delete_currRequest w = Some w1"
    and r: "serve_pending e c w1 = Some w2" and w': "w_trace w' = w_trace w2"
    by (auto simp: reset_transactionBusy_def bind_Some_iff Let_def split: if_splits)
  have "trace_ext (reply_of (\<lambda>err. err \<noteq> FEOK)) w1 w2"
  proof (cases c)
    case True
    with r cleanup_pending_trace show ?thesis by (simp add: serve_pending_def)
  next
    case False
    with r have "w_trace w2 = w_trace w1"
      by (auto simp: serve_pending_def bind_Some_iff split: prod.splits option.splits
          dest!: pop_pending_trace eventQ_push_trace set_currRequest_trace)
    then show ?thesis by (simp add: trace_ext_def)
  qed
  with delete_currRequest_trace [OF d] w' show ?thesis by (simp add: trace_ext_def)
qed (use assms in \<open>simp add: reset_transactionBusy_def\<close>)

end
