(* ===== verification/Tm_TxInfo.thy ===== *)
theory Tm_TxInfo
  imports Tm_TxBase
begin

text \<open>
  The transaction state machine and the requests that drive it, \<^verbatim>\<open>TM_TX_Info\<close>
  (\<^verbatim>\<open>tmtx.cpp\<close>).  \<^verbatim>\<open>state_change\<close> is a loop over events around loops over states; the commit,
  rollback and forget loops are functions of their own whose termination rests on a
  rank of the transaction state.  The test points of debug builds are left out.
\<close>

section \<open>Helpers of the state machine\<close>

datatype TX_EVENT =
    TX_BEGIN | TX_COMMIT | TX_ROLLBACK | TX_FORGET | TX_REDRIVE_COMMIT | TX_REDRIVE_ROLLBACK
  | TX_BEGIN_COMPLETE | TX_SUSPEND | TX_JOIN | TX_END | TX_PREPARE | TX_TERMINATE

definition state_change_abort_set :: "nat \<Rightarrow> int \<Rightarrow> tm_world \<Rightarrow> tm_world option" where
  "state_change_abort_set msg err w =
     msg_reply_if_pending msg err
       (inc_tm_initiated_aborts (upd_tx (\<lambda>x. x\<lparr> tx_tx_state := ABORTING, tx_tm_aborted := True \<rparr>) w))"

text \<open>A transaction whose outcome could not be delivered is counted and retried later.\<close>

definition hung_aborted :: "tm_world \<Rightarrow> tm_world" where
  "hung_aborted w = addHungTimerEvent TXINTERNAL_REDRIVEROLLBACK (inc_tx_hung_count (set_state HUNGABORTED w))"

definition state_change_abort_helper :: "tm_env \<Rightarrow> nat \<Rightarrow> tm_world \<Rightarrow> tm_world option" where
  "state_change_abort_helper e msg w =
     do { let w1 = upd_tx (\<lambda>x. x\<lparr> tx_wrote_trans_state := True \<rparr>) w;
          (err, w2) \<leftarrow> rollback_branches e msg (tx_tm_aborted (w_tx w1) \<or> tx_tse_aborted (w_tx w1)) w1;
          Some (if err = XA_OK then set_state ABORTED w2
                else if is_heuristic err then set_state FORGETTING_HEUR w2
                else hung_aborted w2) }"

definition hung_committed :: "tm_env \<Rightarrow> tm_world \<Rightarrow> tm_world option" where
  "hung_committed e w =
     do { (_, w1) \<leftarrow> reset_transactionBusy e False (inc_tx_hung_count (set_state HUNGCOMMITTED w));
          Some (addHungTimerEvent TXINTERNAL_REDRIVECOMMIT w1) }"

text \<open>The commit record is written before the first branch is told to commit.\<close>

definition write_commit_record :: "tm_world \<Rightarrow> tm_world" where
  "write_commit_record w =
     (if \<not> tx_wrote_trans_state (w_tx w)
      then upd_tx (\<lambda>x. x\<lparr> tx_wrote_trans_state := True \<rparr>)
             (write_trans_state COMMITTED (tx_abort_flags (w_tx w)) w)
      else w)"

text \<open>
  All branches have committed: the early reply of a commit without TSE branches, then the wait
  for the HBase library.
\<close>

definition commit_resolved :: "tm_env \<Rightarrow> nat \<Rightarrow> tm_world \<Rightarrow> tm_world option" where
  "commit_resolved e msg w =
     do { let w1 = set_state FORGETTING w;
          w2 \<leftarrow> (if gi_earlyCommitReply (w_info w1) then msg_reply_if_pending msg FEOK w1 else Some w1);
          Some (snd (completeRequest_branches e w2)) }"

definition state_change_commit_helper :: "tm_env \<Rightarrow> nat \<Rightarrow> bool \<Rightarrow> tm_world \<Rightarrow> tm_world option" where
  "state_change_commit_helper e msg read_only w =
     (if read_only
      then do { w1 \<leftarrow> msg_reply_if_pending msg FEOK w; Some (set_state FORGETTING w1) }
      else do { (err, w1) \<leftarrow> commit_branches e msg (write_commit_record w);
                if err = XA_OK then commit_resolved e msg w1
                else if is_heuristic err then Some (set_state FORGETTING_HEUR w1)
                else hung_committed e w1 })"

text \<open>
  The result says whether the commit goes on.  The case of a conflict has no \<^verbatim>\<open>break\<close> and
  runs into the default.
\<close>

definition state_change_prepare_helper :: "tm_env \<Rightarrow> nat \<Rightarrow> tm_world \<Rightarrow> (bool \<times> tm_world) option" where
  "state_change_prepare_helper e msg w =
     do { (err, w1) \<leftarrow> prepare_branches e w;
          if tx_mark_for_rollback (w_tx w1)
          then do { w2 \<leftarrow> msg_responseError msg
                            (if err = COMMIT_CONFLICT then FELOCKED else FEABORTEDTRANSID) w1;
                    Some (False, inc_tm_initiated_aborts
                                   (upd_tx (\<lambda>x. x\<lparr> tx_tx_state := ABORTING, tx_tse_aborted := True \<rparr>) w2)) }
          else if err = XA_RDONLY \<or> err = XA_OK then Some (True, set_state COMMITTING w1)
          else if err = XAER_RMFAIL
          then do { w2 \<leftarrow> state_change_abort_set msg FEDEVICEDOWNFORTMF w1; Some (False, w2) }
          else if err = COMMIT_CONFLICT
          then do { w2 \<leftarrow> state_change_abort_set msg FELOCKED w1;
                    w3 \<leftarrow> state_change_abort_set msg FEABORTEDTRANSID w2; Some (False, w3) }
          else do { w2 \<leftarrow> state_change_abort_set msg FEABORTEDTRANSID w1; Some (False, w2) } }"

text \<open>The write of a new state that is also sent to the other transaction managers in sync mode.\<close>

definition enter_state :: "TM_TX_STATE \<Rightarrow> tm_world \<Rightarrow> tm_world" where
  "enter_state s w = (if sync_mode w then sync_write s w else set_state s w)"

section \<open>The commit loop\<close>

text \<open>
  How an iteration of one of the inner loops ends: it goes round again, it leaves the
  state machine, or it leaves the loop with the event \<^verbatim>\<open>TX_ROLLBACK\<close>.
\<close>

datatype loop_exit = Again | Leave | Drive_rollback

definition abort_exit :: "tm_world \<Rightarrow> loop_exit" where
  "abort_exit w = (if sync_mode w then Drive_rollback else Leave)"

text \<open>The state ACTIVE: \<^verbatim>\<open>lv_error\<close> keeps its value when the transaction is marked for rollback.\<close>

definition commit_active ::
  "tm_env \<Rightarrow> TX_EVENT \<Rightarrow> nat \<Rightarrow> int \<Rightarrow> tm_world \<Rightarrow> ((loop_exit \<times> int) \<times> tm_world) option" where
  "commit_active e event msg err w =
     do { (err', w1) \<leftarrow> (if \<not> tx_mark_for_rollback (w_tx w) then end_branches e w else Some (err, w));
          if event = TX_COMMIT \<and> err' = XA_OK \<and> \<not> tx_mark_for_rollback (w_tx w1)
          then Some ((Again, err'), set_state PREPARING w1)
          else do { w2 \<leftarrow> state_change_abort_set msg FEABORTEDTRANSID w1;
                    Some ((abort_exit w2, err'), w2) } }"

definition commit_preparing ::
  "tm_env \<Rightarrow> nat \<Rightarrow> int \<Rightarrow> tm_world \<Rightarrow> ((loop_exit \<times> int) \<times> tm_world) option" where
  "commit_preparing e msg err w =
     do { (continue, w1) \<leftarrow> state_change_prepare_helper e msg w;
          if \<not> continue
          then Some ((abort_exit w1, err), if sync_mode w1 then set_state ABORTING w1 else w1)
          else let (n, w2) = num_rm_partic e w1
               in Some ((Again, err),
                        if n = 0 then upd_tx (\<lambda>x. x\<lparr> tx_tx_state := COMMITTED, tx_read_only := True \<rparr>) w2
                        else upd_tx (\<lambda>x. x\<lparr> tx_read_only := False \<rparr>) w2) }"

definition commit_forgetting :: "tm_world \<Rightarrow> tm_world" where
  "commit_forgetting w =
     set_state FORGOTTEN
       (if \<not> tx_read_only (w_tx w)
        then upd_tx (\<lambda>x. x\<lparr> tx_wrote_trans_state := True \<rparr>)
               (write_trans_state FORGOTTEN (tx_abort_flags (w_tx w)) w)
        else w)"

definition commit_step ::
  "tm_env \<Rightarrow> TX_EVENT \<Rightarrow> nat \<Rightarrow> int \<Rightarrow> tm_world \<Rightarrow> ((loop_exit \<times> int) \<times> tm_world) option" where
  "commit_step e event msg err w =
     (case tx_state w of
        ACTIVE \<Rightarrow> commit_active e event msg err w
      | PREPARING \<Rightarrow> commit_preparing e msg err w
      | COMMITTING \<Rightarrow> Some ((Again, err), enter_state COMMITTED w)
      | COMMITTED \<Rightarrow> do { w1 \<leftarrow> state_change_commit_helper e msg (tx_read_only (w_tx w)) w;
                          Some ((Again, err), w1) }
      | FORGETTING_HEUR \<Rightarrow> do { (_, w1) \<leftarrow> forget_heur_branches e w; Some ((Again, err), set_state FORGOTTEN w1) }
      | FORGOTTEN_HEUR \<Rightarrow> do { (_, w1) \<leftarrow> forget_heur_branches e w; Some ((Again, err), set_state FORGOTTEN w1) }
      | FORGETTING \<Rightarrow> Some ((Again, err), commit_forgetting w)
      | FORGOTTEN \<Rightarrow> Some ((Leave, err), enter_state FORGOTTEN w)
      | HUNGCOMMITTED \<Rightarrow> Some ((Leave, err), w)
      | _ \<Rightarrow> None)"

fun commit_rank :: "TM_TX_STATE \<Rightarrow> nat" where
  "commit_rank ACTIVE = 6"
| "commit_rank PREPARING = 5"
| "commit_rank COMMITTING = 4"
| "commit_rank COMMITTED = 3"
| "commit_rank FORGETTING_HEUR = 2"
| "commit_rank FORGOTTEN_HEUR = 2"
| "commit_rank FORGETTING = 2"
| "commit_rank _ = 1"

lemma state_frames [simp]:
  "tx_state (enter_state s w) = s" "tx_state (addHungTimerEvent ty w) = tx_state w"
  "tx_state (hung_aborted w) = HUNGABORTED" "tx_state (inc_tx_hung_count w) = tx_state w"
  "tx_state (inc_tm_initiated_aborts w) = tx_state w" "tx_state (commit_forgetting w) = FORGOTTEN"
  "w_tx (push_disassociated w) = w_tx w" "w_tx (snd (completeRequest_branches e w)) = w_tx w"
  by (auto simp: enter_state_def sync_write_def addHungTimerEvent_def addTimerEvent_def hung_aborted_def
      inc_tx_hung_count_def inc_tm_initiated_aborts_def commit_forgetting_def push_disassociated_def
      completeRequest_branches_def hbase_completeRequest_branches_def hbase_do_def Let_def
      split: TM_TX_STATE.splits)

lemma msg_frames:
  "msg_update h f w = Some w' \<Longrightarrow> w_tx w' = w_tx w"
  "msg_responseError h err w = Some w' \<Longrightarrow> w_tx w' = w_tx w"
  "msg_delete h w = Some w' \<Longrightarrow> w_tx w' = w_tx w"
  "msg_reply h w = Some w' \<Longrightarrow> w_tx w' = w_tx w"
  "msg_reply_error h err w = Some w' \<Longrightarrow> w_tx w' = w_tx w"
  "msg_reply_if_pending h err w = Some w' \<Longrightarrow> w_tx w' = w_tx w"
  by (auto simp: msg_update_def msg_responseError_def msg_delete_def msg_reply_def msg_reply_error_def
      msg_reply_if_pending_def bind_Some_iff split: option.splits if_splits)

lemma abort_set_state: "state_change_abort_set msg err w = Some w' \<Longrightarrow> tx_state w' = ABORTING"
  by (auto simp: state_change_abort_set_def inc_tm_initiated_aborts_def dest!: msg_frames)

lemma eventQ_push_state: "eventQ_push e m a w = Some w' \<Longrightarrow> tx_state w' = tx_state w"
  by (auto simp: eventQ_push_def Let_def split: option.splits if_splits)

lemma reset_transactionBusy_state:
  assumes "reset_transactionBusy e False w = Some (b, w')"
  shows "tx_state w' = tx_state w"
proof -
  have "delete_currRequest v = Some v' \<Longrightarrow> tx_state v' = tx_state v" for v v'
    by (auto simp: delete_currRequest_def bind_Some_iff split: option.splits dest: msg_frames)
  moreover have "pop_pending v = (r, v') \<Longrightarrow> tx_state v' = tx_state v" for v v' r
    by (auto simp: pop_pending_def Let_def split: prod.splits)
  moreover have "set_currRequest m v = Some v' \<Longrightarrow> tx_state v' = tx_state v" for m v v'
    by (auto simp: set_currRequest_def split: if_splits)
  ultimately show ?thesis
    using assms eventQ_push_state
    by (fastforce simp: reset_transactionBusy_def serve_pending_def Let_def bind_Some_iff
        split: if_splits prod.splits option.splits)
qed

lemma hung_committed_state: "hung_committed e w = Some w' \<Longrightarrow> tx_state w' = HUNGCOMMITTED"
  by (auto simp: hung_committed_def bind_Some_iff dest!: reset_transactionBusy_state)

lemma commit_helper_state:
  assumes "state_change_commit_helper e msg ro w = Some w'"
  shows "tx_state w' \<in> {FORGETTING, FORGETTING_HEUR, HUNGCOMMITTED}"
  using assms
  by (auto simp: state_change_commit_helper_def commit_resolved_def bind_Some_iff Let_def
      split: if_splits dest: msg_frames hung_committed_state)

lemma prepare_helper_state:
  assumes "state_change_prepare_helper e msg w = Some (go, w')"
  shows "tx_state w' = (if go then COMMITTING else ABORTING)"
  using assms
  by (auto simp: state_change_prepare_helper_def bind_Some_iff split: if_splits dest: msg_frames abort_set_state)

lemma commit_step_rank:
  assumes "commit_step e event msg err w = Some ((Again, err'), w')"
  shows "commit_rank (tx_state w') < commit_rank (tx_state w)"
proof (cases "tx_state w")
  case PREPARING
  with assms obtain w1 where h: "state_change_prepare_helper e msg w = Some (True, w1)"
    and w': "tx_state w' = COMMITTED \<or> tx_state w' = tx_state w1"
    by (auto simp: commit_step_def commit_preparing_def bind_Some_iff abort_exit_def num_rm_partic_def
        hbase_num_rm_partic_def hbase_ask_def Let_def split: if_splits prod.splits)
  from prepare_helper_state [OF h] w' show ?thesis by (auto simp: PREPARING)
next
  case COMMITTED
  with assms show ?thesis
    by (auto simp: commit_step_def bind_Some_iff dest!: commit_helper_state)
qed (use assms in \<open>auto simp: commit_step_def commit_active_def abort_exit_def bind_Some_iff split: if_splits\<close>)

function commit_loop ::
  "tm_env \<Rightarrow> TX_EVENT \<Rightarrow> nat \<Rightarrow> int \<Rightarrow> tm_world \<Rightarrow> ((bool \<times> int) \<times> tm_world) option" where
  "commit_loop e event msg err w =
     (case commit_step e event msg err w of
        None \<Rightarrow> None
      | Some ((Again, err'), w') \<Rightarrow> commit_loop e event msg err' w'
      | Some ((Leave, err'), w') \<Rightarrow> Some ((False, err'), w')
      | Some ((Drive_rollback, err'), w') \<Rightarrow> Some ((True, err'), w'))"
  by pat_completeness auto
termination
  by (relation "measure (\<lambda>(e, event, msg, err, w). commit_rank (tx_state w))")
    (auto intro: commit_step_rank)

declare commit_loop.simps [simp del]

section \<open>The rollback loop\<close>

definition rollback_step ::
  "tm_env \<Rightarrow> nat \<Rightarrow> int \<Rightarrow> tm_world \<Rightarrow> ((loop_exit \<times> int) \<times> tm_world) option" where
  "rollback_step e msg err w =
     (case tx_state w of
        BEGINNING \<Rightarrow> do { (err', w1) \<leftarrow> end_branches e w; Some ((Again, err'), set_state ABORTING w1) }
      | ACTIVE \<Rightarrow> do { (err', w1) \<leftarrow> end_branches e w; Some ((Again, err'), set_state ABORTING w1) }
      | ABORTING \<Rightarrow>
          (if sync_mode w then Some ((Leave, err), sync_write ABORTING_PART2 w)
           else Some ((Again, err), set_state ABORTING_PART2 w))
      | ABORTING_PART2 \<Rightarrow> do { w1 \<leftarrow> state_change_abort_helper e msg w; Some ((Again, err), w1) }
      | ABORTED \<Rightarrow> Some ((Again, err), set_state FORGETTING w)
      | FORGETTING_HEUR \<Rightarrow> do { (_, w1) \<leftarrow> forget_heur_branches e w; Some ((Again, err), set_state FORGOTTEN w1) }
      | FORGOTTEN_HEUR \<Rightarrow> do { (_, w1) \<leftarrow> forget_heur_branches e w; Some ((Again, err), set_state FORGOTTEN w1) }
      | FORGETTING \<Rightarrow> Some ((Again, err), set_state FORGOTTEN w)
      | FORGOTTEN \<Rightarrow> Some ((Leave, err), enter_state FORGOTTEN w)
      | HUNGABORTED \<Rightarrow> Some ((Leave, err), w)
      | _ \<Rightarrow> None)"

fun rollback_rank :: "TM_TX_STATE \<Rightarrow> nat" where
  "rollback_rank BEGINNING = 6"
| "rollback_rank ACTIVE = 6"
| "rollback_rank ABORTING = 5"
| "rollback_rank ABORTING_PART2 = 4"
| "rollback_rank ABORTED = 3"
| "rollback_rank FORGETTING_HEUR = 2"
| "rollback_rank FORGOTTEN_HEUR = 2"
| "rollback_rank FORGETTING = 2"
| "rollback_rank _ = 1"

lemma abort_helper_state:
  assumes "state_change_abort_helper e msg w = Some w'"
  shows "tx_state w' \<in> {ABORTED, FORGETTING_HEUR, HUNGABORTED}"
  using assms by (auto simp: state_change_abort_helper_def bind_Some_iff Let_def split: if_splits)

lemma rollback_step_rank:
  assumes "rollback_step e msg err w = Some ((Again, err'), w')"
  shows "rollback_rank (tx_state w') < rollback_rank (tx_state w)"
  using assms
  by (cases "tx_state w")
    (auto simp: rollback_step_def bind_Some_iff split: if_splits dest!: abort_helper_state)

function rollback_loop :: "tm_env \<Rightarrow> nat \<Rightarrow> int \<Rightarrow> tm_world \<Rightarrow> (int \<times> tm_world) option" where
  "rollback_loop e msg err w =
     (case rollback_step e msg err w of
        None \<Rightarrow> None
      | Some ((Again, err'), w') \<Rightarrow> rollback_loop e msg err' w'
      | Some ((Leave, err'), w') \<Rightarrow> Some (err', w')
      | Some ((Drive_rollback, err'), w') \<Rightarrow> Some (err', w'))"
  by pat_completeness auto
termination
  by (relation "measure (\<lambda>(e, msg, err, w). rollback_rank (tx_state w))")
    (auto intro: rollback_step_rank)

declare rollback_loop.simps [simp del]

section \<open>The forget loop\<close>

definition forget_step :: "tm_env \<Rightarrow> tm_world \<Rightarrow> (bool \<times> tm_world) option" where
  "forget_step e w =
     (case tx_state w of
        FORGETTING_HEUR \<Rightarrow> do { (_, w1) \<leftarrow> forget_heur_branches e w; Some (True, w1) }
      | FORGOTTEN_HEUR \<Rightarrow> Some (True, enter_state FORGOTTEN w)
      | FORGETTING \<Rightarrow> Some (True, enter_state FORGOTTEN w)
      | FORGOTTEN \<Rightarrow> Some (False, w)
      | _ \<Rightarrow> None)"

fun forget_rank :: "TM_TX_STATE \<Rightarrow> nat" where
  "forget_rank FORGETTING_HEUR = 3"
| "forget_rank FORGOTTEN_HEUR = 2"
| "forget_rank FORGETTING = 2"
| "forget_rank _ = 1"

lemma forget_heur_state:
  assumes "forget_heur_branches e w = Some (err, w')"
  shows "tx_state w' = FORGOTTEN_HEUR"
  using assms by (auto simp: forget_heur_branches_def forget_heur_with_def bind_Some_iff Let_def split: if_splits)

lemma forget_step_rank:
  assumes "forget_step e w = Some (True, w')"
  shows "forget_rank (tx_state w') < forget_rank (tx_state w)"
  using assms
  by (cases "tx_state w") (auto simp: forget_step_def bind_Some_iff dest!: forget_heur_state)

function forget_loop :: "tm_env \<Rightarrow> tm_world \<Rightarrow> tm_world option" where
  "forget_loop e w =
     (case forget_step e w of
        None \<Rightarrow> None
      | Some (True, w') \<Rightarrow> forget_loop e w'
      | Some (False, w') \<Rightarrow> Some w')"
  by pat_completeness auto
termination
  by (relation "measure (\<lambda>(e, w). forget_rank (tx_state w))") (auto intro: forget_step_rank)

declare forget_loop.simps [simp del]

section \<open>The state machine\<close>

text \<open>
  The loop \<^verbatim>\<open>do ... while (lv_error == XA_RETRY)\<close> around \<^verbatim>\<open>start_branches\<close>, with a bound on its
  iterations; one is enough because \<^verbatim>\<open>start_branches\<close> never asks for a retry.
\<close>

fun start_retry :: "nat \<Rightarrow> tm_env \<Rightarrow> nat \<Rightarrow> tm_world \<Rightarrow> (int \<times> tm_world) option" where
  "start_retry 0 e msg w = None"
| "start_retry (Suc n) e msg w =
     do { (err, w1) \<leftarrow> start_branches e msg w;
          if err = XA_RETRY then start_retry n e msg w1 else Some (err, w1) }"

definition change_begin :: "tm_env \<Rightarrow> nat \<Rightarrow> tm_world \<Rightarrow> (int \<times> tm_world) option" where
  "change_begin e msg w =
     (case tx_state w of
        NOTX \<Rightarrow>
          do { (err, w1) \<leftarrow> start_retry 1 e msg w;
               if err \<noteq> 0
               then do { w2 \<leftarrow> state_change_abort_set msg FEABORTEDTRANSID w1; Some (err, w2) }
               else Some (err, enter_state BEGINNING w1) }
      | BEGINNING \<Rightarrow> Some (XA_OK, enter_state BEGINNING w)
      | _ \<Rightarrow> None)"

definition commit_allowed :: "TM_TX_STATE \<Rightarrow> bool" where
  "commit_allowed s =
     (s = ACTIVE \<or> s = COMMITTED \<or> s = FORGOTTEN \<or> s = COMMITTING \<or> s = FORGETTING
      \<or> s = HUNGCOMMITTED \<or> s = FORGETTING_HEUR)"

definition rollback_allowed :: "TM_TX_STATE \<Rightarrow> bool" where
  "rollback_allowed s =
     (s = BEGINNING \<or> s = ACTIVE \<or> s = ABORTING \<or> s = ABORTING_PART2 \<or> s = ABORTED
      \<or> s = HUNGABORTED \<or> s = FORGETTING \<or> s = FORGOTTEN \<or> s = FORGETTING_HEUR)"

definition change_rollback :: "tm_env \<Rightarrow> nat \<Rightarrow> int \<Rightarrow> tm_world \<Rightarrow> (int \<times> tm_world) option" where
  "change_rollback e msg err w =
     (if rollback_allowed (tx_state w) then rollback_loop e msg err w else None)"

definition change_commit :: "tm_env \<Rightarrow> TX_EVENT \<Rightarrow> nat \<Rightarrow> int \<Rightarrow> tm_world \<Rightarrow> (int \<times> tm_world) option" where
  "change_commit e event msg err w =
     (if commit_allowed (tx_state w)
      then do { ((rollback, err'), w1) \<leftarrow> commit_loop e event msg err w;
                if rollback then change_rollback e msg err' w1 else Some (err', w1) }
      else None)"

definition change_begin_complete :: "tm_env \<Rightarrow> nat \<Rightarrow> tm_world \<Rightarrow> (int \<times> tm_world) option" where
  "change_begin_complete e msg w =
     (if tx_state w = BEGINNING then Some (XA_OK, set_state ACTIVE w)
      else if tx_isAborting (w_tx w) then change_rollback e msg XA_OK w
      else None)"

definition state_change :: "tm_env \<Rightarrow> TX_EVENT \<Rightarrow> nat \<Rightarrow> tm_world \<Rightarrow> (int \<times> tm_world) option" where
  "state_change e event msg w =
     (case event of
        TX_BEGIN \<Rightarrow> change_begin e msg w
      | TX_BEGIN_COMPLETE \<Rightarrow> change_begin_complete e msg w
      | TX_COMMIT \<Rightarrow> change_commit e event msg XA_OK w
      | TX_ROLLBACK \<Rightarrow> change_rollback e msg XA_OK w
      | TX_FORGET \<Rightarrow> do { w1 \<leftarrow> forget_loop e w; Some (XA_OK, w1) }
      | TX_REDRIVE_COMMIT \<Rightarrow> change_commit e event msg XA_OK (set_state COMMITTED w)
      | TX_REDRIVE_ROLLBACK \<Rightarrow> change_rollback e msg XA_OK (set_state ABORTING_PART2 w)
      | _ \<Rightarrow> None)"

section \<open>Scheduling\<close>

definition abortable :: "TM_TX_STATE \<Rightarrow> bool" where
  "abortable s = (s = NOTX \<or> s = BEGINNING \<or> s = ACTIVE \<or> s = PREPARING)"

definition schedule_abort :: "tm_env \<Rightarrow> tm_world \<Rightarrow> (int \<times> tm_world) option" where
  "schedule_abort e w =
     (if \<not> abortable (tx_state w) then Some (FEENDEDTRANSID, w)
      else do { (_, w1) \<leftarrow> internal_abortTrans e True w; Some (FEOK, w1) })"

definition doom_txn :: "tm_world \<Rightarrow> int \<times> tm_world" where
  "doom_txn w =
     (if \<not> abortable (tx_state w) then (FENOTRANSID, w)
      else (FEOK, upd_tx (\<lambda>x. x\<lparr> tx_mark_for_rollback := True, tx_appl_aborted := True \<rparr>) w))"

text \<open>\<^verbatim>\<open>schedule_eventQ\<close>, which continues the current request when a sync completes.\<close>

definition schedule_eventQ :: "tm_env \<Rightarrow> tm_world \<Rightarrow> tm_world option" where
  "schedule_eventQ e w =
     do { ty \<leftarrow> (case tx_state w of
                   BEGINNING \<Rightarrow> Some TXINTERNAL_BEGINCOMPLETE
                 | COMMITTED \<Rightarrow> Some TXINTERNAL_ENDCOMPLETE
                 | ABORTED \<Rightarrow> Some TXINTERNAL_ABORTCOMPLETE
                 | FORGOTTEN \<Rightarrow> Some TXINTERNAL_ENDFORGET
                 | _ \<Rightarrow> None);
          h \<leftarrow> tx_currRequest (w_tx w);
          w1 \<leftarrow> msg_update h (\<lambda>m. m\<lparr> ms_requestType := ty \<rparr>) w;
          eventQ_push e (Some h) False w1 }"

section \<open>The requests\<close>

definition req_begin_complete :: "tm_env \<Rightarrow> nat \<Rightarrow> tm_world \<Rightarrow> (bool \<times> tm_world) option" where
  "req_begin_complete e h w =
     do { (_, w1) \<leftarrow> state_change e TX_BEGIN_COMPLETE h w;
          (_, w2) \<leftarrow> reset_transactionBusy e False w1;
          Some (False, w2) }"

definition req_begin :: "tm_env \<Rightarrow> nat \<Rightarrow> tm_world \<Rightarrow> (bool \<times> tm_world) option" where
  "req_begin e h w =
     do { let w1 = send_begin_tx w;
          w2 \<leftarrow> msg_update h (\<lambda>m. m\<lparr> ms_rspTransid := tx_transid (w_tx w1), ms_rspTag := tx_tag (w_tx w1) \<rparr>) w1;
          (_, w3) \<leftarrow> state_change e TX_BEGIN h (initialize_tx_rms (gi_RMPartic (w_info w2)) w2);
          m \<leftarrow> msg_at h w3;
          if ms_rspError m = FEOK
          then if \<not> sync_mode w3
               then do { (_, w4) \<leftarrow> req_begin_complete e h w3; Some (False, w4) }
               else Some (False, w3)
          else do { p \<leftarrow> msg_replyPending h w3;
                    w4 \<leftarrow> (if p then msg_reply h w3 else Some w3);
                    (_, w5) \<leftarrow> schedule_abort e w4;
                    Some (False, w5) } }"

text \<open>\<^verbatim>\<open>req_abort_complete\<close> replies with whatever error the message holds.\<close>

definition req_abort_complete :: "tm_env \<Rightarrow> nat \<Rightarrow> tm_world \<Rightarrow> (bool \<times> tm_world) option" where
  "req_abort_complete e h w =
     do { w1 \<leftarrow> (if tx_state w \<noteq> FORGETTING \<and> tx_state w \<noteq> FORGOTTEN
                 then do { (_, w') \<leftarrow> state_change e TX_ROLLBACK h w; Some w' } else Some w);
          p \<leftarrow> msg_replyPending h w1;
          w2 \<leftarrow> (if p then msg_reply h w1 else Some w1);
          Some (False, w2) }"

definition req_end_complete :: "tm_env \<Rightarrow> nat \<Rightarrow> tm_world \<Rightarrow> (bool \<times> tm_world) option" where
  "req_end_complete e h w =
     do { w1 \<leftarrow> (if tx_isAborting (w_tx w)
                 then do { m \<leftarrow> msg_at h w;
                           w' \<leftarrow> (if ms_rspError m \<noteq> FELOCKED then msg_responseError h FEABORTEDTRANSID w
                                  else Some w);
                           (_, w'') \<leftarrow> state_change e TX_ROLLBACK h w';
                           Some w'' }
                 else do { (_, w'') \<leftarrow> state_change e TX_COMMIT h w; Some w'' });
          w2 \<leftarrow> msg_reply_if_pending h FEOK w1;
          Some (False, w2) }"

text \<open>
  \<^verbatim>\<open>req_forget\<close>; the message argument is only handed on to the state machine, which does not use
  it for this event.  The list of the oldest transactions and the statistics are not
  part of the state.
\<close>

definition req_forget :: "tm_env \<Rightarrow> nat \<Rightarrow> tm_world \<Rightarrow> (bool \<times> tm_world) option" where
  "req_forget e h w =
     do { let terminate = (\<not> tx_hung (w_tx w));
          w1 \<leftarrow> (if terminate \<and> (tx_state w = FORGETTING_HEUR \<or> tx_state w = FORGOTTEN_HEUR)
                 then do { (_, w') \<leftarrow> state_change e TX_FORGET h w; Some w' } else Some w);
          (busy, w2) \<leftarrow> reset_transactionBusy e True w1;
          Some (terminate, if terminate \<and> \<not> busy then inc_cleanup w2 else w2) }"

definition req_end :: "tm_env \<Rightarrow> nat \<Rightarrow> tm_world \<Rightarrow> (bool \<times> tm_world) option" where
  "req_end e h w =
     do { m \<leftarrow> msg_at h w;
          if tx_ender_pid (w_tx w) \<noteq> ms_pid m
          then do { w1 \<leftarrow> state_change_abort_set h FEABORTEDTRANSID w;
                    (_, w2) \<leftarrow> state_change e TX_ROLLBACK h w1;
                    (_, w3) \<leftarrow> req_abort_complete e h w2;
                    req_forget e h w3 }
          else if tx_state w \<noteq> ACTIVE \<and> tx_state w \<noteq> COMMITTED
          then do { w1 \<leftarrow> msg_reply_error h
                            (if tx_isAborting (w_tx w) then FEABORTEDTRANSID else FEENDEDTRANSID) w;
                    req_forget e h w1 }
          else if tx_num_active_partic (w_tx w) > 1
          then do { w1 \<leftarrow> msg_reply_error h FEJOINSOUTSTANDING w;
                    (_, w2) \<leftarrow> reset_transactionBusy e False w1;
                    Some (False, w2) }
          else do { (_, w1) \<leftarrow> state_change e TX_COMMIT h (send_commit_tx w);
                    if \<not> sync_mode w1
                    then do { (_, w2) \<leftarrow> req_end_complete e h w1; req_forget e h w2 }
                    else Some (False, upd_tx (\<lambda>x. snd (remove_app_partic (ms_pid m) (ms_nid m) x)) w1) } }"

definition rollback_txn :: "tm_env \<Rightarrow> nat \<Rightarrow> tm_world \<Rightarrow> (bool \<times> tm_world) option" where
  "rollback_txn e h w =
     (if \<not> (rollback_allowed (tx_state w) \<and> tx_state w \<noteq> FORGETTING_HEUR)
      then do { w1 \<leftarrow> msg_reply_if_pending h
                        (if tx_isAborting (w_tx w) then FEABORTEDTRANSID else FEENDEDTRANSID) w;
                (busy, w2) \<leftarrow> reset_transactionBusy e False w1;
                Some (if \<not> busy then (False, inc_cleanup w2) else (True, w2)) }
      else do { (_, w1) \<leftarrow> state_change e TX_ROLLBACK h w; Some (False, w1) })"

text \<open>
  The continuation of a rollback in non-sync mode, in \<^verbatim>\<open>req_abort\<close> and in the event loop.
\<close>

definition rollback_completion :: "tm_env \<Rightarrow> nat \<Rightarrow> bool \<times> tm_world \<Rightarrow> (bool \<times> tm_world) option" where
  "rollback_completion e h r =
     (case r of (terminate, w) \<Rightarrow>
        if \<not> sync_mode w \<and> \<not> terminate
        then do { w1 \<leftarrow> (if tx_transactionBusy (w_tx w)
                         then do { (_, w') \<leftarrow> req_abort_complete e h w; Some w' } else Some w);
                  req_forget e h w1 }
        else Some (terminate, w))"

text \<open>
  \<^verbatim>\<open>req_abort\<close>.  A doom request of an unknown TSE deletes the message and returns.
\<close>

definition req_abort :: "tm_env \<Rightarrow> nat \<Rightarrow> tm_world \<Rightarrow> (bool \<times> tm_world) option" where
  "req_abort e h w =
     do { m \<leftarrow> msg_at h w;
          let w1 = send_abort_tx w;
          let (rmid, g) = tse_return_rmid (env_process_name e (ms_nid m) (ms_pid m)) (ms_nid m) (ms_pid m) (w_gtse w1);
          if ms_requestType m = MSG_TSE_DOOMTX \<and> rmid = - 1
          then do { w2 \<leftarrow> msg_reply_error h FENOTFOUND (w1\<lparr> w_gtse := g \<rparr>);
                    w3 \<leftarrow> msg_delete h w2;
                    Some (False, w3) }
          else do { w2 \<leftarrow> (if ms_requestType m = MSG_TSE_DOOMTX
                           then do { (_, w') \<leftarrow> register_branch rmid None (w1\<lparr> w_gtse := g \<rparr>);
                                     Some (upd_tx (\<lambda>x. x\<lparr> tx_tse_aborted := True \<rparr>) w') }
                           else Some (upd_tx (\<lambda>x. x\<lparr> tx_appl_aborted := True \<rparr>) w1));
                    let w3 = upd_tx (\<lambda>x. snd (remove_app_partic (ms_pid m) (ms_nid m) x)) w2;
                    w4 \<leftarrow> msg_update h (\<lambda>m. m\<lparr> ms_requestType := TXINTERNAL_ROLLBACK,
                                              ms_takeover_or_shutdown := False \<rparr>) w3;
                    r \<leftarrow> rollback_txn e h w4;
                    rollback_completion e h r } }"

definition redriverollback_txn :: "tm_env \<Rightarrow> nat \<Rightarrow> tm_world \<Rightarrow> (bool \<times> tm_world) option" where
  "redriverollback_txn e h w =
     do { let w1 = (if tx_state w = HUNGABORTED then dec_tx_hung_count w else w);
          (_, w2) \<leftarrow> state_change e TX_REDRIVE_ROLLBACK h (cancel_hung_event w1);
          if \<not> sync_mode w2 then req_forget e h w2 else Some (False, w2) }"

definition redrivecommit_txn :: "tm_env \<Rightarrow> nat \<Rightarrow> tm_world \<Rightarrow> (bool \<times> tm_world) option" where
  "redrivecommit_txn e h w =
     do { let w1 = (if tx_state w = HUNGCOMMITTED then dec_tx_hung_count w else w);
          (_, w2) \<leftarrow> state_change e TX_REDRIVE_COMMIT h (cancel_hung_event w1);
          if \<not> sync_mode w2 then req_forget e h w2 else Some (False, w2) }"

definition redrive_sync :: "tm_env \<Rightarrow> nat \<Rightarrow> tm_world \<Rightarrow> (bool \<times> tm_world) option" where
  "redrive_sync e h w =
     do { (_, w1) \<leftarrow> (case tx_state w of
                        BEGINNING \<Rightarrow> state_change e TX_BEGIN h w
                      | COMMITTED \<Rightarrow> state_change e TX_COMMIT h (set_state COMMITTING w)
                      | ABORTED \<Rightarrow> state_change e TX_ROLLBACK h (set_state ABORTING w)
                      | ABORTING_PART2 \<Rightarrow> state_change e TX_ROLLBACK h (set_state ABORTING w)
                      | FORGOTTEN \<Rightarrow> state_change e TX_FORGET h (set_state FORGETTING w)
                      | FORGETTING_HEUR \<Rightarrow> state_change e TX_FORGET h w
                      | _ \<Rightarrow> None);
          Some (False, w1) }"

section \<open>The event loop\<close>

definition dispatch :: "tm_env \<Rightarrow> nat \<Rightarrow> TM_MSG_TYPE \<Rightarrow> tm_world \<Rightarrow> (bool \<times> tm_world) option" where
  "dispatch e h ty w =
     (case ty of
        MSG_BEGINTRANSACTION \<Rightarrow> req_begin e h w
      | MSG_ENDTRANSACTION \<Rightarrow> req_end e h w
      | MSG_ABORTTRANSACTION \<Rightarrow> req_abort e h w
      | MSG_TSE_DOOMTX \<Rightarrow> req_abort e h w
      | MSG_DOOMTX \<Rightarrow> req_abort e h w
      | MSG_STATUSTRANSACTION \<Rightarrow> req_status h w
      | MSG_AX_REG \<Rightarrow> req_ax_reg h w
      | MSG_REGISTERREGION \<Rightarrow> req_registerRegion e h w
      | MSG_JOINTRANSACTION \<Rightarrow> req_join h w
      | MSG_SUSPENDTRANSACTION \<Rightarrow> req_suspend h w
      | TXINTERNAL_ROLLBACK \<Rightarrow> do { r \<leftarrow> rollback_txn e h w; rollback_completion e h r }
      | TXINTERNAL_REDRIVEROLLBACK \<Rightarrow> redriverollback_txn e h w
      | TXINTERNAL_REDRIVECOMMIT \<Rightarrow> redrivecommit_txn e h w
      | TXINTERNAL_ABORTCOMPLETE \<Rightarrow> req_abort_complete e h w
      | TXINTERNAL_ENDCOMPLETE \<Rightarrow> req_end_complete e h w
      | TXINTERNAL_ENDFORGET \<Rightarrow> req_forget e h w
      | TXINTERNAL_BEGINCOMPLETE \<Rightarrow> req_begin_complete e h w
      | TXINTERNAL_REDRIVESYNC \<Rightarrow> redrive_sync e h w
      | TXTHREAD_TERMINATE \<Rightarrow> Some (True, w)
      | TXTHREAD_RELEASE \<Rightarrow> Some (True, w)
      | MSG_OTHER _ \<Rightarrow> None)"

text \<open>
  One iteration of \<^verbatim>\<open>process_eventQ\<close> on a message taken from the queue: serve it, delete it, and
  decide whether the thread leaves the transaction.  An event of the thread's own queue,
  which is not part of the state, takes precedence.
\<close>

definition process_event :: "tm_env \<Rightarrow> nat \<Rightarrow> tm_world \<Rightarrow> (bool \<times> tm_world) option" where
  "process_event e h w =
     do { m \<leftarrow> msg_at h w;
          (exit, w1) \<leftarrow> dispatch e h (ms_requestType m) w;
          w2 \<leftarrow> msg_delete h w1;
          let exit1 = (exit \<or> (gi_threadModel (w_info w2) = TH_WORKER \<and> deque_empty (tx_eventQ (w_tx w2))));
          Some (if exit1 then (True, w2) else (env_thread_event e (w_clock w2), tick w2)) }"

text \<open>
  \<^verbatim>\<open>process_eventQ\<close>, for the next \<open>n\<close> events; the result says whether the thread has left the
  transaction.  A thread that finds the queue empty waits there.
\<close>

fun process_eventQ :: "tm_env \<Rightarrow> nat \<Rightarrow> tm_world \<Rightarrow> (bool \<times> tm_world) option" where
  "process_eventQ e 0 w = Some (False, w)"
| "process_eventQ e (Suc n) w =
     do { (r, w1) \<leftarrow> eventQ_pop w;
          case r of
            None \<Rightarrow> Some (False, w1)
          | Some h \<Rightarrow> do { (exit, w2) \<leftarrow> process_event e h w1;
                           if exit then Some (True, w2) else process_eventQ e n w2 } }"

section \<open>Object life cycle\<close>

definition tx_cleanup :: "tm_world \<Rightarrow> tm_world option" where
  "tx_cleanup w =
     do { let w1 = upd_tx (\<lambda>x. x\<lparr> tx_tx_state := NOTX, tx_in_use := False \<rparr>) w;
          let w2 = (if tx_timeoutEvent (w_tx w1)
                    then upd_tx (\<lambda>x. x\<lparr> tx_timeoutEvent := False \<rparr>) (act Act_timer_cancel w1) else w1);
          if tx_num_active_partic (w_tx w2) \<noteq> 0
          then do { x \<leftarrow> cleanup_app_partic (w_tx w2); Some (w2\<lparr> w_tx := x \<rparr>) }
          else Some w2 }"

end
