(* ===== verification/Tm_TwoPhase.thy ===== *)
theory Tm_TwoPhase
  imports Tm_TxInfo
begin

text \<open>
  Correctness of the two phase commit that the state machine of \<^verbatim>\<open>tmtx.cpp\<close> drives: what the trace
  of a commit and of a rollback looks like, for every behaviour of the resource managers,
  of HBase and of the other threads.
\<close>

section \<open>Actions without influence on the outcome\<close>

definition neutral :: "tm_act \<Rightarrow> bool" where
  "neutral a = (\<not> commit_act a \<and> \<not> rollback_act a \<and> \<not> vote_act a \<and> \<not> commit_record a)"

lemma neutral_simps [simp]:
  "neutral (Act_reply i err)" "neutral (Act_sync ty s)" "neutral (Act_timer m d)" "neutral Act_timer_cancel"
  "neutral (Act_audit s f) \<longleftrightarrow> s \<noteq> COMMITTED"
  by (simp_all add: neutral_def) (cases s; simp)

definition calm :: "tm_act \<Rightarrow> bool" where
  "calm a = (neutral a \<and> \<not> ok_reply a)"

lemma calm_simps [simp]:
  "calm (Act_reply i err) \<longleftrightarrow> err \<noteq> FEOK" "calm (Act_sync ty s)" "calm (Act_timer m d)" "calm Act_timer_cancel"
  "calm (Act_audit s f) \<longleftrightarrow> s \<noteq> COMMITTED"
  by (simp_all add: calm_def)

lemma calm_reply: "reply_of E a \<Longrightarrow> (\<And>err. E err \<Longrightarrow> err \<noteq> FEOK) \<Longrightarrow> calm a"
  by (auto simp: reply_of_def)

lemma calm_xa: "xa_of XA_END a \<Longrightarrow> calm a" "xa_of XA_FORGET a \<Longrightarrow> calm a" "hb_of {HB_completeRequest} a \<Longrightarrow> calm a"
  using act_classes(1,2,8) by (auto simp: calm_def neutral_def)

lemma enter_state_calm: "trace_ext calm w (enter_state s w)"
  by (auto simp: enter_state_def sync_write_def Let_def intro!: trace_ext_act split: TM_TX_STATE.splits)

lemma addHungTimerEvent_calm: "trace_ext calm w v \<Longrightarrow> trace_ext calm w (addHungTimerEvent ty v)"
  by (auto simp: addHungTimerEvent_def addTimerEvent_def intro!: trace_ext_act)

lemma inc_tx_hung_count_ext [simp]: "trace_ext P w (inc_tx_hung_count v) = trace_ext P w v"
  by (simp add: inc_tx_hung_count_def)

lemma write_trans_state_calm: "s \<noteq> COMMITTED \<Longrightarrow> trace_ext calm w v \<Longrightarrow> trace_ext calm w (write_trans_state s f v)"
  by (auto simp: write_trans_state_def intro!: trace_ext_act)

lemma forget_branches_bcast: "forget_branches e w = Some (err, w') \<Longrightarrow> bcast (xa_of XA_FORGET) w w'"
  by (auto simp: forget_branches_def hbase_forget_branches_def bind_Some_iff dest: tse_forget_bcast)

lemma forget_heur_calm:
  assumes "forget_heur_branches e w = Some (err, w')"
  shows "trace_ext calm w w'"
proof -
  let ?w = "upd_tx (\<lambda>x. x\<lparr> tx_wrote_trans_state := True \<rparr>) (write_trans_state FORGOTTEN_HEUR (tx_abort_flags (w_tx w)) w)"
  have 1: "trace_ext calm w ?w" by (simp add: write_trans_state_calm)
  from assms consider "w' = ?w" | w2 err2 where "forget_branches e ?w = Some (err2, w2)" "w' = set_state FORGOTTEN_HEUR w2"
    by (auto simp: forget_heur_branches_def forget_heur_with_def bind_Some_iff Let_def split: if_splits)
  then show ?thesis
  proof cases
    case 2
    have "trace_ext calm ?w w2"
      using forget_branches_bcast [OF 2(1)] by (auto simp: bcast_def quiet_def elim!: trace_ext_mono intro: calm_xa)
    from trace_ext_trans [OF 1 this] 2(2) show ?thesis by simp
  qed (use 1 in simp)
qed

lemma commit_forgetting_calm: "trace_ext calm w (commit_forgetting w)"
  by (auto simp: commit_forgetting_def write_trans_state_calm)

lemma commit_loop_again:
  assumes "commit_step e ev msg err w = Some ((Again, err'), w1)"
  shows "commit_loop e ev msg err w = commit_loop e ev msg err' w1"
  using assms by (subst commit_loop.simps) simp

lemma commit_loop_leave:
  assumes "tx_state w = FORGOTTEN \<or> tx_state w = HUNGCOMMITTED"
  shows "commit_loop e ev msg err w = Some ((False, err), if tx_state w = FORGOTTEN then enter_state FORGOTTEN w else w)"
  using assms by (subst commit_loop.simps) (auto simp: commit_step_def)

definition settling :: "TM_TX_STATE \<Rightarrow> bool" where
  "settling s = (s = FORGETTING_HEUR \<or> s = FORGETTING \<or> s = FORGOTTEN \<or> s = HUNGCOMMITTED)"

lemma commit_loop_settling:
  assumes "settling (tx_state w)" and "commit_loop e ev msg err w = Some ((b, err'), w')"
  shows "\<not> b \<and> (tx_state w' = FORGOTTEN \<or> tx_state w' = HUNGCOMMITTED) \<and> trace_ext calm w w'"
proof -
  have leave: "\<not> b \<and> (tx_state w' = FORGOTTEN \<or> tx_state w' = HUNGCOMMITTED) \<and> trace_ext calm v w'"
    if "tx_state v = FORGOTTEN \<or> tx_state v = HUNGCOMMITTED" "commit_loop e ev msg er v = Some ((b, err'), w')" for v er
    using commit_loop_leave [OF that(1)] that enter_state_calm by (auto split: if_splits)
  consider "tx_state w = FORGETTING_HEUR" | "tx_state w = FORGETTING" | "tx_state w = FORGOTTEN \<or> tx_state w = HUNGCOMMITTED"
    using assms(1) by (auto simp: settling_def)
  then show ?thesis
  proof cases
    case 1
    with assms(2) obtain er w1 where h: "forget_heur_branches e w = Some (er, w1)"
      by (cases "forget_heur_branches e w") (auto simp: commit_loop.simps [of e ev msg err w] commit_step_def)
    with 1 have "commit_loop e ev msg err w = commit_loop e ev msg err (set_state FORGOTTEN w1)"
      by (intro commit_loop_again) (simp add: commit_step_def)
    with assms(2) leave [of "set_state FORGOTTEN w1" err] have "\<not> b \<and> (tx_state w' = FORGOTTEN \<or> tx_state w' = HUNGCOMMITTED)"
      and "trace_ext calm (set_state FORGOTTEN w1) w'" by auto
    moreover have "trace_ext calm w (set_state FORGOTTEN w1)" using forget_heur_calm [OF h] by simp
    ultimately show ?thesis using trace_ext_trans by blast
  next
    case 2
    then have "commit_loop e ev msg err w = commit_loop e ev msg err (commit_forgetting w)"
      by (intro commit_loop_again) (simp add: commit_step_def)
    with assms(2) leave [of "commit_forgetting w" err] have "\<not> b \<and> (tx_state w' = FORGOTTEN \<or> tx_state w' = HUNGCOMMITTED)"
      and "trace_ext calm (commit_forgetting w) w'" by auto
    with trace_ext_trans [OF commit_forgetting_calm] show ?thesis by blast
  next
    case 3
    with leave assms(2) show ?thesis by blast
  qed
qed

section \<open>Messages that cannot be answered with success\<close>

text \<open>A message that cannot be answered with success by a rollback.\<close>

definition safe_msg :: "nat \<Rightarrow> tm_world \<Rightarrow> bool" where
  "safe_msg h w =
     (\<exists>m. w_heap w h = Some m
          \<and> (ms_msgid m = NULL_MSGID
             \<or> ms_rspError m \<noteq> FEOK \<and> (tx_tm_aborted (w_tx w) \<or> tx_tse_aborted (w_tx w))))"

lemma replied_safe: "replied h w \<Longrightarrow> safe_msg h w"
  by (auto simp: replied_def safe_msg_def)

lemma safe_msg_same: "w_heap v = w_heap w \<Longrightarrow> tx_tm_aborted (w_tx v) = tx_tm_aborted (w_tx w)
   \<Longrightarrow> tx_tse_aborted (w_tx v) = tx_tse_aborted (w_tx w) \<Longrightarrow> safe_msg h v = safe_msg h w"
  by (simp add: safe_msg_def)

lemma safe_msg_set_state [simp]: "safe_msg h (set_state s w) = safe_msg h w"
  by (simp add: safe_msg_def)

lemma replied_set_state [simp]: "replied h (set_state s w) = replied h w"
  by (simp add: replied_def)

lemma abort_set_replied:
  assumes "state_change_abort_set h err w = Some w'"
  shows "replied h w'"
  using assms by (auto simp: state_change_abort_set_def dest: msg_reply_if_pending_replied)

lemma prepare_helper_safe:
  assumes "state_change_prepare_helper e msg w = Some (False, w')"
  shows "safe_msg msg w'"
proof -
  from assms obtain err w1 where p: "prepare_branches e w = Some (err, w1)"
    by (auto simp: state_change_prepare_helper_def bind_Some_iff)
  show ?thesis
  proof (cases "tx_mark_for_rollback (w_tx w1)")
    case True
    with assms p obtain w2 where "msg_responseError msg (if err = COMMIT_CONFLICT then FELOCKED else FEABORTEDTRANSID) w1 = Some w2"
      and "w_heap w' = w_heap w2" and "tx_tse_aborted (w_tx w')"
      by (auto simp: state_change_prepare_helper_def bind_Some_iff inc_tm_initiated_aborts_def)
    then show ?thesis
      by (auto simp: safe_msg_def msg_responseError_def msg_update_def split: option.splits if_splits)
  next
    case False
    with assms p obtain w2 x where "state_change_abort_set msg x w2 = Some w'"
      by (auto simp: state_change_prepare_helper_def bind_Some_iff split: if_splits)
    then show ?thesis using abort_set_replied replied_safe by blast
  qed
qed

section \<open>The commit\<close>

definition phase2 :: "tm_act \<Rightarrow> bool" where
  "phase2 a = (\<not> rollback_act a \<and> \<not> vote_act a \<and> \<not> commit_record a)"

definition tt_read_only :: "tx \<Rightarrow> bool" where
  "tt_read_only x = (tx_TT_flags x AND TM_TT_READ_ONLY = TM_TT_READ_ONLY)"

definition commit_log :: "tx \<Rightarrow> tm_act list" where
  "commit_log x =
     (if tx_read_only x \<or> tx_wrote_trans_state x \<or> tt_read_only x then [] else [Act_audit COMMITTED (tx_abort_flags x)])"

definition phase2_run :: "tx \<Rightarrow> tm_act list \<Rightarrow> bool" where
  "phase2_run x as =
     (\<exists>bs. as = commit_log x @ bs \<and> list_all phase2 bs \<and> (tx_read_only x \<longrightarrow> list_all neutral bs))"

lemma neutral_phase2: "neutral a \<Longrightarrow> phase2 a"
  by (simp add: neutral_def phase2_def)

lemma calm_phase2: "calm a \<Longrightarrow> phase2 a" "calm a \<Longrightarrow> neutral a"
  by (simp_all add: calm_def neutral_phase2)

lemma phase2_run_append:
  assumes "phase2_run x as" and "list_all neutral bs" shows "phase2_run x (as @ bs)"
  using assms neutral_phase2 by (auto simp: phase2_run_def list_all_iff)

lemma write_commit_record_trace:
  "\<not> tx_read_only (w_tx w) \<Longrightarrow> w_trace (write_commit_record w) = w_trace w @ commit_log (w_tx w)"
  by (auto simp: write_commit_record_def write_trans_state_def commit_log_def tt_read_only_def)

lemma hung_committed_calm:
  assumes "hung_committed e w = Some w'"
  shows "trace_ext calm w w'"
proof -
  let ?w = "inc_tx_hung_count (set_state HUNGCOMMITTED w)"
  from assms obtain b w1 where r: "reset_transactionBusy e False ?w = Some (b, w1)"
    and w': "w' = addHungTimerEvent TXINTERNAL_REDRIVECOMMIT w1"
    by (auto simp: hung_committed_def bind_Some_iff)
  have "trace_ext calm ?w w1"
    by (rule trace_ext_mono [OF reset_transactionBusy_trace [OF r]]) (auto simp: reply_of_def)
  then have "trace_ext calm w w1" by (simp add: trace_ext_def inc_tx_hung_count_def)
  then show ?thesis unfolding w' by (rule addHungTimerEvent_calm)
qed

lemma commit_resolved_phase2:
  assumes "commit_resolved e msg w = Some w'"
  shows "trace_ext phase2 w w'"
proof -
  from assms obtain w2 where r: "w2 = set_state FORGETTING w \<or> msg_reply_if_pending msg FEOK (set_state FORGETTING w) = Some w2"
    and w': "w' = snd (completeRequest_branches e w2)"
    by (auto simp: commit_resolved_def bind_Some_iff Let_def split: if_splits)
  have "trace_ext phase2 (set_state FORGETTING w) w2"
    using r by (auto dest!: msg_reply_if_pending_trace elim!: trace_ext_mono simp: reply_of_def phase2_def)
  then have "trace_ext phase2 w w2" by (simp add: trace_ext_def)
  also have "trace_ext phase2 w2 w'"
    unfolding w' using completeRequest_bcast [of w2 e] calm_xa(3) calm_phase2(1)
    by (auto simp: bcast_def quiet_def elim!: trace_ext_mono)
  finally show ?thesis .
qed

lemma phase2_commit: "xa_of XA_COMMIT a \<or> hb_of {HB_doCommit} a \<Longrightarrow> phase2 a"
  using act_classes(4,7) by (auto simp: phase2_def)

lemma commit_helper_run:
  assumes "state_change_commit_helper e msg (tx_read_only (w_tx w)) w = Some w'"
  shows "\<exists>as. w_trace w' = w_trace w @ as \<and> phase2_run (w_tx w) as"
proof (cases "tx_read_only (w_tx w)")
  case True
  with assms obtain w1 where r: "msg_reply_if_pending msg FEOK w = Some w1" and w': "w' = set_state FORGETTING w1"
    by (auto simp: state_change_commit_helper_def bind_Some_iff)
  have "trace_ext neutral w w1"
    by (rule trace_ext_mono [OF msg_reply_if_pending_trace [OF r]]) (auto simp: reply_of_def)
  then show ?thesis
  proof (rule trace_extE)
    fix as assume "w_trace w1 = w_trace w @ as" "list_all neutral as"
    then show ?thesis
      using True neutral_phase2 by (auto simp: w' phase2_run_def commit_log_def list_all_iff intro!: exI [of _ as])
  qed
next
  case False
  with assms obtain er w1 where c: "commit_branches e msg (write_commit_record w) = Some (er, w1)"
    and r: "(if er = XA_OK then commit_resolved e msg w1
            else if is_heuristic er then Some (set_state FORGETTING_HEUR w1) else hung_committed e w1) = Some w'"
    by (auto simp: state_change_commit_helper_def bind_Some_iff)
  have 1: "trace_ext phase2 (write_commit_record w) w1"
    using commit_branches_quiet [OF c] phase2_commit by (auto simp: quiet_def elim!: trace_ext_mono)
  have "trace_ext phase2 w1 w'"
    using r commit_resolved_phase2 trace_ext_mono [OF hung_committed_calm calm_phase2(1)]
    by (auto split: if_splits)
  with 1 have "trace_ext phase2 (write_commit_record w) w'" by (rule trace_ext_trans)
  then show ?thesis
    using write_commit_record_trace [OF False] False by (auto simp: phase2_run_def trace_ext_def)
qed

lemma commit_loop_committed:
  assumes "tx_state w = COMMITTED" and "commit_loop e ev msg err w = Some ((b, err'), w')"
  shows "\<not> b \<and> (tx_state w' = FORGOTTEN \<or> tx_state w' = HUNGCOMMITTED)
    \<and> (\<exists>as. w_trace w' = w_trace w @ as \<and> phase2_run (w_tx w) as)"
proof -
  from assms obtain w1 where h: "state_change_commit_helper e msg (tx_read_only (w_tx w)) w = Some w1"
    by (cases "state_change_commit_helper e msg (tx_read_only (w_tx w)) w")
      (auto simp: commit_loop.simps [of e ev msg err w] commit_step_def)
  with assms have l: "commit_loop e ev msg err w1 = Some ((b, err'), w')"
    by (subst commit_loop_again [symmetric, of _ _ _ err w]) (simp_all add: commit_step_def)
  have st: "settling (tx_state w1)" using commit_helper_state [OF h] by (auto simp: settling_def)
  note r = commit_loop_settling [OF st l]
  moreover from r obtain bs where "w_trace w' = w_trace w1 @ bs" "list_all neutral bs"
    using calm_phase2(2) by (auto simp: trace_ext_def list_all_iff)
  moreover obtain as where "w_trace w1 = w_trace w @ as" "phase2_run (w_tx w) as" using commit_helper_run [OF h] by blast
  ultimately show ?thesis using phase2_run_append by (metis append.assoc)
qed

text \<open>Up to the decision: no branch is told to commit or to roll back.\<close>

definition phase1 :: "tm_act \<Rightarrow> bool" where
  "phase1 a = (\<not> commit_act a \<and> \<not> rollback_act a \<and> \<not> commit_record a \<and> \<not> ok_reply a)"

text \<open>
  A prepare that the HBase library refuses, as the code reads its answer: 0, 2 and 3 count as
  votes for the commit.  The 3 is a refusal of the library that collides with a code of XA.
\<close>

fun hbase_refusal :: "tm_act \<Rightarrow> bool" where
  "hbase_refusal (Act_hbase HB_prepareCommit rc) = (rc \<notin> {0, 2, 3})"
| "hbase_refusal _ = False"

definition all_agreed :: "tm_act list \<Rightarrow> bool" where
  "all_agreed as =
     (list_all (\<lambda>a. \<not> refusal a \<and> \<not> hbase_refusal a) as
      \<and> length (filter prepare_sent as) = length (filter prepare_vote as))"

lemma calm_phase1: "calm a \<Longrightarrow> phase1 a"
  by (simp add: calm_def neutral_def phase1_def)

lemma all_agreed_append [intro]: "all_agreed as \<Longrightarrow> all_agreed bs \<Longrightarrow> all_agreed (as @ bs)"
  by (simp add: all_agreed_def)

lemma all_agreed_no_votes: "list_all (\<lambda>a. \<not> vote_act a) as \<Longrightarrow> all_agreed as"
proof (induction as)
  case (Cons a as)
  from Cons.prems have "\<not> refusal a \<and> \<not> hbase_refusal a \<and> \<not> prepare_sent a \<and> \<not> prepare_vote a"
    by (cases a rule: vote_act.cases) auto
  with Cons show ?case by (simp add: all_agreed_def)
qed (simp add: all_agreed_def)

lemma votes_in_agreed: "votes_in as \<Longrightarrow> all_agreed as"
proof -
  have "xa_of XA_PREPARE a \<Longrightarrow> \<not> hbase_refusal a" for a by (cases a) auto
  then show "votes_in as \<Longrightarrow> all_agreed as" by (auto simp: votes_in_def all_agreed_def list_all_iff)
qed

lemma phase1_prepare: "xa_of XA_PREPARE a \<Longrightarrow> phase1 a" "phase1 (Act_hbase HB_prepareCommit rc)"
  using act_classes(3) by (auto simp: phase1_def)

lemma abort_set_phase1:
  assumes "state_change_abort_set msg err w = Some w'" and "err \<noteq> FEOK"
  shows "trace_ext phase1 w w'"
proof -
  have "trace_ext (reply_of (\<lambda>x. x = err)) w w'"
    using assms(1) by (auto simp: state_change_abort_set_def inc_tm_initiated_aborts_def trace_ext_def dest!: msg_reply_if_pending_trace)
  then show ?thesis by (rule trace_ext_mono) (use assms(2) in \<open>auto simp: reply_of_def phase1_def\<close>)
qed

lemma prepare_helper_run:
  assumes "state_change_prepare_helper e msg w = Some (go, w')"
  obtains as where "w_trace w' = w_trace w @ as" and "list_all phase1 as" and "go \<Longrightarrow> all_agreed as"
    and "go \<Longrightarrow> \<exists>w1. prep_frame w w1 \<and> w' = set_state COMMITTING w1"
proof -
  from assms obtain err w1 where p: "prepare_branches e w = Some (err, w1)"
    by (auto simp: state_change_prepare_helper_def bind_Some_iff)
  from prepare_branches_run [OF p] obtain as rc where as: "w_trace w1 = w_trace w @ Act_hbase HB_prepareCommit rc # as"
    "list_all (xa_of XA_PREPARE) as" "prep_frame w w1" "err = XA_OK \<or> err = XA_RDONLY \<Longrightarrow> votes_in as \<and> rc \<in> {0, 2, 3}"
    "\<not> (err = XA_OK \<or> err = XA_RDONLY) \<Longrightarrow> tx_mark_for_rollback (w_tx w1)" by metis
  let ?as = "Act_hbase HB_prepareCommit rc # as"
  have ph: "list_all phase1 ?as" using as(2) phase1_prepare by (auto simp: list_all_iff)
  show ?thesis
  proof (cases go)
    case True
    with assms p have e: "err = XA_RDONLY \<or> err = XA_OK" and w': "w' = set_state COMMITTING w1"
      by (auto simp: state_change_prepare_helper_def bind_Some_iff split: if_splits)
    with as(4) have "votes_in as" "rc \<in> {0, 2, 3}" by auto
    then have "all_agreed ?as" using votes_in_agreed by (auto simp: all_agreed_def)
    with as w' ph show ?thesis by (intro that [of ?as]) auto
  next
    case False
    with assms p as(5) obtain w2 where m: "msg_responseError msg (if err = COMMIT_CONFLICT then FELOCKED else FEABORTEDTRANSID) w1 = Some w2"
      and w': "w_trace w' = w_trace w2"
      by (auto simp: state_change_prepare_helper_def bind_Some_iff inc_tm_initiated_aborts_def split: if_splits)
    from m have "w_trace w2 = w_trace w1" using msg_responseError_quiet by (auto simp: msg_responseError_def dest: msg_update_trace)
    with as(1) w' ph False show ?thesis by (intro that [of ?as]) auto
  qed
qed

definition commit_outcome :: "tm_world \<Rightarrow> tm_world \<Rightarrow> bool" where
  "commit_outcome w w' =
     ((tx_state w' = FORGOTTEN \<or> tx_state w' = HUNGCOMMITTED)
      \<and> (\<exists>as bs x. w_trace w' = w_trace w @ as @ bs \<and> list_all phase1 as \<and> all_agreed as \<and> phase2_run x bs
           \<and> tx_wrote_trans_state x = tx_wrote_trans_state (w_tx w) \<and> tt_read_only x = tt_read_only (w_tx w)))"

definition abort_outcome :: "nat \<Rightarrow> tm_world \<Rightarrow> tm_world \<Rightarrow> bool" where
  "abort_outcome msg w w' = (tx_state w' = ABORTING \<and> trace_ext phase1 w w' \<and> safe_msg msg w')"

lemma commit_outcome_prefix:
  assumes "commit_outcome v w'" and "w_trace v = w_trace w @ cs" and "list_all phase1 cs" and "all_agreed cs"
    and "tx_wrote_trans_state (w_tx v) = tx_wrote_trans_state (w_tx w)" and "tt_read_only (w_tx v) = tt_read_only (w_tx w)"
  shows "commit_outcome w w'"
proof -
  from assms(1) obtain as bs x where o: "w_trace w' = w_trace v @ as @ bs" "list_all phase1 as" "all_agreed as" "phase2_run x bs"
    "tx_wrote_trans_state x = tx_wrote_trans_state (w_tx v)" "tt_read_only x = tt_read_only (w_tx v)"
    and st: "tx_state w' = FORGOTTEN \<or> tx_state w' = HUNGCOMMITTED"
    unfolding commit_outcome_def by blast
  then show ?thesis
    unfolding commit_outcome_def using assms(2-)
    by (intro conjI exI [of _ "cs @ as"] exI [of _ bs] exI [of _ x]) auto
qed

lemma committed_outcome:
  assumes "tx_state w = COMMITTED" and "commit_loop e ev msg err w = Some ((b, err'), w')"
  shows "\<not> b \<and> commit_outcome w w'"
proof -
  from commit_loop_committed [OF assms] obtain bs where
    "\<not> b" "tx_state w' = FORGOTTEN \<or> tx_state w' = HUNGCOMMITTED" "w_trace w' = w_trace w @ bs" "phase2_run (w_tx w) bs"
    by blast
  then show ?thesis
    unfolding commit_outcome_def
    by (intro conjI exI [of _ "[]"] exI [of _ bs] exI [of _ "w_tx w"]) (auto simp: all_agreed_def)
qed

lemma all_agreed_calm: "list_all calm as \<Longrightarrow> all_agreed as"
  by (rule all_agreed_no_votes) (auto simp: list_all_iff calm_def neutral_def)

lemma enter_state_tx: "w_tx (enter_state s w) = (w_tx w)\<lparr> tx_tx_state := s \<rparr>"
  by (simp add: enter_state_def sync_write_def Let_def split: TM_TX_STATE.splits)

lemma committing_outcome:
  assumes "tx_state w = COMMITTING" and "commit_loop e ev msg err w = Some ((b, err'), w')"
  shows "\<not> b \<and> commit_outcome w w'"
proof -
  from assms have l: "commit_loop e ev msg err (enter_state COMMITTED w) = Some ((b, err'), w')"
    by (subst commit_loop_again [symmetric, of _ _ _ err w]) (simp_all add: commit_step_def)
  have o: "\<not> b \<and> commit_outcome (enter_state COMMITTED w) w'" using committed_outcome [OF _ l] by simp
  from enter_state_calm [of w COMMITTED] obtain cs where cs: "w_trace (enter_state COMMITTED w) = w_trace w @ cs" "list_all calm cs"
    by (auto simp: trace_ext_def)
  have p: "list_all phase1 cs" using cs(2) calm_phase1 by (auto simp: list_all_iff)
  have "commit_outcome w w'"
    by (rule commit_outcome_prefix [OF conjunct2 [OF o] cs(1) p all_agreed_calm [OF cs(2)]])
      (simp_all add: enter_state_tx tt_read_only_def tx_TT_flags_def)
  with o show ?thesis by simp
qed

lemma preparing_outcome:
  assumes "tx_state w = PREPARING" and "commit_loop e ev msg err w = Some ((b, err'), w')"
  shows "\<not> b \<and> commit_outcome w w' \<or> b = sync_mode w' \<and> abort_outcome msg w w'"
proof -
  from assms obtain go w1 where h: "state_change_prepare_helper e msg w = Some (go, w1)"
    by (cases "state_change_prepare_helper e msg w")
      (auto simp: commit_loop.simps [of e ev msg err w] commit_step_def commit_preparing_def)
  from prepare_helper_run [OF h] obtain as where as: "w_trace w1 = w_trace w @ as" "list_all phase1 as" "go \<Longrightarrow> all_agreed as"
    "go \<Longrightarrow> \<exists>v. prep_frame w v \<and> w1 = set_state COMMITTING v" by metis
  show ?thesis
  proof (cases go)
    case True
    obtain n w2 where n: "num_rm_partic e w1 = (n, w2)" by force
    let ?w = "if n = 0 then upd_tx (\<lambda>x. x\<lparr> tx_tx_state := COMMITTED, tx_read_only := True \<rparr>) w2
              else upd_tx (\<lambda>x. x\<lparr> tx_read_only := False \<rparr>) w2"
    from n have w2: "w2 = tick w1" by (auto simp: num_rm_partic_def hbase_num_rm_partic_def hbase_ask_def)
    from assms True h n have l: "commit_loop e ev msg err ?w = Some ((b, err'), w')"
      by (subst commit_loop_again [symmetric, of _ _ _ err w]) (simp_all add: commit_step_def commit_preparing_def)
    have "tx_state w1 = COMMITTING" using prepare_helper_state [OF h] True by simp
    then have "\<not> b \<and> commit_outcome ?w w'"
      using committed_outcome [OF _ l] committing_outcome [OF _ l] w2 by (cases "n = 0") auto
    moreover have "commit_outcome w w'" if "commit_outcome ?w w'"
    proof (rule commit_outcome_prefix [OF that _ as(2) as(3) [OF True]])
      show "w_trace ?w = w_trace w @ as" using as(1) w2 by simp
      from as(4) [OF True] have "tx_wrote_trans_state (w_tx w1) = tx_wrote_trans_state (w_tx w)" "tx_transid (w_tx w1) = tx_transid (w_tx w)"
        by (auto simp: prep_frame_def dest: arg_cong [of _ _ tx_wrote_trans_state] arg_cong [of _ _ tx_transid])
      then show "tx_wrote_trans_state (w_tx ?w) = tx_wrote_trans_state (w_tx w)" "tt_read_only (w_tx ?w) = tt_read_only (w_tx w)"
        using w2 by (auto simp: tt_read_only_def tx_TT_flags_def)
    qed
    ultimately show ?thesis by blast
  next
    case False
    with h assms have "w_trace w' = w_trace w1" "tx_state w' = ABORTING" "b = sync_mode w'" "w' = w1 \<or> w' = set_state ABORTING w1"
      using prepare_helper_state [OF h]
      by (auto simp: commit_loop.simps [of e ev msg err w] commit_step_def commit_preparing_def abort_exit_def split: if_splits)
    moreover from this have "safe_msg msg w'" using prepare_helper_safe h False by auto
    ultimately show ?thesis using as by (auto simp: abort_outcome_def trace_ext_def)
  qed
qed

lemma end_branches_calm:
  assumes "end_branches e w = Some (err, w')"
  shows "trace_ext calm w w' \<and> w_tx w' = w_tx w \<and> w_info w' = w_info w \<and> w_heap w' = w_heap w"
  using end_branches_bcast [OF assms] by (auto simp: bcast_def quiet_def elim!: trace_ext_mono intro: calm_xa)

lemma active_outcome:
  assumes "tx_state w = ACTIVE" and "commit_loop e ev msg err w = Some ((b, err'), w')"
  shows "\<not> b \<and> commit_outcome w w' \<or> b = sync_mode w' \<and> abort_outcome msg w w'"
proof -
  from assms obtain ex er w1 where st: "commit_active e ev msg err w = Some ((ex, er), w1)"
    by (cases "commit_active e ev msg err w") (auto simp: commit_loop.simps [of e ev msg err w] commit_step_def)
  obtain er2 w2 where en: "(if \<not> tx_mark_for_rollback (w_tx w) then end_branches e w else Some (err, w)) = Some (er2, w2)"
    using st by (auto simp: commit_active_def bind_Some_iff)
  then have f: "trace_ext calm w w2" "w_tx w2 = w_tx w"
    using end_branches_calm by (auto split: if_splits)
  then obtain cs where cs: "w_trace w2 = w_trace w @ cs" "list_all calm cs" by (auto simp: trace_ext_def)
  show ?thesis
  proof (cases "ev = TX_COMMIT \<and> er2 = XA_OK \<and> \<not> tx_mark_for_rollback (w_tx w2)")
    case True
    with st en have "ex = Again" "w1 = set_state PREPARING w2" by (auto simp: commit_active_def bind_Some_iff)
    with st assms have l: "commit_loop e ev msg er w1 = Some ((b, err'), w')" and p: "tx_state w1 = PREPARING"
      by (auto simp: commit_loop_again commit_step_def)
    from preparing_outcome [OF p l] show ?thesis
    proof
      assume "\<not> b \<and> commit_outcome w1 w'"
      moreover have "commit_outcome w w'" if "commit_outcome w1 w'"
      proof (rule commit_outcome_prefix [OF that])
        show "w_trace w1 = w_trace w @ cs" using cs \<open>w1 = _\<close> by simp
        show "list_all phase1 cs" using cs(2) calm_phase1 by (auto simp: list_all_iff)
        show "all_agreed cs" by (rule all_agreed_calm [OF cs(2)])
      qed (simp_all add: \<open>w1 = _\<close> f tt_read_only_def tx_TT_flags_def)
      ultimately show ?thesis by blast
    next
      assume "b = sync_mode w' \<and> abort_outcome msg w1 w'"
      moreover have "trace_ext phase1 w w1" using trace_ext_mono [OF f(1) calm_phase1] \<open>w1 = _\<close> by simp
      ultimately show ?thesis by (auto simp: abort_outcome_def intro: trace_ext_trans)
    qed
  next
    case False
    with st en have a: "state_change_abort_set msg FEABORTEDTRANSID w2 = Some w1" and ex: "ex = abort_exit w1"
      by (auto simp: commit_active_def bind_Some_iff split: if_splits)
    from ex st assms have "b = sync_mode w1" "w' = w1"
      by (auto simp: commit_loop.simps [of e ev msg err w] commit_step_def abort_exit_def split: if_splits)
    moreover have "trace_ext phase1 w w1"
      using trace_ext_trans [OF trace_ext_mono [OF f(1) calm_phase1] abort_set_phase1 [OF a]] by simp
    ultimately show ?thesis
      using abort_set_state [OF a] abort_set_replied [OF a] replied_safe by (simp add: abort_outcome_def)
  qed
qed

lemma rollback_from_aborting_sync:
  assumes "tx_state w = ABORTING" and "sync_mode w"
  shows "change_rollback e msg err w = Some (err, sync_write ABORTING_PART2 w)"
  using assms by (simp add: change_rollback_def rollback_allowed_def rollback_loop.simps rollback_step_def)

lemma change_commit_outcome:
  assumes "tx_state w = ACTIVE" and "change_commit e ev msg err w = Some (err', w')"
  shows "commit_outcome w w' \<or> (tx_state w' = (if sync_mode w' then ABORTING_PART2 else ABORTING) \<and> trace_ext phase1 w w'
            \<and> (\<not> sync_mode w' \<longrightarrow> safe_msg msg w'))"
proof -
  from assms obtain b er w1 where l: "commit_loop e ev msg err w = Some ((b, er), w1)"
    and r: "(if b then change_rollback e msg er w1 else Some (er, w1)) = Some (err', w')"
    by (auto simp: change_commit_def commit_allowed_def bind_Some_iff)
  from active_outcome [OF assms(1) l] show ?thesis
  proof
    assume a: "b = sync_mode w1 \<and> abort_outcome msg w w1"
    show ?thesis
    proof (cases b)
      case True
      with a r have w': "w' = sync_write ABORTING_PART2 w1"
        using rollback_from_aborting_sync [of w1 e msg er] by (auto simp: abort_outcome_def)
      moreover have "trace_ext phase1 w w'"
        using a unfolding w' by (auto simp: abort_outcome_def sync_write_def Let_def intro!: trace_ext_act) (simp_all add: phase1_def)
      ultimately show ?thesis using a True by (auto simp: sync_write_def Let_def)
    next
      case False
      with a r show ?thesis by (auto simp: abort_outcome_def)
    qed
  qed (use r in auto)
qed

lemma phase1_facts: "phase1 a \<Longrightarrow> \<not> commit_act a \<and> \<not> rollback_act a \<and> \<not> commit_record a \<and> \<not> ok_reply a"
  by (simp add: phase1_def)

lemma phase2_run_facts:
  assumes "phase2_run x bs"
  shows "list_all (\<lambda>a. \<not> vote_act a \<and> \<not> rollback_act a) bs"
    and "\<not> tx_wrote_trans_state x \<Longrightarrow> \<not> tt_read_only x \<Longrightarrow> list_all (\<lambda>a. \<not> commit_act a) (takeWhile (\<lambda>a. \<not> commit_record a) bs)"
proof -
  from assms obtain cs where cs: "bs = commit_log x @ cs" "list_all phase2 cs" "tx_read_only x \<longrightarrow> list_all neutral cs"
    unfolding phase2_run_def by blast
  then show "list_all (\<lambda>a. \<not> vote_act a \<and> \<not> rollback_act a) bs"
    by (auto simp: list_all_iff commit_log_def phase2_def)
  show "list_all (\<lambda>a. \<not> commit_act a) (takeWhile (\<lambda>a. \<not> commit_record a) bs)" if "\<not> tx_wrote_trans_state x" "\<not> tt_read_only x"
  proof (cases "tx_read_only x")
    case True
    with cs show ?thesis by (auto simp: commit_log_def list_all_iff neutral_def dest: set_takeWhileD)
  qed (use that cs in \<open>simp add: commit_log_def\<close>)
qed



section \<open>The rollback\<close>

lemma rollback_branches_safe:
  assumes run: "rollback_branches e msg (tx_tm_aborted (w_tx w) \<or> tx_tse_aborted (w_tx w)) w = Some (err, w')"
    and safe: "safe_msg msg w"
  shows "replied msg w' \<and> trace_ext (\<lambda>a. \<not> ok_reply a) w w'"
proof -
  let ?ec = "tx_tm_aborted (w_tx w) \<or> tx_tse_aborted (w_tx w)"
  obtain e1 w1 where h: "hbase_do e HB_abortTransaction w = (e1, w1)" by force
  with run obtain e2 w2 p w3 where t: "tse_rollback_branches e msg ?ec w1 = Some (e2, w2)"
    and p: "msg_replyPending msg w2 = Some p" and r: "w3 = (if p then w3 else w2)" "p \<Longrightarrow> msg_reply msg w2 = Some w3"
    and c: "w' = snd (completeRequest_branches e w3)"
    by (auto simp: rollback_branches_def hbase_rollback_branches_def bind_Some_iff Let_def case_prod_beta split: if_splits)
  have n1: "trace_ext (\<lambda>a. \<not> ok_reply a) w w1" and h1: "w_heap w1 = w_heap w"
    using hbase_do_bcast [OF h] act_classes(6) by (auto simp: bcast_def quiet_def elim!: trace_ext_mono)
  have n2: "trace_ext (\<lambda>a. \<not> ok_reply a) w1 w2"
    using tse_rollback_quiet [OF t] act_classes(5) by (auto simp: rb_frame_def quiet_def elim!: trace_ext_mono)
  from safe obtain m where m: "w_heap w1 msg = Some m" "ms_msgid m = NULL_MSGID \<or> ms_rspError m \<noteq> FEOK \<and> ?ec"
    by (auto simp: safe_msg_def h1)
  then obtain m' where m': "w_heap w2 msg = Some m'" "ms_msgid m' = NULL_MSGID \<or> ms_rspError m' \<noteq> FEOK"
    using tse_rollback_quiet [OF t] by (fastforce simp: rb_frame_def msg_kept_def)
  have "replied msg w3 \<and> trace_ext (\<lambda>a. \<not> ok_reply a) w2 w3"
    using p r m' by (cases p) (auto simp: msg_replyPending_def msg_at_def msg_reply_def replied_def act_def trace_ext_def)
  moreover have "w_heap w' = w_heap w3" and "trace_ext (\<lambda>a. \<not> ok_reply a) w3 w'"
    unfolding c using completeRequest_bcast [of w3 e] act_classes(8) by (auto simp: bcast_def quiet_def elim!: trace_ext_mono)
  ultimately show ?thesis using n1 n2 by (auto simp: replied_def intro: trace_ext_trans)
qed

lemma enter_state_heap [simp]: "w_heap (enter_state s w) = w_heap w" "w_heap (sync_write s w) = w_heap w"
  by (auto simp: enter_state_def sync_write_def Let_def split: TM_TX_STATE.splits)

lemma hung_aborted_facts:
  "w_heap (hung_aborted w) = w_heap w" "trace_ext calm w v \<Longrightarrow> trace_ext calm w (hung_aborted v)"
  by (auto simp: hung_aborted_def inc_tx_hung_count_def addHungTimerEvent_def addTimerEvent_def intro!: trace_ext_act)

lemma abort_helper_facts:
  assumes "state_change_abort_helper e msg w = Some w'"
  shows "trace_ext abort_only w w' \<and> (tx_state w' = ABORTED \<or> tx_state w' = HUNGABORTED)"
    and "safe_msg msg w \<Longrightarrow> replied msg w' \<and> trace_ext (\<lambda>a. \<not> ok_reply a) w w'"
proof -
  let ?w = "upd_tx (\<lambda>x. x\<lparr> tx_wrote_trans_state := True \<rparr>) w"
  from assms obtain err w2 where r: "rollback_branches e msg (tx_tm_aborted (w_tx ?w) \<or> tx_tse_aborted (w_tx ?w)) ?w = Some (err, w2)"
    and w': "w' = (if err = XA_OK then set_state ABORTED w2 else if is_heuristic err then set_state FORGETTING_HEUR w2 else hung_aborted w2)"
    by (auto simp: state_change_abort_helper_def bind_Some_iff Let_def)
  note q = rollback_branches_quiet [OF r]
  have h: "trace_ext P w2 v \<Longrightarrow> (\<And>a. calm a \<Longrightarrow> P a) \<Longrightarrow> trace_ext P w2 (hung_aborted v)" for v P
    by (auto simp: hung_aborted_def inc_tx_hung_count_def addHungTimerEvent_def addTimerEvent_def intro!: trace_ext_act)
  have "\<not> is_heuristic XAER_RMERR" by (simp add: is_heuristic_def)
  with q w' have st: "w' = set_state ABORTED w2 \<or> w' = hung_aborted w2" by (auto split: if_splits)
  have 2: "trace_ext abort_only w2 (hung_aborted w2)"
    by (auto simp: hung_aborted_def inc_tx_hung_count_def addHungTimerEvent_def addTimerEvent_def intro!: trace_ext_act)
  have "trace_ext abort_only w w2" using q by (simp add: quiet_def trace_ext_def)
  with st 2 show "trace_ext abort_only w w' \<and> (tx_state w' = ABORTED \<or> tx_state w' = HUNGABORTED)"
    by (auto intro: trace_ext_trans)
  show "replied msg w' \<and> trace_ext (\<lambda>a. \<not> ok_reply a) w w'" if "safe_msg msg w"
  proof -
    have "safe_msg msg ?w" using that by (simp add: safe_msg_def)
    from rollback_branches_safe [OF r this] have "replied msg w2" "trace_ext (\<lambda>a. \<not> ok_reply a) w w2"
      by (auto simp: trace_ext_def)
    with st h [of "\<lambda>a. \<not> ok_reply a" w2] show ?thesis
      by (auto simp: replied_def hung_aborted_facts calm_def intro: trace_ext_trans)
  qed
qed

definition rolling :: "TM_TX_STATE \<Rightarrow> bool" where
  "rolling s = (s \<in> {BEGINNING, ACTIVE, ABORTING, ABORTING_PART2, ABORTED, FORGETTING, FORGOTTEN, HUNGABORTED})"

lemma sync_write_abort_only: "trace_ext abort_only w (sync_write s w)" "trace_ext abort_only w (enter_state s w)"
  "trace_ext (\<lambda>a. \<not> ok_reply a) w (sync_write s w)" "trace_ext (\<lambda>a. \<not> ok_reply a) w (enter_state s w)"
  by (auto simp: enter_state_def sync_write_def Let_def intro!: trace_ext_act split: TM_TX_STATE.splits)

lemma sync_write_tx: "w_tx (sync_write s w) = (w_tx w)\<lparr> tx_tx_state := s \<rparr>"
  by (simp add: sync_write_def Let_def split: TM_TX_STATE.splits)

lemma safe_msg_enter: "safe_msg h (enter_state s w) = safe_msg h w" "safe_msg h (sync_write s w) = safe_msg h w"
  by (simp_all add: safe_msg_def enter_state_tx sync_write_tx)

lemma rollback_step_facts:
  assumes "rollback_step e msg err w = Some ((ex, err'), w')" and "rolling (tx_state w)"
  shows "trace_ext abort_only w w' \<and> rolling (tx_state w') \<and> ex \<noteq> Drive_rollback"
    and "ex = Leave \<Longrightarrow> tx_state w' = FORGOTTEN \<or> tx_state w' = HUNGABORTED \<or> tx_state w' = ABORTING_PART2 \<and> sync_mode w"
    and "safe_msg msg w \<Longrightarrow> safe_msg msg w' \<and> trace_ext (\<lambda>a. \<not> ok_reply a) w w'"
proof -
  have en: "trace_ext abort_only w v \<and> trace_ext (\<lambda>a. \<not> ok_reply a) w v \<and> w_heap v = w_heap w \<and> w_tx v = w_tx w"
    if "end_branches e w = Some (er, v)" for er v
    using end_branches_bcast [OF that] abort_only_classes(2) act_classes(1)
    by (auto simp: bcast_def quiet_def elim!: trace_ext_mono)
  have "trace_ext abort_only w w' \<and> rolling (tx_state w') \<and> ex \<noteq> Drive_rollback
     \<and> (ex = Leave \<longrightarrow> tx_state w' = FORGOTTEN \<or> tx_state w' = HUNGABORTED \<or> tx_state w' = ABORTING_PART2 \<and> sync_mode w)
     \<and> (safe_msg msg w \<longrightarrow> safe_msg msg w' \<and> trace_ext (\<lambda>a. \<not> ok_reply a) w w')"
  proof -
    consider "tx_state w = BEGINNING \<or> tx_state w = ACTIVE" | "tx_state w = ABORTING" | "tx_state w = ABORTING_PART2"
      | "tx_state w = ABORTED \<or> tx_state w = FORGETTING" | "tx_state w = FORGOTTEN" | "tx_state w = HUNGABORTED"
      using assms(2) by (auto simp: rolling_def)
    then show ?thesis
    proof cases
      case 1
      with assms(1) obtain er v where v: "end_branches e w = Some (er, v)" "ex = Again" "w' = set_state ABORTING v"
        by (auto simp: rollback_step_def bind_Some_iff)
      with en [OF v(1)] show ?thesis by (simp add: rolling_def safe_msg_def)
    next
      case 2
      with assms(1) show ?thesis
        by (auto simp: rollback_step_def rolling_def safe_msg_enter sync_write_abort_only sync_write_tx split: if_splits)
    next
      case 3
      with assms(1) obtain w1 where "state_change_abort_helper e msg w = Some w1" "ex = Again" "w' = w1"
        by (auto simp: rollback_step_def bind_Some_iff)
      with abort_helper_facts show ?thesis by (auto simp: rolling_def intro: replied_safe)
    next
      case 5
      with assms(1) show ?thesis
        by (auto simp: rollback_step_def rolling_def safe_msg_enter sync_write_abort_only)
    qed (use assms(1) in \<open>auto simp: rollback_step_def rolling_def\<close>)
  qed
  then show "trace_ext abort_only w w' \<and> rolling (tx_state w') \<and> ex \<noteq> Drive_rollback"
    and "ex = Leave \<Longrightarrow> tx_state w' = FORGOTTEN \<or> tx_state w' = HUNGABORTED \<or> tx_state w' = ABORTING_PART2 \<and> sync_mode w"
    and "safe_msg msg w \<Longrightarrow> safe_msg msg w' \<and> trace_ext (\<lambda>a. \<not> ok_reply a) w w'" by blast+
qed

lemma rollback_loop_again:
  assumes "rollback_step e msg err w = Some ((Again, err'), w1)"
  shows "rollback_loop e msg err w = rollback_loop e msg err' w1"
  using assms by (subst rollback_loop.simps) simp

lemma mode_frames [simp]:
  "gi_mode (w_info (sync_write s w)) = gi_mode (w_info w)" "gi_mode (w_info (enter_state s w)) = gi_mode (w_info w)"
  "gi_mode (w_info (hung_aborted w)) = gi_mode (w_info w)"
  by (auto simp: enter_state_def sync_write_def hung_aborted_def inc_tx_hung_count_def addHungTimerEvent_def addTimerEvent_def
      Let_def split: TM_TX_STATE.splits)

lemma rollback_step_mode:
  assumes "rollback_step e msg err w = Some ((ex, err'), w')" and "rolling (tx_state w)"
  shows "gi_mode (w_info w') = gi_mode (w_info w)"
proof -
  have "gi_mode (w_info v) = gi_mode (w_info w)" if "state_change_abort_helper e msg w = Some v" for v
    using that rollback_branches_quiet
    by (fastforce simp: state_change_abort_helper_def bind_Some_iff Let_def quiet_def split: if_splits)
  moreover have "w_info v = w_info w" if "end_branches e w = Some (er, v)" for er v
    using end_branches_bcast [OF that] by (simp add: bcast_def quiet_def)
  ultimately show ?thesis
    using assms by (auto simp: rolling_def rollback_step_def bind_Some_iff split: if_splits)
qed

lemma rollback_loop_facts:
  "rollback_loop e msg err w = Some (err', w') \<Longrightarrow> rolling (tx_state w)
   \<Longrightarrow> trace_ext abort_only w w'
     \<and> (tx_state w' = FORGOTTEN \<or> tx_state w' = HUNGABORTED \<or> tx_state w' = ABORTING_PART2 \<and> sync_mode w)
     \<and> (safe_msg msg w \<longrightarrow> safe_msg msg w' \<and> trace_ext (\<lambda>a. \<not> ok_reply a) w w')"
proof (induction e msg err w rule: rollback_loop.induct)
  case (1 e msg err w)
  from "1.prems"(1) obtain ex er w1 where s: "rollback_step e msg err w = Some ((ex, er), w1)"
    by (subst (asm) rollback_loop.simps) (auto split: option.splits)
  note f = rollback_step_facts [OF s "1.prems"(2)]
  show ?case
  proof (cases ex)
    case Again
    with s "1.prems"(1) have "rollback_loop e msg er w1 = Some (err', w')" using rollback_loop_again by simp
    with "1.IH" [of "((ex, er), w1)"] s Again f(1)
    have ih: "trace_ext abort_only w1 w'
     \<and> (tx_state w' = FORGOTTEN \<or> tx_state w' = HUNGABORTED \<or> tx_state w' = ABORTING_PART2 \<and> sync_mode w1)
     \<and> (safe_msg msg w1 \<longrightarrow> safe_msg msg w' \<and> trace_ext (\<lambda>a. \<not> ok_reply a) w1 w')" by simp
    with f rollback_step_mode [OF s "1.prems"(2)] show ?thesis by (auto intro: trace_ext_trans)
  next
    case Leave
    with s "1.prems"(1) have "w' = w1" by (subst (asm) rollback_loop.simps) simp
    with f Leave show ?thesis by auto
  qed (use f in simp)
qed

lemma rollback_loop_aborted:
  assumes "tx_state w = ABORTED"
  shows "rollback_loop e msg err w = Some (err, enter_state FORGOTTEN (set_state FORGOTTEN (set_state FORGETTING w)))"
  using assms
  by (subst rollback_loop.simps, simp add: rollback_step_def,
      subst rollback_loop.simps, simp add: rollback_step_def,
      subst rollback_loop.simps, simp add: rollback_step_def)

lemma rollback_loop_hung:
  assumes "tx_state w = HUNGABORTED"
  shows "rollback_loop e msg err w = Some (err, w)"
  using assms by (subst rollback_loop.simps) (simp add: rollback_step_def)

lemma rollback_loop_part2:
  assumes "tx_state w = ABORTING_PART2" and "rollback_loop e msg err w = Some (err', w')"
  obtains w1 where "state_change_abort_helper e msg w = Some w1" and "w_heap w' = w_heap w1"
    and "trace_ext (\<lambda>a. abort_only a \<and> \<not> ok_reply a) w1 w'"
proof -
  from assms obtain w1 where h: "state_change_abort_helper e msg w = Some w1"
    by (cases "state_change_abort_helper e msg w") (auto simp: rollback_loop.simps [of e msg err w] rollback_step_def)
  with assms have l: "rollback_loop e msg err w1 = Some (err', w')"
    by (subst rollback_loop_again [symmetric, of _ _ err w]) (simp_all add: rollback_step_def)
  have e: "trace_ext (\<lambda>a. abort_only a \<and> \<not> ok_reply a) v (enter_state s v)" for s v
    by (auto simp: enter_state_def sync_write_def Let_def intro!: trace_ext_act split: TM_TX_STATE.splits)
  from abort_helper_facts(1) [OF h] show ?thesis
  proof (elim conjE disjE)
    assume "tx_state w1 = ABORTED"
    from rollback_loop_aborted [OF this] l
    have "w' = enter_state FORGOTTEN (set_state FORGOTTEN (set_state FORGETTING w1))" by simp
    with that [OF h] e [of "set_state FORGOTTEN (set_state FORGETTING w1)" FORGOTTEN] show ?thesis
      by (simp add: trace_ext_def)
  next
    assume "tx_state w1 = HUNGABORTED"
    from rollback_loop_hung [OF this] l have "w' = w1" by simp
    with that [OF h] show ?thesis by simp
  qed
qed

lemma rollback_branches_told:
  assumes "rollback_branches e msg ec w = Some (err, w')"
  shows "\<exists>rc as. w_trace w' = w_trace w @ Act_hbase HB_abortTransaction rc # as"
proof -
  obtain e1 w1 where h: "hbase_do e HB_abortTransaction w = (e1, w1)" by force
  with assms obtain e2 w2 w3 where t: "tse_rollback_branches e msg ec w1 = Some (e2, w2)"
    and r: "w3 = w2 \<or> msg_reply msg w2 = Some w3" and c: "w' = snd (completeRequest_branches e w3)"
    by (auto simp: rollback_branches_def hbase_rollback_branches_def bind_Some_iff Let_def case_prod_beta split: if_splits)
  from h have "w_trace w1 = w_trace w @ [Act_hbase HB_abortTransaction e1]" by (auto simp: hbase_do_def Let_def)
  moreover obtain as where "w_trace w2 = w_trace w1 @ as"
    using tse_rollback_quiet [OF t] by (auto simp: rb_frame_def quiet_def trace_ext_def)
  moreover obtain bs where "w_trace w3 = w_trace w2 @ bs"
    using r msg_reply_quiet [of msg w2 w3] by (auto simp: quiet_def trace_ext_def)
  moreover obtain cs where "w_trace w' = w_trace w3 @ cs"
    using completeRequest_bcast [of w3 e] c by (auto simp: bcast_def quiet_def trace_ext_def)
  ultimately show ?thesis by auto
qed

lemma abort_helper_told:
  assumes "state_change_abort_helper e msg w = Some w'" and "w_trace w' = w_trace w @ as"
  shows "\<exists>a \<in> set as. rollback_act a"
proof -
  let ?w = "upd_tx (\<lambda>x. x\<lparr> tx_wrote_trans_state := True \<rparr>) w"
  from assms obtain err w2 where r: "rollback_branches e msg (tx_tm_aborted (w_tx ?w) \<or> tx_tse_aborted (w_tx ?w)) ?w = Some (err, w2)"
    and w': "w' = set_state ABORTED w2 \<or> w' = set_state FORGETTING_HEUR w2 \<or> w' = hung_aborted w2"
    by (auto simp: state_change_abort_helper_def bind_Some_iff Let_def split: if_splits)
  obtain rc bs where "w_trace w2 = w_trace w @ Act_hbase HB_abortTransaction rc # bs"
    using rollback_branches_told [OF r] by auto
  moreover obtain cs where "w_trace w' = w_trace w2 @ cs"
    using w' hung_aborted_facts(2) [of w2 w2] by (auto simp: trace_ext_def)
  ultimately have "Act_hbase HB_abortTransaction rc \<in> set as" using assms(2) by auto
  then show ?thesis by (intro bexI) simp_all
qed

text \<open>
  C6: a rollback never tells a branch to commit, never asks for a vote and writes nothing to
  the audit trail, so a transaction without a record is presumed aborted; it ends forgotten,
  hung-aborted, or, in sync mode, waiting for the other transaction managers.
\<close>

theorem presumed_abort:
  assumes "state_change e TX_ROLLBACK msg w = Some (err, w')" and "tx_state w \<noteq> FORGETTING_HEUR"
    and "w_trace w' = w_trace w @ as"
  shows "list_all (\<lambda>a. \<not> commit_act a \<and> \<not> vote_act a \<and> \<not> is_audit a) as
    \<and> (tx_state w' = FORGOTTEN \<or> tx_state w' = HUNGABORTED \<or> tx_state w' = ABORTING_PART2 \<and> sync_mode w)"
proof -
  from assms have "rollback_allowed (tx_state w)" and l: "rollback_loop e msg XA_OK w = Some (err, w')"
    by (auto simp: state_change_def change_rollback_def split: if_splits)
  then have "rolling (tx_state w)" using assms(2) by (auto simp: rollback_allowed_def rolling_def)
  from rollback_loop_facts [OF l this] assms(3)
  show ?thesis
    by (auto simp: trace_ext_append abort_only_def list_all_iff)
qed

theorem presumed_abort_witness:
  "list_all (\<lambda>a. \<not> commit_act a \<and> \<not> vote_act a \<and> \<not> is_audit a)
     (w_trace (snd (the (state_change (sample_env 0 0 0 0) TX_ROLLBACK 0 (sample_world True MSG_ABORTTRANSACTION)))))"
proof -
  let ?w = "sample_world True MSG_ABORTTRANSACTION" let ?r = "state_change (sample_env 0 0 0 0) TX_ROLLBACK 0 ?w"
  have r: "?r = Some (XA_OK, snd (the ?r))" by (rule run_result) code_simp
  have s: "tx_state ?w \<noteq> FORGETTING_HEUR" "w_trace ?w = []" by code_simp+
  show ?thesis using presumed_abort [OF r s(1), of "w_trace (snd (the ?r))"] s(2) by simp
qed

lemma rollback_aborting:
  assumes "tx_state w = ABORTING" and "\<not> sync_mode w" and "safe_msg msg w"
    and "state_change e TX_ROLLBACK msg w = Some (err, w')"
  shows "replied msg w' \<and> trace_ext (\<lambda>a. \<not> ok_reply a) w w'"
proof -
  from assms have l: "rollback_loop e msg XA_OK w = Some (err, w')"
    by (auto simp: state_change_def change_rollback_def split: if_splits)
  with assms(1,2) have l2: "rollback_loop e msg XA_OK (set_state ABORTING_PART2 w) = Some (err, w')"
    by (subst rollback_loop_again [symmetric, of _ _ XA_OK w]) (simp_all add: rollback_step_def)
  from rollback_loop_part2 [OF _ l2] obtain w1 where h: "state_change_abort_helper e msg (set_state ABORTING_PART2 w) = Some w1"
    and w1: "w_heap w' = w_heap w1" "trace_ext (\<lambda>a. abort_only a \<and> \<not> ok_reply a) w1 w'" by auto
  from abort_helper_facts(2) [OF h] assms(3) have "replied msg w1" "trace_ext (\<lambda>a. \<not> ok_reply a) w w1"
    by (auto simp: trace_ext_def)
  moreover have "trace_ext (\<lambda>a. \<not> ok_reply a) w1 w'" using w1(2) by (rule trace_ext_mono) simp
  ultimately show ?thesis using w1(1) by (auto simp: replied_def intro: trace_ext_trans)
qed

section \<open>The answer to an END request\<close>

lemma forget_loop_calm: "forget_loop e w = Some w' \<Longrightarrow> trace_ext calm w w'"
proof (induction e w rule: forget_loop.induct)
  case (1 e w)
  from "1.prems" obtain b w1 where s: "forget_step e w = Some (b, w1)"
    by (subst (asm) forget_loop.simps) (auto split: option.splits)
  have c: "trace_ext calm w w1"
    using s enter_state_calm
    by (auto simp: forget_step_def bind_Some_iff split: TM_TX_STATE.splits dest: forget_heur_calm)
  show ?case
  proof (cases b)
    case True
    with s "1.prems" have "forget_loop e w1 = Some w'" by (subst (asm) forget_loop.simps) simp
    with "1.IH" [of "(b, w1)"] s True have "trace_ext calm w1 w'" by simp
    with c show ?thesis by (rule trace_ext_trans)
  next
    case False
    with s "1.prems" have "w' = w1" by (subst (asm) forget_loop.simps) simp
    with c show ?thesis by simp
  qed
qed

lemma reset_busy_calm:
  assumes "reset_transactionBusy e c w = Some (b, w')"
  shows "trace_ext calm w w'"
  by (rule trace_ext_mono [OF reset_transactionBusy_trace [OF assms]]) (auto intro: calm_reply)

lemma inc_cleanup_ext [simp]: "trace_ext P w (inc_cleanup v) = trace_ext P w v"
  by (simp add: inc_cleanup_def)

lemma req_forget_calm:
  assumes "req_forget e h w = Some (t, w')"
  shows "trace_ext calm w w'"
proof -
  from assms obtain w1 w2 b where w1: "w1 = w \<or> forget_loop e w = Some w1"
    and r: "reset_transactionBusy e True w1 = Some (b, w2)" and w': "w' = w2 \<or> w' = inc_cleanup w2"
    by (auto simp: req_forget_def state_change_def bind_Some_iff Let_def split: if_splits)
  have "trace_ext calm w w1" using w1 forget_loop_calm by auto
  from trace_ext_trans [OF this reset_busy_calm [OF r]] w' show ?thesis by auto
qed

lemma end_complete_committed:
  assumes "tx_state w = FORGOTTEN \<or> tx_state w = HUNGCOMMITTED" and "req_end_complete e h w = Some (t, w')"
  shows "trace_ext neutral w w'"
proof -
  have rb: "trace_ext calm v v'" if "state_change e TX_ROLLBACK h v = Some (er, v')" "tx_state v = tx_state w" for v v' er
    using that assms(1) enter_state_calm
    by (auto simp: state_change_def change_rollback_def rollback_allowed_def rollback_loop.simps [of e h XA_OK v]
        rollback_step_def split: if_splits)
  have co: "trace_ext calm w v'" if "state_change e TX_COMMIT h w = Some (er, v')" for v' er
    using that assms(1) commit_loop_settling [of w e TX_COMMIT h XA_OK]
    by (auto simp: state_change_def change_commit_def settling_def bind_Some_iff split: if_splits)
  have resp: "trace_ext calm w v \<and> tx_state v = tx_state w" if "v = w \<or> msg_responseError h er w = Some v" for v er
    using that by (auto simp: msg_responseError_def msg_update_def trace_ext_def split: option.splits)
  obtain w1 where "trace_ext calm w w1" and r: "msg_reply_if_pending h FEOK w1 = Some w'"
  proof (cases "tx_isAborting (w_tx w)")
    case True
    with assms(2) obtain v er w1 where v: "v = w \<or> msg_responseError h FEABORTEDTRANSID w = Some v"
      and s: "state_change e TX_ROLLBACK h v = Some (er, w1)" and r: "msg_reply_if_pending h FEOK w1 = Some w'"
      by (auto simp: req_end_complete_def bind_Some_iff split: if_splits)
    from resp [OF v] rb [OF s] have "trace_ext calm w w1" by (auto intro: trace_ext_trans)
    with r that show ?thesis by blast
  next
    case False
    with assms(2) obtain er w1 where "state_change e TX_COMMIT h w = Some (er, w1)" and "msg_reply_if_pending h FEOK w1 = Some w'"
      by (auto simp: req_end_complete_def bind_Some_iff)
    with co that show ?thesis by blast
  qed
  moreover have "trace_ext neutral w1 w'"
    by (rule trace_ext_mono [OF msg_reply_if_pending_trace [OF r]]) (auto simp: reply_of_def)
  ultimately show ?thesis using trace_ext_mono calm_phase2(2) by (blast intro: trace_ext_trans)
qed

lemma reply_if_replied: "replied h w \<Longrightarrow> msg_reply_if_pending h err w = Some w"
  by (auto simp: replied_def msg_reply_if_pending_def msg_replyPending_def msg_at_def)

lemma responseError_safe:
  assumes "safe_msg h w" and "err \<noteq> FEOK" and "v = w \<or> msg_responseError h err w = Some v"
  shows "safe_msg h v" and "w_tx v = w_tx w" and "w_info v = w_info w" and "w_trace v = w_trace w"
  using assms by (auto simp: safe_msg_def msg_responseError_def msg_update_def split: option.splits)

lemma end_complete_aborting:
  assumes "tx_state w = ABORTING" and "\<not> sync_mode w" and "safe_msg h w" and "req_end_complete e h w = Some (t, w')"
  shows "trace_ext (\<lambda>a. \<not> ok_reply a) w w'"
proof -
  from assms(1,4) obtain v er w1 where v: "v = w \<or> msg_responseError h FEABORTEDTRANSID w = Some v"
    and s: "state_change e TX_ROLLBACK h v = Some (er, w1)" and r: "msg_reply_if_pending h FEOK w1 = Some w'"
    by (auto simp: req_end_complete_def tx_isAborting_def bind_Some_iff split: if_splits)
  note f = responseError_safe [OF assms(3) _ v, simplified]
  from rollback_aborting [OF _ _ f(1) s] assms f have "replied h w1" "trace_ext (\<lambda>a. \<not> ok_reply a) v w1" by simp_all
  with reply_if_replied r f show ?thesis by (simp add: trace_ext_def)
qed

lemma rollback_changeD:
  "state_change e TX_ROLLBACK h w = Some (er, w') \<Longrightarrow> rollback_loop e h XA_OK w = Some (er, w') \<and> rollback_allowed (tx_state w)"
  by (auto simp: state_change_def change_rollback_def split: if_splits)

lemma abort_completeE:
  assumes "req_abort_complete e h w = Some (t, w')"
  obtains w1 p where "w1 = w \<or> (\<exists>er. state_change e TX_ROLLBACK h w = Some (er, w1))"
    and "tx_state w = FORGETTING \<or> tx_state w = FORGOTTEN \<or> (\<exists>er. state_change e TX_ROLLBACK h w = Some (er, w1))"
    and "msg_replyPending h w1 = Some p" and "w' = w1 \<and> \<not> p \<or> p \<and> msg_reply h w1 = Some w'"
proof -
  from assms obtain w1 p where w0: "(if tx_state w \<noteq> FORGETTING \<and> tx_state w \<noteq> FORGOTTEN
      then do { (_, v) \<leftarrow> state_change e TX_ROLLBACK h w; Some v } else Some w) = Some w1"
    and p: "msg_replyPending h w1 = Some p" and r: "(if p then msg_reply h w1 else Some w1) = Some w'"
    unfolding req_abort_complete_def bind_Some_iff by blast
  have "w' = w1 \<and> \<not> p \<or> p \<and> msg_reply h w1 = Some w'" using r by (cases p) auto
  with w0 p that [of w1 p] show ?thesis by (auto simp: bind_Some_iff split: if_splits)
qed

lemma abort_complete_safe:
  assumes "safe_msg h w" and "req_abort_complete e h w = Some (t, w')" and "rolling (tx_state w)"
  shows "trace_ext (\<lambda>a. \<not> ok_reply a) w w'"
proof -
  from assms(2) obtain w1 p where w1: "w1 = w \<or> (\<exists>er. state_change e TX_ROLLBACK h w = Some (er, w1))"
    and p: "msg_replyPending h w1 = Some p" and r: "w' = w1 \<and> \<not> p \<or> p \<and> msg_reply h w1 = Some w'"
    by (elim abort_completeE)
  have "safe_msg h w1 \<and> trace_ext (\<lambda>a. \<not> ok_reply a) w w1"
    using w1 assms(1,3) by (auto dest!: rollback_changeD rollback_loop_facts)
  then show ?thesis using p r
    by (auto simp: safe_msg_def msg_replyPending_def msg_at_def msg_reply_def act_def trace_ext_def split: if_splits)
qed

lemma ok_free_mono: "trace_ext phase1 w w' \<Longrightarrow> trace_ext (\<lambda>a. \<not> ok_reply a) w w'"
  "trace_ext calm w w' \<Longrightarrow> trace_ext (\<lambda>a. \<not> ok_reply a) w w'"
  by (erule trace_ext_mono, simp add: phase1_def calm_def)+

text \<open>A commit that is answered with success before or after its outcome is settled.\<close>

definition agreed_run :: "tm_world \<Rightarrow> tm_world \<Rightarrow> bool" where
  "agreed_run w w' = (\<exists>as. w_trace w' = w_trace w @ as \<and> all_agreed as \<and> list_all (\<lambda>a. \<not> rollback_act a) as)"

lemma commit_outcome_agreed:
  assumes "commit_outcome w w'"
  shows "agreed_run w w'"
proof -
  from assms obtain cs bs x where c: "w_trace w' = w_trace w @ cs @ bs" "list_all phase1 cs" "all_agreed cs" "phase2_run x bs"
    by (auto simp: commit_outcome_def)
  note p = phase2_run_facts(1) [OF c(4)]
  have "all_agreed (cs @ bs)"
    using c(3) p all_agreed_no_votes [of bs] by (intro all_agreed_append) (auto simp: list_all_iff)
  moreover have "list_all (\<lambda>a. \<not> rollback_act a) (cs @ bs)"
    using c(2) p phase1_facts by (auto simp: list_all_iff)
  ultimately show ?thesis using c(1) unfolding agreed_run_def by blast
qed

lemma agreed_run_neutral:
  assumes "agreed_run w v" and "trace_ext neutral v w'"
  shows "agreed_run w w'"
proof -
  from assms obtain as bs where as: "w_trace v = w_trace w @ as" "all_agreed as" "list_all (\<lambda>a. \<not> rollback_act a) as"
    and bs: "w_trace w' = w_trace v @ bs" "list_all neutral bs"
    unfolding agreed_run_def trace_ext_def by blast
  have "all_agreed bs" using bs(2) by (intro all_agreed_no_votes) (auto simp: list_all_iff neutral_def)
  with as bs show ?thesis unfolding agreed_run_def
    by (intro exI [of _ "as @ bs"]) (auto simp: list_all_iff neutral_def)
qed

lemma agreed_run_calm: "agreed_run w v \<Longrightarrow> trace_ext calm v w' \<Longrightarrow> agreed_run w w'"
  by (rule agreed_run_neutral) (auto elim: trace_ext_mono simp: calm_def)

lemma agreed_run_send [simp]: "agreed_run (send_commit_tx w) w' = agreed_run w w'"
  "trace_ext P (send_commit_tx w) w' = trace_ext P w w'" "tx_state (send_commit_tx w) = tx_state w"
  by (simp_all add: agreed_run_def send_commit_tx_def)

text \<open>The END of a joiner that is not the beginner dooms the transaction.\<close>

lemma end_by_stranger:
  assumes "state_change_abort_set h err w = Some w1" and "state_change e TX_ROLLBACK h w1 = Some (er, w2)"
    and "req_abort_complete e h w2 = Some (t, w3)" and "err \<noteq> FEOK"
  shows "trace_ext (\<lambda>a. \<not> ok_reply a) w w3"
proof -
  have r: "replied h w1" and st: "tx_state w1 = ABORTING"
    using abort_set_replied [OF assms(1)] abort_set_state [OF assms(1)] .
  have 1: "trace_ext (\<lambda>a. \<not> ok_reply a) w w1"
    using assms(1,4) unfolding state_change_abort_set_def
    by (auto simp: reply_of_def inc_tm_initiated_aborts_def dest!: msg_reply_if_pending_trace elim!: trace_ext_mono)
  have l: "rollback_loop e h XA_OK w1 = Some (er, w2)"
    using assms(2) by (auto simp: state_change_def change_rollback_def split: if_splits)
  from rollback_loop_facts [OF l] st replied_safe [OF r]
  have 2: "safe_msg h w2" "trace_ext (\<lambda>a. \<not> ok_reply a) w1 w2"
    "rolling (tx_state w2)" by (auto simp: rolling_def)
  have "trace_ext (\<lambda>a. \<not> ok_reply a) w2 w3" using abort_complete_safe [OF 2(1) assms(3) 2(3)] .
  with 1 2 show ?thesis by (blast intro: trace_ext_trans)
qed

lemma req_end_outcome:
  assumes "req_end e h w = Some (t, w')" and "tx_state w = ACTIVE"
  shows "agreed_run w w' \<or> trace_ext (\<lambda>a. \<not> ok_reply a) w w'"
proof -
  from assms(1) obtain m where m: "msg_at h w = Some m" by (auto simp: req_end_def bind_Some_iff)
  consider (stranger) "tx_ender_pid (w_tx w) \<noteq> ms_pid m"
    | (joined) "tx_ender_pid (w_tx w) = ms_pid m" "tx_num_active_partic (w_tx w) > 1"
    | (commit) "tx_ender_pid (w_tx w) = ms_pid m" "\<not> tx_num_active_partic (w_tx w) > 1" by blast
  then show ?thesis
  proof cases
    case stranger
    with assms m obtain w1 er w2 t2 w3 where a: "state_change_abort_set h FEABORTEDTRANSID w = Some w1"
      "state_change e TX_ROLLBACK h w1 = Some (er, w2)" "req_abort_complete e h w2 = Some (t2, w3)" and f: "req_forget e h w3 = Some (t, w')"
      by (auto simp: req_end_def bind_Some_iff)
    from end_by_stranger [OF a] req_forget_calm [OF f] ok_free_mono show ?thesis by (auto intro: trace_ext_trans)
  next
    case joined
    with assms m obtain w1 b where r: "msg_reply_error h FEJOINSOUTSTANDING w = Some w1"
      and b: "reset_transactionBusy e False w1 = Some (b, w')"
      by (auto simp: req_end_def bind_Some_iff)
    have "trace_ext (\<lambda>a. \<not> ok_reply a) w w1"
      by (rule trace_ext_mono [OF msg_reply_error_trace [OF r]]) (auto simp: reply_of_def)
    with ok_free_mono(2) [OF reset_busy_calm [OF b]] show ?thesis by (auto intro: trace_ext_trans)
  next
    case commit
    with assms m obtain er w1 where s: "state_change e TX_COMMIT h (send_commit_tx w) = Some (er, w1)"
      and r0: "(if \<not> sync_mode w1 then do { (_, w2) \<leftarrow> req_end_complete e h w1; req_forget e h w2 }
                else Some (False, upd_tx (\<lambda>x. snd (remove_app_partic (ms_pid m) (ms_nid m) x)) w1)) = Some (t, w')"
      by (cases "state_change e TX_COMMIT h (send_commit_tx w)") (auto simp: req_end_def)
    from r0 have r: "if sync_mode w1 then w' = upd_tx (\<lambda>x. snd (remove_app_partic (ms_pid m) (ms_nid m) x)) w1
              else (\<exists>t2 w2. req_end_complete e h w1 = Some (t2, w2) \<and> req_forget e h w2 = Some (t, w'))"
      by (auto simp: bind_Some_iff split: if_splits)
    from s have "change_commit e TX_COMMIT h XA_OK (send_commit_tx w) = Some (er, w1)" by (simp add: state_change_def)
    from change_commit_outcome [OF _ this] assms(2)
    consider (settled) "commit_outcome (send_commit_tx w) w1"
      | (sync) "sync_mode w1" "trace_ext phase1 w w1" | (abort) "\<not> sync_mode w1" "tx_state w1 = ABORTING" "safe_msg h w1" "trace_ext phase1 w w1"
      by (auto split: if_splits)
    then show ?thesis
    proof cases
      case settled
      then have ag: "agreed_run w w1" and st: "tx_state w1 = FORGOTTEN \<or> tx_state w1 = HUNGCOMMITTED"
        using commit_outcome_agreed by (force, simp add: commit_outcome_def)
      have "agreed_run w w'"
      proof (cases "sync_mode w1")
        case True
        with ag r show ?thesis by (simp add: agreed_run_def)
      next
        case False
        with r obtain t2 w2 where c: "req_end_complete e h w1 = Some (t2, w2)" and f: "req_forget e h w2 = Some (t, w')" by auto
        from agreed_run_calm [OF agreed_run_neutral [OF ag end_complete_committed [OF st c]] req_forget_calm [OF f]]
        show ?thesis .
      qed
      then show ?thesis ..
    next
      case sync
      with r ok_free_mono show ?thesis by simp
    next
      case abort
      with r obtain t2 w2 where c: "req_end_complete e h w1 = Some (t2, w2)" and f: "req_forget e h w2 = Some (t, w')" by auto
      from end_complete_aborting [OF abort(2,1,3) c] ok_free_mono(1) [OF abort(4)] ok_free_mono(2) [OF req_forget_calm [OF f]]
      show ?thesis by (blast intro: trace_ext_trans)
    qed
  qed
qed




end
