(* ===== verification/Tm_Requests.thy ===== *)
theory Tm_Requests
  imports Tm_TwoPhase
begin

text \<open>
  What the requests of a transaction are made of: operations that decide nothing (replies,
  queues, registration) and steps of the state machine.  A relation between worlds that
  the former respect and the latter satisfy holds for the service of every request; the
  locale below carries that argument once for all such relations.
\<close>

section \<open>Operations that decide nothing\<close>

definition hung_count :: "tm_world \<Rightarrow> int" where
  "hung_count w = gi_tx_hung_count (w_info w)"

definition idle :: "tm_world \<Rightarrow> tm_world \<Rightarrow> bool" where
  "idle w w' = (trace_ext neutral w w' \<and> tx_state w' = tx_state w \<and> hung_count w' = hung_count w)"

lemma idle_refl [simp]: "idle w w"
  by (simp add: idle_def)

lemma idle_trans [trans]: "idle u v \<Longrightarrow> idle v w \<Longrightarrow> idle u w"
  by (auto simp: idle_def intro: trace_ext_trans)

lemma idle_same: "w_trace w' = w_trace w \<Longrightarrow> tx_state w' = tx_state w \<Longrightarrow> hung_count w' = hung_count w \<Longrightarrow> idle w w'"
  by (simp add: idle_def trace_ext_def)

lemma hung_count_upd [simp]:
  "hung_count (upd_tx f w) = hung_count w" "hung_count (upd_tse g w) = hung_count w" "hung_count (tick w) = hung_count w"
  "hung_count (act a w) = hung_count w" "hung_count (set_state s w) = hung_count w" "hung_count (w\<lparr> w_gtse := gt \<rparr>) = hung_count w"
  "hung_count (w\<lparr> w_tse := t \<rparr>) = hung_count w" "hung_count (w\<lparr> w_tx := x \<rparr>) = hung_count w"
  "hung_count (w\<lparr> w_heap := hp \<rparr>) = hung_count w" "hung_count (inc_cleanup w) = hung_count w"
  "hung_count (send_commit_tx w) = hung_count w" "hung_count (send_abort_tx w) = hung_count w"
  "hung_count (send_begin_tx w) = hung_count w" "hung_count (push_disassociated w) = hung_count w"
  by (simp_all add: hung_count_def inc_cleanup_def send_commit_tx_def send_abort_tx_def send_begin_tx_def push_disassociated_def)

lemma msg_info:
  "msg_update h f w = Some w' \<Longrightarrow> w_info w' = w_info w"
  "msg_responseError h err w = Some w' \<Longrightarrow> w_info w' = w_info w"
  "msg_delete h w = Some w' \<Longrightarrow> w_info w' = w_info w"
  "msg_reply h w = Some w' \<Longrightarrow> w_info w' = w_info w"
  "msg_reply_error h err w = Some w' \<Longrightarrow> w_info w' = w_info w"
  "msg_reply_if_pending h err w = Some w' \<Longrightarrow> w_info w' = w_info w"
  by (auto simp: msg_update_def msg_responseError_def msg_delete_def msg_reply_def msg_reply_error_def
      msg_reply_if_pending_def bind_Some_iff split: option.splits if_splits)

lemma reply_idle:
  "msg_reply_error h err w = Some w' \<Longrightarrow> idle w w'"
  "msg_reply_if_pending h err w = Some w' \<Longrightarrow> idle w w'"
  "msg_reply h w = Some w' \<Longrightarrow> idle w w'"
  "msg_update h f w = Some w' \<Longrightarrow> idle w w'"
  "msg_responseError h err w = Some w' \<Longrightarrow> idle w w'"
  "msg_delete h w = Some w' \<Longrightarrow> idle w w'"
proof -
  show "msg_reply_error h err w = Some w' \<Longrightarrow> idle w w'"
    by (frule msg_reply_error_trace, frule msg_frames(5), drule msg_info(5)) (auto simp: idle_def hung_count_def reply_of_def elim!: trace_ext_mono)
  show "msg_reply_if_pending h err w = Some w' \<Longrightarrow> idle w w'"
    by (frule msg_reply_if_pending_trace, frule msg_frames(6), drule msg_info(6)) (auto simp: idle_def hung_count_def reply_of_def elim!: trace_ext_mono)
  show "msg_reply h w = Some w' \<Longrightarrow> idle w w'"
    by (drule msg_reply_quiet) (auto simp: quiet_def idle_def hung_count_def elim!: trace_ext_mono)
  show u: "msg_update h f w = Some w' \<Longrightarrow> idle w w'" for f
    using msg_update_trace msg_frames(1) msg_info(1) by (auto intro!: idle_same simp: hung_count_def)
  show "msg_responseError h err w = Some w' \<Longrightarrow> idle w w'"
    using u by (simp add: msg_responseError_def)
  show "msg_delete h w = Some w' \<Longrightarrow> idle w w'"
    using msg_delete_trace msg_frames(3) msg_info(3) by (auto intro!: idle_same simp: hung_count_def)
qed

lemma eventQ_push_idle: "eventQ_push e m a w = Some w' \<Longrightarrow> idle w w'"
  by (rule idle_same [OF eventQ_push_trace eventQ_push_state], assumption+)
    (auto simp: eventQ_push_def Let_def split: option.splits if_splits)

lemma cleanup_pending_idle: "cleanup_pending n w = Some w' \<Longrightarrow> idle w w'"
proof (induction n arbitrary: w)
  case (Suc n)
  obtain r w1 where p: "pop_pending w = (r, w1)" by force
  then have w1: "idle w w1" by (auto simp: pop_pending_def Let_def intro!: idle_same split: prod.splits)
  show ?case
  proof (cases r)
    case (Some h)
    with Suc.prems p obtain w2 w3 err where "msg_reply_if_pending h err w1 = Some w2" "msg_delete h w2 = Some w3"
      and l: "cleanup_pending n w3 = Some w'"
      by (auto simp: bind_Some_iff)
    then have "idle w1 w3" using idle_trans [OF reply_idle(2) reply_idle(6)] by blast
    from idle_trans [OF w1 idle_trans [OF this Suc.IH [OF l]]] show ?thesis .
  qed (use Suc.prems p w1 in simp)
qed simp

lemma serve_pending_idle:
  assumes "serve_pending e c w = Some w'"
  shows "idle w w'"
proof (cases c)
  case True
  with assms cleanup_pending_idle show ?thesis by (auto simp: serve_pending_def)
next
  case False
  obtain r w1 where p: "pop_pending w = (r, w1)" by force
  then have w1: "idle w w1" by (auto simp: pop_pending_def Let_def intro!: idle_same split: prod.splits)
  show ?thesis
  proof (cases r)
    case (Some h)
    with False assms p obtain w2 where q: "eventQ_push e (Some h) False w1 = Some w2" and c: "set_currRequest (Some h) w2 = Some w'"
      by (auto simp: serve_pending_def bind_Some_iff)
    have "idle w2 w'" using c by (auto simp: set_currRequest_def intro!: idle_same split: if_splits)
    from idle_trans [OF w1 idle_trans [OF eventQ_push_idle [OF q] this]] show ?thesis .
  qed (use False assms p w1 in \<open>simp add: serve_pending_def\<close>)
qed

lemma reset_busy_idle:
  assumes "reset_transactionBusy e c w = Some (b, w')"
  shows "idle w w'"
proof (cases "tx_transactionBusy (w_tx w)")
  case True
  with assms obtain w1 w2 where d: "delete_currRequest w = Some w1" and s: "serve_pending e c w1 = Some w2"
    and w': "w' = w2 \<or> w' = upd_tx (\<lambda>x. x\<lparr> tx_transactionBusy := False \<rparr>) w2"
    by (auto simp: reset_transactionBusy_def bind_Some_iff Let_def split: if_splits)
  from d obtain v where v: "v = w \<or> (\<exists>h. msg_delete h w = Some v)" and w1: "w1 = upd_tx (\<lambda>x. x\<lparr> tx_currRequest := None \<rparr>) v"
    by (auto simp: delete_currRequest_def bind_Some_iff split: option.splits)
  have "idle w v" using v reply_idle(6) by auto
  also have "idle v w1" by (auto simp: w1 intro!: idle_same)
  also have "idle w1 w2" using s by (rule serve_pending_idle)
  also have "idle w2 w'" using w' by (auto intro!: idle_same)
  finally show ?thesis .
qed (use assms in \<open>simp add: reset_transactionBusy_def\<close>)

lemma queue_internal_idle: "queue_internal e m w = Some (r, w') \<Longrightarrow> idle w w'"
proof -
  assume "queue_internal e m w = Some (r, w')"
  then obtain h w1 b where n: "msg_new m w = (h, w1)" and q: "queueToTransaction e (tx_transid (w_tx w1)) h w1 = Some (b, w')"
    by (auto simp: queue_internal_def bind_Some_iff Let_def split: prod.splits)
  from n have "idle w w1" by (auto simp: msg_new_def idle_def trace_ext_def hung_count_def)
  also from q obtain g w2 where g: "txn_object_good (tx_transid (w_tx w1)) h w1 = Some (g, w2)"
    and r: "w' = w2 \<or> (\<exists>a. eventQ_push e (Some h) a w2 = Some w')"
    by (auto simp: queueToTransaction_def bind_Some_iff split: if_splits)
  have "idle w1 w2" using g
    by (auto simp: txn_object_good_def bind_Some_iff split: if_splits intro: idle_trans [OF reply_idle(1) reply_idle(6)])
  also have "idle w2 w'" using r eventQ_push_idle by auto
  finally show "idle w w'" .
qed

lemma schedule_abort_idle: "schedule_abort e w = Some (r, w') \<Longrightarrow> idle w w'"
  by (auto simp: schedule_abort_def internal_abortTrans_def bind_Some_iff split: if_splits dest: queue_internal_idle)

lemma remove_app_partic_state [simp]: "tx_tx_state (snd (remove_app_partic p n x)) = tx_tx_state x"
  by (simp add: remove_app_partic_def split: prod.splits)

lemma register_reply_idle:
  assumes "register_reply h i active err w = Some (err', w')" and "tx_state w \<noteq> COMMITTED"
  shows "idle w w'"
proof -
  from assms(1) obtain m where m: "msg_at h w = Some m" by (auto simp: register_reply_def bind_Some_iff)
  with assms(1) obtain w1 where u: "msg_update h (\<lambda>m. m\<lparr> ms_rspXid := br_xid (branch_at i w) \<rparr>) w = Some w1"
    by (auto simp: register_reply_def bind_Some_iff)
  with assms(1) m obtain w3 err2 where
      v: "msg_update h (\<lambda>x. x\<lparr> ms_rspFlags := tx_TT_flags (w_tx (snd (merge_TT_flags (ms_flags m) w1))) \<rparr>)
              (snd (merge_TT_flags (ms_flags m) w1)) = Some w3"
    and r: "msg_responseError h err2 w3 = Some w'"
    by (auto simp: register_reply_def bind_Some_iff Let_def case_prod_beta simp del: if_split)
  let ?w2 = "snd (merge_TT_flags (ms_flags m) w1)"
  have "tx_state w1 \<noteq> COMMITTED" using msg_frames(1) [OF u] assms(2) by simp
  have "idle w w1" using u by (rule reply_idle)
  also have "idle w1 ?w2" using \<open>tx_state w1 \<noteq> COMMITTED\<close>
    by (auto simp: merge_TT_flags_def Let_def write_trans_state_def tx_set_TT_flags_def idle_def intro!: trace_ext_act
        split: if_splits)
  also have "idle ?w2 w3" using v by (rule reply_idle)
  also have "idle w3 w'" using r by (rule reply_idle)
  finally show ?thesis .
qed

lemma register_branch_idle:
  assumes "register_branch rmid msg w = Some (err, w')" and nc: "tx_state w \<noteq> COMMITTED"
  shows "idle w w'"
  proof (cases "tse_return_slot rmid (w_tse w)")
    case (Some i)
    define w1 where "w1 = (if accepts_branches (tx_state w) then w\<lparr> w_tse := snd (tse_register (tx_transid (w_tx w)) rmid (w_tse w)) \<rparr> else w)"
    have k: "idle w w1" and s: "tx_state w1 = tx_state w" by (auto simp: w1_def intro: idle_same)
    from assms(1) Some consider "w' = w1" | h a er where "register_reply h i a er w1 = Some (err, w')"
      by (cases msg) (auto simp: register_branch_def w1_def Let_def case_prod_beta)
    then show ?thesis
    proof cases
      case 2
      from idle_trans [OF k register_reply_idle [OF 2]] s nc show ?thesis by simp
    qed (simp add: k)
  qed (use assms in \<open>auto simp: register_branch_def\<close>)

lemma join_partic_idle: "join_partic pid nid w = Some w' \<Longrightarrow> idle w w'"
  by (auto simp: join_partic_def add_app_partic_def bind_Some_iff Let_def split: option.splits intro!: idle_same)

lemma req_join_idle:
  assumes "req_join h w = Some (t, w')"
  shows "idle w w'"
proof -
  from assms obtain w1 w2 where w1: "idle w w1" and u: "msg_update h (\<lambda>m. m\<lparr> ms_rspTm_pid := gi_nid (w_info w1) \<rparr>) w1 = Some w2"
    and r: "msg_reply_error h FEOK w2 = Some w'"
  proof -
    from assms obtain m w1 w2 where m: "msg_at h w = Some m"
      and a: "(if tx_state w \<noteq> NOTX \<and> tx_state w \<noteq> BEGINNING \<and> tx_state w \<noteq> ACTIVE
                 then msg_responseError h FEENDEDTRANSID w
                 else do { w0 \<leftarrow> msg_responseError h FEOK w;
                           if ms_coord_role m
                           then if tx_ender_pid (w_tx w0) = - 1
                                then join_partic (ms_pid m) (ms_nid m)
                                       (upd_tx (\<lambda>x. x\<lparr> tx_ender_pid := ms_pid m \<rparr>) w0)
                                else msg_responseError h FETXNOTSUSPENDED w0
                           else join_partic (ms_pid m) (ms_nid m) w0 }) = Some w1"
      and u: "msg_update h (\<lambda>m. m\<lparr> ms_rspTm_pid := gi_nid (w_info w1) \<rparr>) w1 = Some w2"
      and r: "msg_reply_error h FEOK w2 = Some w'"
      unfolding req_join_def bind_Some_iff by blast
    have "idle w w1"
    proof (cases "tx_state w \<noteq> NOTX \<and> tx_state w \<noteq> BEGINNING \<and> tx_state w \<noteq> ACTIVE")
      case True
      with a show ?thesis using reply_idle(5) by simp
    next
      case False
      with a obtain w0 v where "msg_responseError h FEOK w = Some w0" and v: "v = w0 \<or> v = upd_tx (\<lambda>x. x\<lparr> tx_ender_pid := ms_pid m \<rparr>) w0"
        and "join_partic (ms_pid m) (ms_nid m) v = Some w1 \<or> msg_responseError h FETXNOTSUSPENDED v = Some w1"
        by (auto simp: bind_Some_iff split: if_splits)
      moreover have "idle w0 v" using v by (auto intro!: idle_same)
      ultimately show ?thesis using reply_idle(5) join_partic_idle idle_trans by metis
    qed
    with u r that show ?thesis by blast
  qed
  from idle_trans [OF w1 idle_trans [OF reply_idle(4) [OF u] reply_idle(1) [OF r]]] show ?thesis .
qed

lemma req_status_idle: "req_status h w = Some (t, w') \<Longrightarrow> idle w w'"
  by (auto simp: req_status_def bind_Some_iff intro: idle_trans [OF reply_idle(4) reply_idle(1)])

lemma req_suspend_idle:
  assumes "req_suspend h w = Some (t, w')"
  shows "idle w w'"
proof -
  from assms obtain v err w1 where r: "msg_responseError h err v = Some w1" and p: "msg_reply h w1 = Some w'"
    and v: "w_trace v = w_trace w" "tx_state v = tx_state w" "hung_count v = hung_count w"
    by (fastforce simp: req_suspend_def bind_Some_iff Let_def remove_app_partic_def split: if_splits prod.splits)
  have "idle w v" using v by (rule idle_same)
  from idle_trans [OF this idle_trans [OF reply_idle(5) [OF r] reply_idle(3) [OF p]]] show ?thesis .
qed

lemma req_ax_reg_idle:
  assumes "req_ax_reg h w = Some (t, w')" and "tx_state w \<noteq> COMMITTED"
  shows "idle w w'"
proof -
  from assms(1) obtain rm err w1 f w2 where g: "register_branch rm (Some h) w = Some (err, w1)" and u: "msg_update h f w1 = Some w2"
    and r: "msg_reply_error h err w2 = Some w'"
    by (auto simp: req_ax_reg_def bind_Some_iff)
  from idle_trans [OF register_branch_idle [OF g assms(2)] idle_trans [OF reply_idle(4) [OF u] reply_idle(1) [OF r]]] show ?thesis .
qed

lemma req_registerRegion_idle:
  assumes "req_registerRegion e h w = Some (t, w')"
  shows "idle w w'"
proof -
  obtain err w1 where h: "registerRegion e w = (err, w1)" by force
  with assms obtain w2 b where r: "msg_reply_if_pending h err w1 = Some w2" and p: "reset_transactionBusy e False w2 = Some (b, w')"
    by (auto simp: req_registerRegion_def bind_Some_iff)
  have "idle w w1" using h
    by (auto simp: registerRegion_def hbase_registerRegion_def hbase_do_def Let_def neutral_def idle_def hung_count_def intro!: trace_ext_act)
  from idle_trans [OF this idle_trans [OF reply_idle(2) [OF r] reset_busy_idle [OF p]]] show ?thesis .
qed

lemma hung_count_state [simp]:
  "tx_state (cancel_hung_event w) = tx_state w" "tx_state (dec_tx_hung_count w) = tx_state w"
  by (simp_all add: cancel_hung_event_def dec_tx_hung_count_def)

lemma req_forget_idle:
  assumes "req_forget e h w = Some (t, w')" and "tx_state w \<noteq> FORGETTING_HEUR" and "tx_state w \<noteq> FORGOTTEN_HEUR"
  shows "idle w w'"
proof -
  from assms obtain b w2 where r: "reset_transactionBusy e True w = Some (b, w2)" and w': "w' = w2 \<or> w' = inc_cleanup w2"
    by (auto simp: req_forget_def bind_Some_iff Let_def split: if_splits)
  have "idle w2 w'" using w' by (auto simp: inc_cleanup_def intro!: idle_same)
  with idle_trans [OF reset_busy_idle [OF r]] show ?thesis by blast
qed

section \<open>The service of a request\<close>

text \<open>The states that outlive the service of a request, and those with the decision taken.\<close>

definition stable :: "TM_TX_STATE \<Rightarrow> bool" where
  "stable s = (s \<in> {NOTX, BEGINNING, ACTIVE, ABORTING, ABORTING_PART2, HUNGABORTED, COMMITTING, HUNGCOMMITTED, FORGOTTEN})"

definition decided :: "TM_TX_STATE \<Rightarrow> bool" where
  "decided s = (s = COMMITTING \<or> s = HUNGCOMMITTED \<or> s = FORGOTTEN)"

text \<open>
  When a request can be served: a redrive request is queued by the timer of a hung transaction
  and by recovery, for the outcome that hangs; and an END request of a process that is not
  the beginner does not come in a guarded state.
\<close>

definition due :: "(TM_TX_STATE \<Rightarrow> bool) \<Rightarrow> nat \<Rightarrow> TM_MSG_TYPE \<Rightarrow> tm_world \<Rightarrow> bool" where
  "due guarded h ty w =
     (case ty of
        TXINTERNAL_REDRIVECOMMIT \<Rightarrow> tx_state w = HUNGCOMMITTED \<or> tx_state w = COMMITTING
      | TXINTERNAL_REDRIVEROLLBACK \<Rightarrow> tx_state w = HUNGABORTED \<or> tx_state w = ABORTING
      | MSG_ENDTRANSACTION \<Rightarrow>
          guarded (tx_state w) \<longrightarrow> map_option ms_pid (w_heap w h) = Some (tx_ender_pid (w_tx w))
      | _ \<Rightarrow> True)"

text \<open>The start of a redrive: a hung transaction is counted as hung no longer, its timer is cancelled.\<close>

abbreviation redriven :: "TM_TX_STATE \<Rightarrow> tm_world \<Rightarrow> tm_world" where
  "redriven s w \<equiv> cancel_hung_event (if tx_state w = s then dec_tx_hung_count w else w)"

locale request_invariant =
  fixes R :: "tm_world \<Rightarrow> tm_world \<Rightarrow> bool" and guarded :: "TM_TX_STATE \<Rightarrow> bool"
  assumes R_trans [trans]: "R u v \<Longrightarrow> R v w \<Longrightarrow> R u w"
    and R_idle: "idle w w' \<Longrightarrow> R w w'"
    and R_unstable: "\<not> stable (tx_state w) \<Longrightarrow> R w w'"
    and R_change: "state_change e ev h w = Some (err, w') \<Longrightarrow> ev \<in> {TX_BEGIN, TX_BEGIN_COMPLETE, TX_COMMIT, TX_ROLLBACK} \<Longrightarrow> R w w'"
    and R_abort_set: "state_change_abort_set h err w = Some w' \<Longrightarrow> \<not> guarded (tx_state w) \<Longrightarrow> R w w'"
    and R_redrive_commit: "state_change e TX_REDRIVE_COMMIT h (redriven HUNGCOMMITTED w) = Some (err, w')
          \<Longrightarrow> tx_state w = HUNGCOMMITTED \<or> tx_state w = COMMITTING \<Longrightarrow> R w w'"
    and R_redrive_rollback: "state_change e TX_REDRIVE_ROLLBACK h (redriven HUNGABORTED w) = Some (err, w')
          \<Longrightarrow> tx_state w = HUNGABORTED \<or> tx_state w = ABORTING \<Longrightarrow> R w w'"
    and R_redrive_sync: "redrive_sync e h w = Some (t, w') \<Longrightarrow> R w w'"
begin

lemma R_rollback: "state_change e TX_ROLLBACK h w = Some (err, w') \<Longrightarrow> R w w'"
  by (erule R_change) simp

lemma req_forget_R:
  assumes "req_forget e h w = Some (t, w')"
  shows "R w w'"
proof (cases "stable (tx_state w)")
  case True
  with req_forget_idle [OF assms] show ?thesis by (auto simp: stable_def intro: R_idle)
qed (rule R_unstable)

lemma abort_complete_R:
  assumes "req_abort_complete e h w = Some (t, w')"
  shows "R w w'"
proof -
  from assms obtain w1 p where w1: "w1 = w \<or> (\<exists>er. state_change e TX_ROLLBACK h w = Some (er, w1))"
    and r: "w' = w1 \<and> \<not> p \<or> p \<and> msg_reply h w1 = Some w'" by (elim abort_completeE)
  have "R w w1" using w1 R_rollback R_idle [OF idle_refl] by auto
  also have "R w1 w'" using r R_idle [OF reply_idle(3)] R_idle [OF idle_refl] by auto
  finally show ?thesis .
qed

lemma end_complete_R:
  assumes "req_end_complete e h w = Some (t, w')"
  shows "R w w'"
proof -
  obtain w1 where k: "R w w1" and r: "msg_reply_if_pending h FEOK w1 = Some w'"
  proof (cases "tx_isAborting (w_tx w)")
    case True
    with assms obtain v er w1 where v: "v = w \<or> msg_responseError h FEABORTEDTRANSID w = Some v"
      and s: "state_change e TX_ROLLBACK h v = Some (er, w1)" and r: "msg_reply_if_pending h FEOK w1 = Some w'"
      by (auto simp: req_end_complete_def bind_Some_iff split: if_splits)
    have "R w v" using v R_idle [OF reply_idle(5)] R_idle [OF idle_refl] by auto
    also have "R v w1" using s by (rule R_rollback)
    finally show ?thesis using that r by blast
  next
    case False
    with assms obtain er w1 where "state_change e TX_COMMIT h w = Some (er, w1)" and "msg_reply_if_pending h FEOK w1 = Some w'"
      by (auto simp: req_end_complete_def bind_Some_iff)
    then show ?thesis by (intro that [of w1]) (auto intro: R_change)
  qed
  from R_trans [OF k R_idle [OF reply_idle(2) [OF r]]] show ?thesis .
qed

lemma req_end_R:
  assumes "req_end e h w = Some (t, w')"
    and "guarded (tx_state w) \<Longrightarrow> \<exists>m. msg_at h w = Some m \<and> ms_pid m = tx_ender_pid (w_tx w)"
  shows "R w w'"
proof -
  from assms(1) obtain m where m: "msg_at h w = Some m" by (auto simp: req_end_def bind_Some_iff)
  consider (stranger) "tx_ender_pid (w_tx w) \<noteq> ms_pid m"
    | (ended) "tx_ender_pid (w_tx w) = ms_pid m" "tx_state w \<noteq> ACTIVE" "tx_state w \<noteq> COMMITTED"
    | (joined) "tx_ender_pid (w_tx w) = ms_pid m" "tx_state w = ACTIVE" "tx_num_active_partic (w_tx w) > 1"
    | (commit) "tx_ender_pid (w_tx w) = ms_pid m" "tx_state w = ACTIVE" "\<not> tx_num_active_partic (w_tx w) > 1"
    | (odd) "tx_state w = COMMITTED" by blast
  then show ?thesis
  proof cases
    case stranger
    with assms m obtain w1 er w2 t2 w3 where a: "state_change_abort_set h FEABORTEDTRANSID w = Some w1"
      "state_change e TX_ROLLBACK h w1 = Some (er, w2)" "req_abort_complete e h w2 = Some (t2, w3)" and f: "req_forget e h w3 = Some (t, w')"
      by (auto simp: req_end_def bind_Some_iff)
    have "R w w1" using a(1) assms(2) m stranger by (intro R_abort_set) auto
    also have "R w1 w2" using a(2) by (rule R_rollback)
    also have "R w2 w3" using a(3) by (rule abort_complete_R)
    also have "R w3 w'" using f by (rule req_forget_R)
    finally show ?thesis .
  next
    case ended
    with assms(1) m obtain err w1 where "msg_reply_error h err w = Some w1" "req_forget e h w1 = Some (t, w')"
      by (auto simp: req_end_def bind_Some_iff)
    then show ?thesis using R_trans [OF R_idle [OF reply_idle(1)] req_forget_R] by blast
  next
    case joined
    with assms(1) m obtain w1 b where "msg_reply_error h FEJOINSOUTSTANDING w = Some w1" "reset_transactionBusy e False w1 = Some (b, w')"
      by (auto simp: req_end_def bind_Some_iff)
    then show ?thesis using R_trans [OF R_idle [OF reply_idle(1)] R_idle [OF reset_busy_idle]] by blast
  next
    case commit
    with assms m obtain er w1 where s: "state_change e TX_COMMIT h (send_commit_tx w) = Some (er, w1)"
      and r: "(if \<not> sync_mode w1 then do { (_, w2) \<leftarrow> req_end_complete e h w1; req_forget e h w2 }
                else Some (False, upd_tx (\<lambda>x. snd (remove_app_partic (ms_pid m) (ms_nid m) x)) w1)) = Some (t, w')"
      by (cases "state_change e TX_COMMIT h (send_commit_tx w)") (auto simp: req_end_def)
    have "R w (send_commit_tx w)" by (rule R_idle) (simp add: idle_def send_commit_tx_def hung_count_def)
    also have "R \<dots> w1" using s by (rule R_change) simp
    also have "R w1 w'"
    proof (cases "sync_mode w1")
      case True
      with r show ?thesis by (auto intro!: R_idle idle_same simp: remove_app_partic_def split: prod.splits)
    next
      case False
      with r obtain t2 w2 where "req_end_complete e h w1 = Some (t2, w2)" "req_forget e h w2 = Some (t, w')" by (auto simp: bind_Some_iff)
      then show ?thesis using R_trans [OF end_complete_R req_forget_R] by blast
    qed
    finally show ?thesis .
  next
    case odd
    then show ?thesis by (intro R_unstable) (simp add: stable_def)
  qed
qed

lemma begin_complete_request_R:
  assumes "req_begin_complete e h w = Some (t, w')"
  shows "R w w'"
proof -
  from assms obtain er w1 b where "state_change e TX_BEGIN_COMPLETE h w = Some (er, w1)" "reset_transactionBusy e False w1 = Some (b, w')"
    by (auto simp: req_begin_complete_def bind_Some_iff)
  then show ?thesis using R_trans [OF R_change R_idle [OF reset_busy_idle]] by blast
qed

lemma req_begin_R:
  assumes "req_begin e h w = Some (t, w')"
  shows "R w w'"
proof -
  let ?w = "send_begin_tx w"
  from assms obtain w2 er w3 where u: "msg_update h (\<lambda>m. m\<lparr> ms_rspTransid := tx_transid (w_tx ?w), ms_rspTag := tx_tag (w_tx ?w) \<rparr>) ?w = Some w2"
    and s: "state_change e TX_BEGIN h (initialize_tx_rms (gi_RMPartic (w_info w2)) w2) = Some (er, w3)"
    by (auto simp: req_begin_def bind_Some_iff Let_def)
  have "R w ?w" by (rule R_idle) (simp add: idle_def send_begin_tx_def hung_count_def)
  also have "R ?w w2" using u by (rule R_idle [OF reply_idle(4)])
  also have "R w2 (initialize_tx_rms (gi_RMPartic (w_info w2)) w2)"
    by (rule R_idle [OF idle_same]) (simp_all add: initialize_tx_rms_def init_rms_def hbase_init_rms_def)
  also have "R \<dots> w3" using s by (rule R_change) simp
  also have "R w3 w'"
  proof -
    from assms u s obtain m where m: "msg_at h w3 = Some m"
      and r: "(if ms_rspError m = FEOK
          then if \<not> sync_mode w3 then do { (_, w4) \<leftarrow> req_begin_complete e h w3; Some (False, w4) } else Some (False, w3)
          else do { p \<leftarrow> msg_replyPending h w3; w4 \<leftarrow> (if p then msg_reply h w3 else Some w3);
                    (_, w5) \<leftarrow> schedule_abort e w4; Some (False, w5) }) = Some (t, w')"
      by (cases "msg_at h w3") (auto simp: req_begin_def Let_def)
    show ?thesis
    proof (cases "ms_rspError m = FEOK")
      case True
      with r show ?thesis using R_idle [OF idle_refl] by (auto simp: bind_Some_iff split: if_splits dest: begin_complete_request_R)
    next
      case False
      with r obtain w4 q where "w4 = w3 \<or> msg_reply h w3 = Some w4" "schedule_abort e w4 = Some (q, w')"
        by (auto simp: bind_Some_iff split: if_splits)
      then show ?thesis using R_trans [OF R_idle [OF reply_idle(3)] R_idle [OF schedule_abort_idle]] R_idle [OF schedule_abort_idle] by blast
    qed
  qed
  finally show ?thesis .
qed

lemma rollback_txn_R:
  assumes "rollback_txn e h w = Some (t, w')"
  shows "R w w'"
proof (cases "rollback_allowed (tx_state w) \<and> tx_state w \<noteq> FORGETTING_HEUR")
  case True
  with assms obtain er where "state_change e TX_ROLLBACK h w = Some (er, w')" by (auto simp: rollback_txn_def bind_Some_iff)
  then show ?thesis by (rule R_rollback)
next
  case False
  with assms obtain err w1 b w2 where r: "msg_reply_if_pending h err w = Some w1" "reset_transactionBusy e False w1 = Some (b, w2)"
    and w': "w' = w2 \<or> w' = inc_cleanup w2"
    unfolding rollback_txn_def by (auto simp: bind_Some_iff split: if_splits)
  have "idle w2 w'" using w' by (auto simp: inc_cleanup_def intro!: idle_same)
  with R_idle [OF idle_trans [OF reply_idle(2) [OF r(1)] idle_trans [OF reset_busy_idle [OF r(2)]]]] show ?thesis by blast
qed

lemma rollback_completion_R:
  assumes "rollback_completion e h (b, w) = Some (t, w')"
  shows "R w w'"
proof (cases "\<not> sync_mode w \<and> \<not> b")
  case True
  with assms obtain w1 where "w1 = w \<or> (\<exists>t2. req_abort_complete e h w = Some (t2, w1))" and "req_forget e h w1 = Some (t, w')"
    by (auto simp: rollback_completion_def bind_Some_iff split: if_splits)
  then show ?thesis using R_trans [OF abort_complete_R req_forget_R] req_forget_R by blast
qed (use assms R_idle [OF idle_refl] in \<open>auto simp: rollback_completion_def\<close>)

lemma req_abort_R:
  assumes "req_abort e h w = Some (t, w')"
  shows "R w w'"
proof (cases "stable (tx_state w)")
  case True
  then have nc: "tx_state w \<noteq> COMMITTED" by (auto simp: stable_def)
  let ?w = "send_abort_tx w"
  from assms obtain m where m: "msg_at h w = Some m" by (auto simp: req_abort_def bind_Some_iff)
  obtain rmid g where g: "tse_return_rmid (env_process_name e (ms_nid m) (ms_pid m)) (ms_nid m) (ms_pid m) (w_gtse ?w) = (rmid, g)" by force
  have k: "idle w (?w\<lparr> w_gtse := g \<rparr>)" "idle w (upd_tx (\<lambda>x. x\<lparr> tx_appl_aborted := True \<rparr>) ?w)" "tx_state (?w\<lparr> w_gtse := g \<rparr>) \<noteq> COMMITTED"
    using nc by (simp_all add: idle_def send_abort_tx_def hung_count_def trace_ext_def)
  show ?thesis
  proof (cases "ms_requestType m = MSG_TSE_DOOMTX \<and> rmid = - 1")
    case True
    with assms m g obtain w2 where "msg_reply_error h FENOTFOUND (?w\<lparr> w_gtse := g \<rparr>) = Some w2" "msg_delete h w2 = Some w'"
      by (auto simp: req_abort_def bind_Some_iff Let_def)
    then show ?thesis using R_idle [OF idle_trans [OF k(1) idle_trans [OF reply_idle(1) reply_idle(6)]]] by blast
  next
    case False
    with assms m g obtain w2 f w4 r where a: "(if ms_requestType m = MSG_TSE_DOOMTX
          then do { (_, v) \<leftarrow> register_branch rmid None (?w\<lparr> w_gtse := g \<rparr>); Some (upd_tx (\<lambda>x. x\<lparr> tx_tse_aborted := True \<rparr>) v) }
          else Some (upd_tx (\<lambda>x. x\<lparr> tx_appl_aborted := True \<rparr>) ?w)) = Some w2"
      and u: "msg_update h f (upd_tx (\<lambda>x. snd (remove_app_partic (ms_pid m) (ms_nid m) x)) w2) = Some w4"
      and r: "rollback_txn e h w4 = Some r" and c: "rollback_completion e h r = Some (t, w')"
      by (auto simp: req_abort_def bind_Some_iff Let_def simp del: if_split)
    have "idle w w2"
    proof (cases "ms_requestType m = MSG_TSE_DOOMTX")
      case True
      with a obtain er v where v: "register_branch rmid None (?w\<lparr> w_gtse := g \<rparr>) = Some (er, v)"
        and "w2 = upd_tx (\<lambda>x. x\<lparr> tx_tse_aborted := True \<rparr>) v" by (auto simp: bind_Some_iff)
      then have "idle v w2" by (auto intro!: idle_same)
      with idle_trans [OF k(1) idle_trans [OF register_branch_idle [OF v k(3)]]] show ?thesis by blast
    qed (use a k(2) in simp)
    also have "idle w2 (upd_tx (\<lambda>x. snd (remove_app_partic (ms_pid m) (ms_nid m) x)) w2)" by (rule idle_same) simp_all
    also have "idle \<dots> w4" using u by (rule reply_idle)
    finally have "R w w4" by (rule R_idle)
    also have "R w4 (snd r)" using r by (cases r) (auto intro: rollback_txn_R)
    also have "R (snd r) w'" using c by (cases r) (auto intro: rollback_completion_R)
    finally show ?thesis .
  qed
qed (rule R_unstable)

lemma redrivecommit_R:
  assumes "redrivecommit_txn e h w = Some (t, w')" and "tx_state w = HUNGCOMMITTED \<or> tx_state w = COMMITTING"
  shows "R w w'"
proof -
  from assms(1) obtain er w2 where s: "state_change e TX_REDRIVE_COMMIT h (redriven HUNGCOMMITTED w) = Some (er, w2)"
    and f: "(if \<not> sync_mode w2 then req_forget e h w2 else Some (False, w2)) = Some (t, w')"
    unfolding redrivecommit_txn_def by (auto simp: bind_Some_iff Let_def simp del: if_split)
  have "R w w2" using s assms(2) by (rule R_redrive_commit)
  also have "R w2 w'" using f R_idle [OF idle_refl] by (cases "sync_mode w2") (auto dest: req_forget_R)
  finally show ?thesis .
qed

lemma redriverollback_R:
  assumes "redriverollback_txn e h w = Some (t, w')" and "tx_state w = HUNGABORTED \<or> tx_state w = ABORTING"
  shows "R w w'"
proof -
  from assms(1) obtain er w2 where s: "state_change e TX_REDRIVE_ROLLBACK h (redriven HUNGABORTED w) = Some (er, w2)"
    and f: "(if \<not> sync_mode w2 then req_forget e h w2 else Some (False, w2)) = Some (t, w')"
    unfolding redriverollback_txn_def by (auto simp: bind_Some_iff Let_def simp del: if_split)
  have "R w w2" using s assms(2) by (rule R_redrive_rollback)
  also have "R w2 w'" using f R_idle [OF idle_refl] by (cases "sync_mode w2") (auto dest: req_forget_R)
  finally show ?thesis .
qed

lemma req_ax_reg_R: "req_ax_reg h w = Some (t, w') \<Longrightarrow> R w w'"
  by (cases "tx_state w = COMMITTED") (auto intro: R_idle req_ax_reg_idle R_unstable simp: stable_def)

theorem dispatch_R:
  assumes "dispatch e h ty w = Some (t, w')" and "due guarded h ty w"
  shows "R w w'"
proof -
  have e: "R w w'" if "req_end e h w = Some (t, w')" "guarded (tx_state w) \<longrightarrow> map_option ms_pid (w_heap w h) = Some (tx_ender_pid (w_tx w))"
    using that by (intro req_end_R [OF that(1)]) (auto simp: msg_at_def)
  have r: "R w w'" if "do { r \<leftarrow> rollback_txn e h w; rollback_completion e h r } = Some (t, w')"
  proof -
    from that obtain b v where "rollback_txn e h w = Some (b, v)" "rollback_completion e h (b, v) = Some (t, w')"
      by (auto simp: bind_Some_iff)
    then show ?thesis using R_trans [OF rollback_txn_R rollback_completion_R] by blast
  qed
  show ?thesis
  proof (cases ty)
    case MSG_ENDTRANSACTION
    with assms e show ?thesis by (simp add: dispatch_def due_def)
  next
    case TXINTERNAL_ROLLBACK
    with assms r show ?thesis by (simp add: dispatch_def)
  qed (use assms R_idle [OF idle_refl] in \<open>auto simp: dispatch_def due_def
      dest: req_begin_R req_abort_R R_idle [OF req_status_idle] req_ax_reg_R R_idle [OF req_registerRegion_idle]
        R_idle [OF req_join_idle] R_idle [OF req_suspend_idle] redriverollback_R redrivecommit_R abort_complete_R
        end_complete_R req_forget_R begin_complete_request_R R_redrive_sync\<close>)
qed

end

end
