(* ===== verification/Tm_Atomicity.thy ===== *)
theory Tm_Atomicity
  imports Tm_Requests
begin

text \<open>
  The life of a transaction as a sequence of requests, and the agreement of everything that
  was done for it on one outcome.
\<close>

section \<open>Beginning\<close>

lemma msg_reply_error_quiet:
  "msg_reply_error h err w = Some w' \<Longrightarrow> quiet (reply_of (\<lambda>x. x = err)) w w'"
  by (auto simp: quiet_def dest: msg_reply_error_trace msg_frames)
    (auto simp: msg_reply_error_def msg_responseError_def msg_update_def msg_reply_def bind_Some_iff split: option.splits if_splits)

lemma start_send_loop_bcast:
  "start_send_loop e is count tr reply w = Some (r, w') \<Longrightarrow> bcast (xa_of XA_START) w w'"
proof (induction "is" arbitrary: count tr reply w)
  case (Cons i "is")
  obtain rc w1 where s: "xa_send e XA_START (br_rmid (branch_at i w)) w = (rc, w1)" by force
  note w1 = xa_send_bcast [OF s]
  show ?case using Cons.prems s
    by (auto simp: bind_Some_iff Let_def split: if_splits
        dest!: Cons.IH send_failed_bcast [where P = "xa_of XA_START"] intro: bcast_trans [OF w1] bcast_trans [OF bcast_trans [OF w1]])
qed simp

lemma start_completions_bcast: "start_completions rs retry tr w = Some (r, w') \<Longrightarrow> bcast P w w'"
proof (induction rs arbitrary: retry tr w)
  case (Cons p rs)
  obtain rmid err where p: "p = (rmid, err)" by force
  show ?case using Cons.prems unfolding p
    by (auto simp: bind_Some_iff upd_branch_def split: if_splits dest!: Cons.IH)
qed simp

lemma start_branches_neutral:
  assumes "start_branches e msg w = Some (err, w')"
  shows "quiet neutral w w' \<and> err = FEOK"
proof -
  from assms obtain er w1 er2 where t: "tse_start_branches e msg w = Some (er, w1)"
    and h: "hbase_start_branches e w1 = Some (er2, w')" and err: "err = FEOK"
    by (auto simp: start_branches_def bind_Some_iff)
  from t obtain r w2 reply w3 n r3 w4 where s: "start_send_loop e (slot_range w) 0 XA_OK FEOK w = Some (r, w2)"
    and m: "msg_reply_error msg reply w2 = Some w3" and c: "complete_all e XA_START n w3 = Some (r3, w4)"
    and d: "w1 = w4 \<or> (\<exists>rs retry tr r4. start_completions rs retry tr w4 = Some (r4, w1))"
    by (auto simp: tse_start_branches_def bind_Some_iff split: if_splits) blast+
  have x: "xa_of XA_START a \<Longrightarrow> neutral a" for a by (cases a) (auto simp: neutral_def)
  have "quiet neutral w w2" using start_send_loop_bcast [OF s] x by (auto simp: bcast_def elim: quiet_mono)
  also have "quiet neutral w2 w3" using msg_reply_error_quiet [OF m] by (rule quiet_mono) (auto simp: reply_of_def)
  also have "quiet neutral w3 w4" using complete_all_bcast [OF c] x by (auto simp: bcast_def elim: quiet_mono)
  also have "quiet neutral w4 w1" using d start_completions_bcast [where P = neutral] by (auto simp: bcast_def)
  also have "quiet neutral w1 w'" using h
    by (auto simp: hbase_start_branches_def hbase_do_def Let_def neutral_def quiet_def intro!: trace_ext_act split: if_splits)
  finally show ?thesis using err by simp
qed

section \<open>The invariant\<close>

text \<open>
  Which actions a transaction in a given state can have behind it.  The states that are left
  out do not outlive the service of a request.
\<close>

definition commit_side :: "tm_act \<Rightarrow> bool" where
  "commit_side a = (commit_act a \<or> commit_record a)"

fun agrees :: "TM_TX_STATE \<Rightarrow> tm_act list \<Rightarrow> bool" where
  "agrees NOTX as = (\<not> list_ex commit_side as \<and> \<not> list_ex rollback_act as)"
| "agrees BEGINNING as = (\<not> list_ex commit_side as \<and> \<not> list_ex rollback_act as)"
| "agrees ACTIVE as = (\<not> list_ex commit_side as \<and> \<not> list_ex rollback_act as)"
| "agrees ABORTING as = (\<not> list_ex commit_side as)"
| "agrees ABORTING_PART2 as = (\<not> list_ex commit_side as)"
| "agrees HUNGABORTED as = (\<not> list_ex commit_side as)"
| "agrees COMMITTING as = (\<not> list_ex rollback_act as)"
| "agrees HUNGCOMMITTED as = (\<not> list_ex rollback_act as)"
| "agrees FORGOTTEN as = (\<not> (list_ex commit_side as \<and> list_ex rollback_act as))"
| "agrees _ as = False"

definition keeps :: "tm_world \<Rightarrow> tm_world \<Rightarrow> bool" where
  "keeps w w' =
     (\<forall>as. agrees (tx_state w) as \<longrightarrow> (\<exists>bs. w_trace w' = w_trace w @ bs \<and> agrees (tx_state w') (as @ bs)))"

lemma keeps_trans [trans]: "keeps u v \<Longrightarrow> keeps v w \<Longrightarrow> keeps u w"
  by (fastforce simp: keeps_def)

lemma keeps_neutral:
  assumes "trace_ext neutral w w'" and "tx_state w' = tx_state w"
  shows "keeps w w'"
proof -
  from assms(1) obtain bs where bs: "w_trace w' = w_trace w @ bs" "list_all neutral bs" by (elim trace_extE)
  from bs(2) have "\<not> list_ex commit_side bs" "\<not> list_ex rollback_act bs"
    by (auto simp: list_all_iff list_ex_iff neutral_def commit_side_def)
  then have "agrees s as \<Longrightarrow> agrees s (as @ bs)" for s as by (cases s) auto
  with bs(1) assms(2) show ?thesis by (auto simp: keeps_def)
qed

lemma keeps_same: "w_trace w' = w_trace w \<Longrightarrow> tx_state w' = tx_state w \<Longrightarrow> keeps w w'"
  by (rule keeps_neutral) (simp_all add: trace_ext_def)

lemma keeps_refl [simp]: "keeps w w"
  by (rule keeps_same) simp_all

lemma keeps_calm: "trace_ext calm w w' \<Longrightarrow> tx_state w' = tx_state w \<Longrightarrow> keeps w w'"
  by (rule keeps_neutral) (auto elim: trace_ext_mono simp: calm_def)

lemma keeps_commit_outcome:
  assumes "commit_outcome w w'" and "tx_state w = ACTIVE \<or> tx_state w = COMMITTING \<or> tx_state w = HUNGCOMMITTED"
  shows "keeps w w'"
proof -
  from commit_outcome_agreed [OF assms(1)] obtain bs where bs: "w_trace w' = w_trace w @ bs" "\<not> list_ex rollback_act bs"
    by (auto simp: agreed_run_def list_all_iff list_ex_iff)
  moreover have "tx_state w' = FORGOTTEN \<or> tx_state w' = HUNGCOMMITTED" using assms(1) by (simp add: commit_outcome_def)
  ultimately show ?thesis using assms(2) by (auto simp: keeps_def)
qed

lemma keeps_rollback:
  assumes "trace_ext abort_only w w'" and "tx_state w \<in> {BEGINNING, ACTIVE, ABORTING, ABORTING_PART2, HUNGABORTED}"
    and "tx_state w' = FORGOTTEN \<or> tx_state w' = HUNGABORTED \<or> tx_state w' = ABORTING_PART2 \<or> tx_state w' = ABORTING"
  shows "keeps w w'"
proof -
  from assms(1) obtain bs where bs: "w_trace w' = w_trace w @ bs" "list_all abort_only bs" by (elim trace_extE)
  have "abort_only a \<Longrightarrow> \<not> commit_side a" for a by (cases a rule: commit_record.cases) (auto simp: abort_only_def commit_side_def)
  with bs(2) have "\<not> list_ex commit_side bs" by (auto simp: list_all_iff list_ex_iff)
  with bs(1) assms(2,3) show ?thesis by (auto simp: keeps_def)
qed

lemma keeps_unstable: "\<not> stable (tx_state w) \<Longrightarrow> keeps w w'"
  by (cases "tx_state w") (auto simp: keeps_def stable_def)

section \<open>The state machine\<close>

lemma commit_keeps:
  assumes "change_commit e ev msg err w = Some (err', w')"
  shows "keeps w w'"
proof (cases "tx_state w = ACTIVE")
  case True
  from change_commit_outcome [OF True assms] show ?thesis
  proof
    assume "tx_state w' = (if sync_mode w' then ABORTING_PART2 else ABORTING) \<and> trace_ext phase1 w w'
      \<and> (\<not> sync_mode w' \<longrightarrow> safe_msg msg w')"
    then obtain bs where "tx_state w' = ABORTING_PART2 \<or> tx_state w' = ABORTING" "w_trace w' = w_trace w @ bs" "list_all phase1 bs"
      by (auto simp: trace_ext_def split: if_splits)
    then show ?thesis using True phase1_facts by (auto simp: keeps_def list_all_iff list_ex_iff commit_side_def)
  qed (use True in \<open>simp add: keeps_commit_outcome\<close>)
next
  case False
  from assms obtain b er w1 where l: "commit_loop e ev msg err w = Some ((b, er), w1)"
    and r: "(if b then change_rollback e msg er w1 else Some (er, w1)) = Some (err', w')" and c: "commit_allowed (tx_state w)"
    by (auto simp: change_commit_def bind_Some_iff split: if_splits)
  show ?thesis
  proof (cases "tx_state w = COMMITTING")
    case True
    with committing_outcome [OF True l] r show ?thesis by (auto intro: keeps_commit_outcome)
  next
    case nc: False
    show ?thesis
    proof (cases "tx_state w = FORGOTTEN \<or> tx_state w = HUNGCOMMITTED")
      case True
      with commit_loop_leave [OF True] l r have "w' = (if tx_state w = FORGOTTEN then enter_state FORGOTTEN w else w)" by auto
      then show ?thesis using enter_state_calm [of w] by (auto intro!: keeps_calm)
    next
      case s: False
      with nc False c have "\<not> stable (tx_state w)" by (auto simp: commit_allowed_def stable_def)
      then show ?thesis by (rule keeps_unstable)
    qed
  qed
qed

lemma rollback_keeps:
  assumes "change_rollback e msg err w = Some (err', w')"
  shows "keeps w w'"
proof (cases "stable (tx_state w)")
  case True
  from assms have a: "rollback_allowed (tx_state w)" and l: "rollback_loop e msg err w = Some (err', w')"
    by (auto simp: change_rollback_def split: if_splits)
  show ?thesis
  proof (cases "tx_state w = FORGOTTEN")
    case True
    with l have "w' = enter_state FORGOTTEN w" by (auto simp: rollback_loop.simps [of e msg err w] rollback_step_def)
    then show ?thesis using True enter_state_calm by (auto intro!: keeps_calm)
  next
    case False
    with a True have s: "tx_state w \<in> {BEGINNING, ACTIVE, ABORTING, ABORTING_PART2, HUNGABORTED}"
      by (auto simp: rollback_allowed_def stable_def)
    then have "rolling (tx_state w)" by (auto simp: rolling_def)
    from rollback_loop_facts [OF l this] s show ?thesis by (intro keeps_rollback) auto
  qed
qed (rule keeps_unstable)

lemma forget_keeps:
  assumes "forget_loop e w = Some w'" and "tx_state w = FORGOTTEN"
  shows "keeps w w'"
  using assms by (auto simp: forget_loop.simps [of e w] forget_step_def intro: keeps_same)

lemma begin_keeps:
  assumes "change_begin e msg w = Some (err, w')"
  shows "keeps w w'"
proof (cases "tx_state w = NOTX")
  case True
  with assms obtain w1 where "trace_ext neutral w w1" and w': "w' = enter_state BEGINNING w1"
    by (auto simp: change_begin_def bind_Some_iff quiet_def split: if_splits dest!: start_branches_neutral)
  moreover have "trace_ext neutral w1 w'" unfolding w'
    by (rule trace_ext_mono [OF enter_state_calm]) (simp add: calm_def)
  ultimately have "trace_ext neutral w w'" by (blast intro: trace_ext_trans)
  then obtain bs where "w_trace w' = w_trace w @ bs" "list_all neutral bs" by (elim trace_extE)
  then show ?thesis using True w' by (auto simp: keeps_def list_all_iff list_ex_iff neutral_def commit_side_def)
next
  case False
  with assms have "tx_state w = BEGINNING" "w' = enter_state BEGINNING w" by (auto simp: change_begin_def split: TM_TX_STATE.splits)
  then show ?thesis using enter_state_calm by (auto intro!: keeps_calm)
qed

lemma begin_complete_keeps:
  assumes "change_begin_complete e msg w = Some (err, w')"
  shows "keeps w w'"
  using assms rollback_keeps by (auto simp: change_begin_complete_def keeps_def split: if_splits)

lemma redrive_commit_keeps:
  assumes "state_change e TX_REDRIVE_COMMIT msg w = Some (err, w')" and "tx_state w = HUNGCOMMITTED \<or> tx_state w = COMMITTING"
  shows "keeps w w'"
proof -
  from assms(1) obtain b er w1 where l: "commit_loop e TX_REDRIVE_COMMIT msg XA_OK (set_state COMMITTED w) = Some ((b, er), w1)"
    and r: "(if b then change_rollback e msg er w1 else Some (er, w1)) = Some (err, w')"
    by (auto simp: state_change_def change_commit_def bind_Some_iff split: if_splits)
  from committed_outcome [OF _ l] r have "commit_outcome (set_state COMMITTED w) w'" by auto
  then have "commit_outcome w w'" by (auto simp: commit_outcome_def tt_read_only_def tx_TT_flags_def)
  then show ?thesis using assms(2) by (auto intro: keeps_commit_outcome)
qed

lemma redrive_rollback_keeps:
  assumes "state_change e TX_REDRIVE_ROLLBACK msg w = Some (err, w')" and "tx_state w = HUNGABORTED \<or> tx_state w = ABORTING"
  shows "keeps w w'"
proof -
  from assms(1) have "change_rollback e msg XA_OK (set_state ABORTING_PART2 w) = Some (err, w')" by (simp add: state_change_def)
  then have "keeps (set_state ABORTING_PART2 w) w'" by (rule rollback_keeps)
  with assms(2) show ?thesis by (auto simp: keeps_def)
qed

lemma state_change_keeps:
  assumes "state_change e ev msg w = Some (err, w')" and "ev \<in> {TX_BEGIN, TX_BEGIN_COMPLETE, TX_COMMIT, TX_ROLLBACK}"
  shows "keeps w w'"
  using assms by (auto simp: state_change_def intro: begin_keeps begin_complete_keeps commit_keeps rollback_keeps)

lemma abort_set_keeps:
  assumes "state_change_abort_set h err w = Some w'" and "\<not> decided (tx_state w)"
  shows "keeps w w'"
proof -
  from assms(1) have "trace_ext neutral w w'"
    by (auto simp: state_change_abort_set_def inc_tm_initiated_aborts_def reply_of_def dest!: msg_reply_if_pending_trace elim!: trace_ext_mono)
  then obtain bs where "w_trace w' = w_trace w @ bs" "list_all neutral bs" by (elim trace_extE)
  moreover from this have "\<not> list_ex commit_side bs" by (auto simp: list_all_iff list_ex_iff neutral_def commit_side_def)
  ultimately show ?thesis
    using assms(2) abort_set_state [OF assms(1)] by (cases "tx_state w") (auto simp: keeps_def decided_def)
qed

lemma redriven_keeps: "keeps w (redriven s w)"
  by (rule keeps_neutral) (auto simp: cancel_hung_event_def dec_tx_hung_count_def intro!: trace_ext_act)

lemma redrive_sync_keeps:
  assumes "redrive_sync e h w = Some (t, w')"
  shows "keeps w w'"
proof (cases "stable (tx_state w)")
  case True
  from assms obtain er where r: "(case tx_state w of
                        BEGINNING \<Rightarrow> state_change e TX_BEGIN h w
                      | COMMITTED \<Rightarrow> state_change e TX_COMMIT h (set_state COMMITTING w)
                      | ABORTED \<Rightarrow> state_change e TX_ROLLBACK h (set_state ABORTING w)
                      | ABORTING_PART2 \<Rightarrow> state_change e TX_ROLLBACK h (set_state ABORTING w)
                      | FORGOTTEN \<Rightarrow> state_change e TX_FORGET h (set_state FORGETTING w)
                      | FORGETTING_HEUR \<Rightarrow> state_change e TX_FORGET h w
                      | _ \<Rightarrow> None) = Some (er, w')"
    unfolding redrive_sync_def by (auto simp: bind_Some_iff)
  show ?thesis
  proof (cases "tx_state w")
    case BEGINNING
    with r have "state_change e TX_BEGIN h w = Some (er, w')" by simp
    then show ?thesis by (rule state_change_keeps) simp
  next
    case ABORTING_PART2
    with r have "state_change e TX_ROLLBACK h (set_state ABORTING w) = Some (er, w')" by simp
    then have "keeps (set_state ABORTING w) w'" by (rule state_change_keeps) simp
    with ABORTING_PART2 show ?thesis by (auto simp: keeps_def)
  next
    case FORGOTTEN
    with r have "forget_loop e (set_state FORGETTING w) = Some w'" by (auto simp: state_change_def bind_Some_iff)
    then have "w' = enter_state FORGOTTEN (set_state FORGETTING w)"
      by (subst (asm) forget_loop.simps, simp add: forget_step_def)
        (subst (asm) forget_loop.simps, simp add: forget_step_def)
    then show ?thesis using FORGOTTEN enter_state_calm [of "set_state FORGETTING w" FORGOTTEN] by (auto intro!: keeps_calm)
  qed (use r True in \<open>auto simp: stable_def\<close>)
qed (rule keeps_unstable)

interpretation at: request_invariant keeps decided
proof
  show "keeps w w'" if "idle w w'" for w w'
    using that by (auto simp: idle_def intro: keeps_neutral)
  show "keeps w w'" if "state_change e TX_REDRIVE_COMMIT h (redriven HUNGCOMMITTED w) = Some (err, w')"
    "tx_state w = HUNGCOMMITTED \<or> tx_state w = COMMITTING" for e h w err w'
    using keeps_trans [OF redriven_keeps redrive_commit_keeps [OF that(1)]] that(2) by auto
  show "keeps w w'" if "state_change e TX_REDRIVE_ROLLBACK h (redriven HUNGABORTED w) = Some (err, w')"
    "tx_state w = HUNGABORTED \<or> tx_state w = ABORTING" for e h w err w'
    using keeps_trans [OF redriven_keeps redrive_rollback_keeps [OF that(1)]] that(2) by auto
qed (fact keeps_trans keeps_unstable state_change_keeps abort_set_keeps redrive_sync_keeps)+

section \<open>The life of a transaction\<close>

text \<open>
  Any sequence of requests served for a transaction, interleaved with anything that leaves its
  state and the actions alone (arriving messages, timers, other threads that queue or doom).
\<close>

inductive served :: "tm_env \<Rightarrow> tm_world \<Rightarrow> tm_world \<Rightarrow> bool" for e :: tm_env where
  served_none: "served e w w"
| served_request: "served e w v \<Longrightarrow> due decided h ty v \<Longrightarrow> dispatch e h ty v = Some (t, v') \<Longrightarrow> served e w v'"
| served_other: "served e w v \<Longrightarrow> w_trace v' = w_trace v \<Longrightarrow> tx_state v' = tx_state v \<Longrightarrow> served e w v'"

lemma served_keeps: "served e w w' \<Longrightarrow> keeps w w'"
  by (induction rule: served.induct) (auto intro: keeps_trans [OF _ at.dispatch_R] keeps_trans [OF _ keeps_same])


text \<open>A begin and an end, and a begin and an end that is refused by HBase.\<close>

definition begun :: "tm_env \<Rightarrow> tm_world" where
  "begun e = snd (the (dispatch e 0 MSG_BEGINTRANSACTION (set_state NOTX (sample_world True MSG_BEGINTRANSACTION))))"

definition end_arrives :: "tm_world \<Rightarrow> tm_world" where
  "end_arrives w = w\<lparr> w_heap := (w_heap w)(1 \<mapsto> (msg_internal MSG_ENDTRANSACTION)\<lparr> ms_msgid := 56, ms_pid := 7 \<rparr>) \<rparr>"

definition ended :: "tm_env \<Rightarrow> tm_world" where
  "ended e = snd (the (dispatch e 1 MSG_ENDTRANSACTION (end_arrives (begun e))))"

lemma ended_served:
  assumes "case dispatch e 0 MSG_BEGINTRANSACTION (set_state NOTX (sample_world True MSG_BEGINTRANSACTION)) of None \<Rightarrow> False | Some (x, _) \<Rightarrow> x = b"
    and "case dispatch e 1 MSG_ENDTRANSACTION (end_arrives (begun e)) of None \<Rightarrow> False | Some (x, _) \<Rightarrow> x = c"
    and "\<not> decided (tx_state (end_arrives (begun e)))"
  shows "served e (set_state NOTX (sample_world True MSG_BEGINTRANSACTION)) (ended e)"
proof -
  let ?w = "set_state NOTX (sample_world True MSG_BEGINTRANSACTION)"
  have "served e ?w (begun e)"
    using run_result [OF assms(1)] unfolding begun_def by (intro served_request [OF served_none]) (simp_all add: due_def)
  then have "served e ?w (end_arrives (begun e))" by (rule served_other) (simp_all add: end_arrives_def)
  then show ?thesis
    unfolding ended_def by (rule served_request [OF _ _ run_result [OF assms(2)]]) (simp add: due_def assms(3))
qed


section \<open>Requests that roll back\<close>

definition told :: "tm_world \<Rightarrow> tm_world \<Rightarrow> bool" where
  "told w w' = (\<exists>as. w_trace w' = w_trace w @ as \<and> list_ex rollback_act as)"

lemma told_ext: "told u v \<Longrightarrow> trace_ext P v w \<Longrightarrow> told u w" "trace_ext P u v \<Longrightarrow> told v w \<Longrightarrow> told u w"
  by (fastforce simp: told_def trace_ext_def)+

lemma rollback_loop_told:
  assumes "rollback_loop e msg err w = Some (err', w')"
    and "tx_state w = ABORTING_PART2 \<or> tx_state w = ABORTING \<and> \<not> sync_mode w"
  shows "told w w'"
proof -
  define v where "v = set_state ABORTING_PART2 w"
  have l: "rollback_loop e msg err v = Some (err', w')"
  proof (cases "tx_state w = ABORTING")
    case True
    with assms show ?thesis unfolding v_def
      by (subst rollback_loop_again [symmetric, of _ _ err w]) (simp_all add: rollback_step_def)
  next
    case False
    with assms(2) have "v = w" by (simp add: v_def upd_tx_def)
    with assms(1) show ?thesis by simp
  qed
  from rollback_loop_part2 [OF _ l] obtain w1 where h: "state_change_abort_helper e msg v = Some w1"
    and w1: "trace_ext (\<lambda>a. abort_only a \<and> \<not> ok_reply a) w1 w'" by (auto simp: v_def)
  from abort_helper_facts(1) [OF h] obtain bs where bs: "w_trace w1 = w_trace v @ bs" by (auto simp: trace_ext_def)
  with abort_helper_told [OF h] have "told w w1" by (auto simp: told_def v_def list_ex_iff)
  then show ?thesis using told_ext(1) [OF _ w1] by blast
qed

lemma abort_complete_ext:
  assumes "req_abort_complete e h w = Some (t, w')" and "rolling (tx_state w)"
  shows "trace_ext (\<lambda>_. True) w w'" and "tx_state w = ABORTING_PART2 \<Longrightarrow> told w w'"
proof -
  from assms(1) obtain w1 p where w1: "w1 = w \<or> (\<exists>er. state_change e TX_ROLLBACK h w = Some (er, w1))"
    and s: "tx_state w = FORGETTING \<or> tx_state w = FORGOTTEN \<or> (\<exists>er. state_change e TX_ROLLBACK h w = Some (er, w1))"
    and r: "w' = w1 \<and> \<not> p \<or> p \<and> msg_reply h w1 = Some w'" by (elim abort_completeE)
  have x: "trace_ext (\<lambda>_. True) w1 w'" using r by (auto simp: quiet_def elim: trace_ext_mono dest!: msg_reply_quiet)
  have "trace_ext (\<lambda>_. True) w w1"
    using w1 by (auto elim: trace_ext_mono dest!: rollback_changeD rollback_loop_facts [OF _ assms(2)])
  from trace_ext_trans [OF this x] show "trace_ext (\<lambda>_. True) w w'" .
  show "told w w'" if "tx_state w = ABORTING_PART2"
  proof -
    from s that obtain er where "rollback_loop e h XA_OK w = Some (er, w1)" by (auto dest: rollback_changeD)
    from rollback_loop_told [OF this] that told_ext(1) [OF _ x] show ?thesis by blast
  qed
qed

text \<open>
  C26: an END request of a process that is not the beginner rolls the transaction back in
  whatever state it is, also when it is committed and hung, with the commit record written and
  branches told to commit: \<^verbatim>\<open>req_end\<close> looks at the sender before it looks at the state.
\<close>

theorem stranger_end_rolls_back:
  assumes "req_end e h w = Some (t, w')" and "w_heap w h = Some m" and "ms_pid m \<noteq> tx_ender_pid (w_tx w)"
  shows "told w w'"
proof -
  from assms obtain w1 er w2 t2 w3 where a: "state_change_abort_set h FEABORTEDTRANSID w = Some w1"
    and s: "state_change e TX_ROLLBACK h w1 = Some (er, w2)" and c: "req_abort_complete e h w2 = Some (t2, w3)"
    and f: "req_forget e h w3 = Some (t, w')"
    by (auto simp: req_end_def bind_Some_iff msg_at_def)
  note st = abort_set_state [OF a]
  have x1: "trace_ext phase1 w w1" using abort_set_phase1 [OF a] by simp
  from s have l: "rollback_loop e h XA_OK w1 = Some (er, w2)" by (simp add: rollback_changeD)
  have r: "rolling (tx_state w1)" by (simp add: st rolling_def)
  note fa = rollback_loop_facts [OF l r]
  have r2: "rolling (tx_state w2)" using fa by (auto simp: rolling_def)
  have "told w1 w3"
  proof (cases "sync_mode w1")
    case True
    with rollback_from_aborting_sync [OF st True] s have "w2 = sync_write ABORTING_PART2 w1" by (simp add: state_change_def)
    then have "tx_state w2 = ABORTING_PART2" by (simp add: sync_write_tx)
    from abort_complete_ext(2) [OF c r2 this] fa show ?thesis using told_ext(2) by blast
  next
    case False
    with rollback_loop_told [OF l] st have "told w1 w2" by simp
    then show ?thesis using told_ext(1) abort_complete_ext(1) [OF c r2] by blast
  qed
  then show ?thesis using told_ext(2) [OF x1] told_ext(1) [OF _ req_forget_calm [OF f]] by blast
qed

text \<open>The commit at HBase fails, and the END of another process arrives after that.\<close>

definition hung_sample :: tm_world where
  "hung_sample =
     (let w = snd (the (req_end (sample_env 0 4 0 0) 0 (sample_world True MSG_ENDTRANSACTION)))
      in w\<lparr> w_heap := (w_heap w)(1 \<mapsto> (msg_internal MSG_ENDTRANSACTION)\<lparr> ms_msgid := 56, ms_pid := 8 \<rparr>) \<rparr>)"

theorem stranger_end_rolls_back_witness:
  "tx_state hung_sample = HUNGCOMMITTED \<and> list_ex commit_record (w_trace hung_sample)
   \<and> \<not> tx_cleaning_up (w_tx hung_sample)
   \<and> told hung_sample (snd (the (req_end (sample_env 0 4 0 0) 1 hung_sample)))"
proof -
  let ?r = "req_end (sample_env 0 4 0 0) 1 hung_sample"
  have r: "?r = Some (True, snd (the ?r))" by (rule run_result) code_simp
  have m: "w_heap hung_sample 1 = Some ((msg_internal MSG_ENDTRANSACTION)\<lparr> ms_msgid := 56, ms_pid := 8 \<rparr>)"
    by (simp add: hung_sample_def Let_def)
  have p: "tx_ender_pid (w_tx hung_sample) = 7" by code_simp
  have "tx_state hung_sample = HUNGCOMMITTED" "list_ex commit_record (w_trace hung_sample)" "\<not> tx_cleaning_up (w_tx hung_sample)"
    by code_simp+
  with stranger_end_rolls_back [OF r m] p show ?thesis by simp
qed

text \<open>The mode of the transaction manager does not change while a rollback runs.\<close>

lemma rollback_loop_mode:
  "rollback_loop e msg err w = Some (err', w') \<Longrightarrow> rolling (tx_state w) \<Longrightarrow> gi_mode (w_info w') = gi_mode (w_info w)"
proof (induction e msg err w rule: rollback_loop.induct)
  case (1 e msg err w)
  from "1.prems"(1) obtain ex er w1 where s: "rollback_step e msg err w = Some ((ex, er), w1)"
    by (subst (asm) rollback_loop.simps) (auto split: option.splits)
  note k = rollback_step_mode [OF s "1.prems"(2)] rollback_step_facts(1) [OF s "1.prems"(2)]
  show ?case
  proof (cases ex)
    case Again
    with s "1.prems"(1) have "rollback_loop e msg er w1 = Some (err', w')" using rollback_loop_again by simp
    with "1.IH" [of "((ex, er), w1)"] s Again k show ?thesis by simp
  qed (use s "1.prems" k in \<open>auto simp: rollback_loop.simps [of e msg err w]\<close>)
qed

lemma settled_rollback_stays:
  assumes "state_change e TX_ROLLBACK h w = Some (err, w')" and "tx_state w = FORGOTTEN \<or> tx_state w = HUNGABORTED"
  shows "tx_state w' = tx_state w"
  using assms
  by (auto simp: state_change_def change_rollback_def rollback_loop.simps [of e h XA_OK w] rollback_step_def split: if_splits)

lemma settled_completion_stays:
  assumes "rollback_completion e h (b, w) = Some (t, w')" and "tx_state w = FORGOTTEN \<or> tx_state w = HUNGABORTED"
  shows "tx_state w' = tx_state w \<and> trace_ext (\<lambda>_. True) w w'"
proof (cases "\<not> sync_mode w \<and> \<not> b")
  case True
  with assms(1) obtain w1 where w1: "w1 = w \<or> (\<exists>t2. req_abort_complete e h w = Some (t2, w1))" and f: "req_forget e h w1 = Some (t, w')"
    by (auto simp: rollback_completion_def bind_Some_iff split: if_splits)
  have r: "rolling (tx_state w)" using assms(2) by (auto simp: rolling_def)
  have "tx_state w1 = tx_state w \<and> trace_ext (\<lambda>_. True) w w1"
  proof (cases "w1 = w")
    case False
    with w1 obtain t2 where a: "req_abort_complete e h w = Some (t2, w1)" by blast
    then obtain v p where v: "v = w \<or> (\<exists>er. state_change e TX_ROLLBACK h w = Some (er, v))"
      and "w1 = v \<and> \<not> p \<or> p \<and> msg_reply h v = Some w1" by (elim abort_completeE)
    then have "tx_state w1 = tx_state v" using msg_frames(4) by auto
    moreover have "tx_state v = tx_state w" using v settled_rollback_stays [OF _ assms(2)] by auto
    ultimately show ?thesis using abort_complete_ext(1) [OF a r] by simp
  qed simp
  moreover have "tx_state w' = tx_state w1"
    using req_forget_idle [OF f] calculation assms(2) by (auto simp: idle_def)
  ultimately show ?thesis using trace_ext_mono [OF req_forget_calm [OF f]] by (auto intro: trace_ext_trans)
qed (use assms in \<open>auto simp: rollback_completion_def\<close>)



section \<open>The commit record\<close>

lemma commit_outcome_records:
  assumes "commit_outcome w w'" and "w_trace w' = w_trace w @ as"
  shows "length (filter commit_record as) \<le> (if tx_wrote_trans_state (w_tx w) then 0 else 1)"
proof -
  from assms obtain cs bs x where c: "as = cs @ bs" "list_all phase1 cs" "phase2_run x bs"
    "tx_wrote_trans_state x = tx_wrote_trans_state (w_tx w)" by (auto simp: commit_outcome_def)
  have "filter commit_record cs = []" using c(2) phase1_facts by (auto simp: list_all_iff filter_empty_conv)
  moreover from c(3) obtain ds where ds: "bs = commit_log x @ ds" "list_all phase2 ds" by (auto simp: phase2_run_def)
  moreover have "filter commit_record ds = []" using ds(2) by (auto simp: list_all_iff filter_empty_conv phase2_def)
  ultimately show ?thesis using c by (auto simp: commit_log_def)
qed



end
