(* ===== verification/Tm_Hung.thy ===== *)
theory Tm_Hung
  imports Tm_Atomicity
begin

text \<open>
  The count of hung transactions in \<^verbatim>\<open>CTmInfo\<close>: a transaction whose outcome cannot be
  delivered is counted once, and uncounted when it is redriven.
\<close>

section \<open>The share of one transaction\<close>

text \<open>What remains of the count when the transaction itself is left out.\<close>

definition others_hung :: "tm_world \<Rightarrow> int" where
  "others_hung w = hung_count w - (if tx_hung (w_tx w) then 1 else 0)"

definition hung_free :: "tm_world \<Rightarrow> tm_world \<Rightarrow> bool" where
  "hung_free w w' = (hung_count w' = hung_count w \<and> tx_hung (w_tx w') = tx_hung (w_tx w))"

lemma hung_free_others: "hung_free w w' \<Longrightarrow> others_hung w' = others_hung w"
  by (simp add: hung_free_def others_hung_def)

lemma others_hung_simps [simp]:
  "others_hung (upd_tse g w) = others_hung w" "others_hung (tick w) = others_hung w" "others_hung (act a w) = others_hung w"
  by (simp_all add: others_hung_def)

lemma hung_state: "tx_hung (w_tx w) = (tx_state w = HUNGCOMMITTED \<or> tx_state w = HUNGABORTED)"
  by (simp add: tx_hung_def)

lemma others_hung_state:
  "others_hung w = hung_count w - (if tx_state w = HUNGCOMMITTED \<or> tx_state w = HUNGABORTED then 1 else 0)"
  by (simp add: others_hung_def hung_state)

lemma quiet_count: "quiet P w w' \<Longrightarrow> hung_count w' = hung_count w \<and> tx_state w' = tx_state w"
  by (simp add: quiet_def hung_count_def)

lemma enter_state_count [simp]: "hung_count (enter_state s w) = hung_count w" "hung_count (sync_write s w) = hung_count w"
  by (auto simp: enter_state_def sync_write_def Let_def split: TM_TX_STATE.splits)

lemma count_simps [simp]:
  "hung_count (inc_tx_hung_count w) = hung_count w + 1" "hung_count (dec_tx_hung_count w) = hung_count w - 1"
  "hung_count (inc_tm_initiated_aborts w) = hung_count w" "hung_count (addHungTimerEvent ty w) = hung_count w"
  "hung_count (write_trans_state s f w) = hung_count w" "hung_count (cancel_hung_event w) = hung_count w"
  "hung_count (commit_forgetting w) = hung_count w" "hung_count (write_commit_record w) = hung_count w"
  "hung_count (hung_aborted w) = hung_count w + 1" "hung_count (snd (completeRequest_branches e w)) = hung_count w"
  by (simp_all add: hung_count_def inc_tx_hung_count_def dec_tx_hung_count_def inc_tm_initiated_aborts_def
      addHungTimerEvent_def addTimerEvent_def write_trans_state_def cancel_hung_event_def commit_forgetting_def
      write_commit_record_def hung_aborted_def completeRequest_branches_def hbase_completeRequest_branches_def
      hbase_do_def Let_def)

lemma abort_set_count: "state_change_abort_set h err w = Some w' \<Longrightarrow> hung_count w' = hung_count w"
  by (auto simp: state_change_abort_set_def dest!: reply_idle(2)) (simp add: idle_def)

lemma end_branches_count: "end_branches e w = Some (err, w') \<Longrightarrow> hung_count w' = hung_count w \<and> tx_state w' = tx_state w"
  using end_branches_bcast quiet_count by (fastforce simp: bcast_def)

lemma forget_heur_count: "forget_heur_branches e w = Some (err, w') \<Longrightarrow> hung_count w' = hung_count w"
  using forget_branches_bcast quiet_count
  by (fastforce simp: forget_heur_branches_def forget_heur_with_def bind_Some_iff Let_def bcast_def split: if_splits)

section \<open>The steps of the state machine\<close>

lemma commit_helper_others:
  assumes "state_change_commit_helper e msg ro w = Some w'" and "\<not> tx_hung (w_tx w)"
  shows "others_hung w' = others_hung w"
proof (cases ro)
  case True
  with assms show ?thesis
    by (auto simp: state_change_commit_helper_def bind_Some_iff others_hung_state hung_state idle_def dest!: reply_idle(2))
next
  case False
  with assms(1) obtain er w1 where c: "commit_branches e msg (write_commit_record w) = Some (er, w1)"
    and r: "(if er = XA_OK then commit_resolved e msg w1
            else if is_heuristic er then Some (set_state FORGETTING_HEUR w1) else hung_committed e w1) = Some w'"
    by (auto simp: state_change_commit_helper_def bind_Some_iff)
  have k: "hung_count w1 = hung_count w" using quiet_count [OF commit_branches_quiet [OF c]] by simp
  have res: "hung_count v = hung_count w1 \<and> tx_state v = FORGETTING" if "commit_resolved e msg w1 = Some v" for v
    using that by (auto simp: commit_resolved_def bind_Some_iff Let_def idle_def split: if_splits dest!: reply_idle(2))
  have hung: "hung_count v = hung_count w1 + 1 \<and> tx_state v = HUNGCOMMITTED" if "hung_committed e w1 = Some v" for v
    using that hung_committed_state [OF that]
    by (auto simp: hung_committed_def bind_Some_iff idle_def dest!: reset_busy_idle)
  from r k res hung assms(2) show ?thesis
    by (auto simp: others_hung_state hung_state split: if_splits)
qed

lemma commit_step_others:
  assumes "commit_step e ev msg err w = Some ((ex, err'), w')"
  shows "others_hung w' = others_hung w"
proof -
  have prep: "hung_count v = hung_count w \<and> \<not> tx_hung (w_tx v)" if "state_change_prepare_helper e msg w = Some (go, v)" for go v
  proof -
    from that obtain er w1 where p: "prepare_branches e w = Some (er, w1)" by (auto simp: state_change_prepare_helper_def bind_Some_iff)
    then have "hung_count w1 = hung_count w" by (auto elim!: prepare_branches_run simp: prep_frame_def hung_count_def)
    with that p show ?thesis using prepare_helper_state [OF that]
      by (auto simp: state_change_prepare_helper_def bind_Some_iff hung_state idle_def
          split: if_splits dest!: abort_set_count reply_idle(5))
  qed
  have n: "hung_count w2 = hung_count w1 \<and> w_tx w2 = w_tx w1" if "num_rm_partic e w1 = (k, w2)" for w1 w2 k
    using that by (auto simp: num_rm_partic_def hbase_num_rm_partic_def hbase_ask_def)
  show ?thesis
  proof (cases "tx_state w")
    case ACTIVE
    with assms show ?thesis
      by (auto simp: commit_step_def commit_active_def bind_Some_iff others_hung_state split: if_splits
          dest!: end_branches_count dest: abort_set_count abort_set_state)
  next
    case PREPARING
    with assms obtain go w1 where h: "state_change_prepare_helper e msg w = Some (go, w1)"
      by (cases "state_change_prepare_helper e msg w") (auto simp: commit_step_def commit_preparing_def)
    with PREPARING assms prep [OF h] n [of w1] show ?thesis
      by (auto simp: commit_step_def commit_preparing_def others_hung_state hung_state split: if_splits prod.splits)
  next
    case COMMITTED
    with assms commit_helper_others [of e msg "tx_read_only (w_tx w)" w w'] show ?thesis
      by (auto simp: commit_step_def bind_Some_iff hung_state)
  qed (use assms in \<open>auto simp: commit_step_def others_hung_state bind_Some_iff dest!: forget_heur_count split: if_splits\<close>)
qed

lemma commit_loop_others:
  "commit_loop e ev msg err w = Some ((b, err'), w') \<Longrightarrow> others_hung w' = others_hung w"
proof (induction e ev msg err w rule: commit_loop.induct)
  case (1 e ev msg err w)
  from "1.prems" obtain ex er w1 where s: "commit_step e ev msg err w = Some ((ex, er), w1)"
    by (subst (asm) commit_loop.simps) (auto split: option.splits)
  note k = commit_step_others [OF s]
  show ?case
  proof (cases ex)
    case Again
    with s "1.prems" have "commit_loop e ev msg er w1 = Some ((b, err'), w')" using commit_loop_again by simp
    with "1.IH" [of "((ex, er), w1)"] s Again k show ?thesis by simp
  qed (use s "1.prems" k in \<open>auto simp: commit_loop.simps [of e ev msg err w]\<close>)
qed

lemma abort_helper_others:
  assumes "state_change_abort_helper e msg w = Some w'" and "\<not> tx_hung (w_tx w)"
  shows "others_hung w' = others_hung w"
proof -
  let ?w = "upd_tx (\<lambda>x. x\<lparr> tx_wrote_trans_state := True \<rparr>) w"
  from assms obtain err w2 where r: "rollback_branches e msg (tx_tm_aborted (w_tx ?w) \<or> tx_tse_aborted (w_tx ?w)) ?w = Some (err, w2)"
    and w': "w' = set_state ABORTED w2 \<or> w' = set_state FORGETTING_HEUR w2 \<or> w' = hung_aborted w2"
    by (auto simp: state_change_abort_helper_def bind_Some_iff Let_def split: if_splits)
  have "hung_count w2 = hung_count w" using rollback_branches_quiet [OF r] quiet_count by fastforce
  with w' assms(2) show ?thesis by (auto simp: others_hung_state hung_state)
qed

lemma rollback_step_others:
  assumes "rollback_step e msg err w = Some ((ex, err'), w')"
  shows "others_hung w' = others_hung w"
proof (cases "tx_state w")
  case ABORTING_PART2
  with assms abort_helper_others [of e msg w w'] show ?thesis by (auto simp: rollback_step_def bind_Some_iff hung_state)
qed (use assms in \<open>auto simp: rollback_step_def others_hung_state bind_Some_iff sync_write_tx split: if_splits
       dest!: forget_heur_count end_branches_count\<close>)

lemma rollback_loop_others:
  "rollback_loop e msg err w = Some (err', w') \<Longrightarrow> others_hung w' = others_hung w"
proof (induction e msg err w rule: rollback_loop.induct)
  case (1 e msg err w)
  from "1.prems" obtain ex er w1 where s: "rollback_step e msg err w = Some ((ex, er), w1)"
    by (subst (asm) rollback_loop.simps) (auto split: option.splits)
  note k = rollback_step_others [OF s]
  show ?case
  proof (cases ex)
    case Again
    with s "1.prems" have "rollback_loop e msg er w1 = Some (err', w')" using rollback_loop_again by simp
    with "1.IH" [of "((ex, er), w1)"] s Again k show ?thesis by simp
  qed (use s "1.prems" k in \<open>auto simp: rollback_loop.simps [of e msg err w]\<close>)
qed

lemma forget_loop_others: "forget_loop e w = Some w' \<Longrightarrow> others_hung w' = others_hung w"
proof (induction e w rule: forget_loop.induct)
  case (1 e w)
  from "1.prems" obtain b w1 where s: "forget_step e w = Some (b, w1)"
    by (subst (asm) forget_loop.simps) (auto split: option.splits)
  have k: "others_hung w1 = others_hung w"
    using s by (auto simp: forget_step_def bind_Some_iff others_hung_state split: TM_TX_STATE.splits
        dest: forget_heur_count forget_heur_state)
  show ?case
  proof (cases b)
    case True
    with s "1.prems" have "forget_loop e w1 = Some w'" by (subst (asm) forget_loop.simps) simp
    with "1.IH" [of "(b, w1)"] s True k show ?thesis by simp
  qed (use s "1.prems" k in \<open>auto simp: forget_loop.simps [of e w]\<close>)
qed

lemma change_rollback_others: "change_rollback e msg err w = Some (err', w') \<Longrightarrow> others_hung w' = others_hung w"
  by (auto simp: change_rollback_def split: if_splits dest: rollback_loop_others)

lemma change_commit_others:
  assumes "change_commit e ev msg err w = Some (err', w')"
  shows "others_hung w' = others_hung w"
  using assms commit_loop_others change_rollback_others
  by (fastforce simp: change_commit_def bind_Some_iff split: if_splits)

lemma change_begin_others:
  assumes "change_begin e msg w = Some (err, w')"
  shows "others_hung w' = others_hung w"
  using assms
  by (auto simp: change_begin_def bind_Some_iff others_hung_state split: TM_TX_STATE.splits if_splits
      dest!: start_branches_neutral quiet_count)

lemma change_begin_complete_others:
  assumes "change_begin_complete e msg w = Some (err, w')"
  shows "others_hung w' = others_hung w"
proof (cases "tx_state w = BEGINNING")
  case True
  with assms show ?thesis by (auto simp: change_begin_complete_def others_hung_state)
qed (use assms in \<open>auto simp: change_begin_complete_def split: if_splits dest: change_rollback_others\<close>)

lemma state_change_others:
  assumes "state_change e ev msg w = Some (err, w')" and "ev \<in> {TX_BEGIN, TX_BEGIN_COMPLETE, TX_COMMIT, TX_ROLLBACK}"
  shows "others_hung w' = others_hung w"
  using assms
  by (auto simp: state_change_def
      dest: change_begin_others change_begin_complete_others change_commit_others change_rollback_others)

section \<open>Every request\<close>

definition hung_kept :: "tm_world \<Rightarrow> tm_world \<Rightarrow> bool" where
  "hung_kept w w' = (stable (tx_state w) \<longrightarrow> stable (tx_state w') \<and> others_hung w' = others_hung w)"

definition decided_or_hung :: "TM_TX_STATE \<Rightarrow> bool" where
  "decided_or_hung s = (decided s \<or> s = HUNGABORTED)"

lemma keeps_stable: "keeps w w' \<Longrightarrow> stable (tx_state w) \<Longrightarrow> stable (tx_state w')"
proof -
  assume k: "keeps w w'" and s: "stable (tx_state w)"
  from s have "agrees (tx_state w) []" by (cases "tx_state w") (auto simp: stable_def)
  with k obtain bs where "agrees (tx_state w') ([] @ bs)" by (auto simp: keeps_def)
  then show "stable (tx_state w')" by (cases "tx_state w'") (auto simp: stable_def)
qed

lemma hung_keptI: "keeps w w' \<Longrightarrow> others_hung w' = others_hung w \<Longrightarrow> hung_kept w w'"
  by (simp add: hung_kept_def keeps_stable)

interpretation hk: request_invariant hung_kept decided_or_hung
proof
  show "hung_kept u w" if "hung_kept u v" "hung_kept v w" for u v w
    using that by (auto simp: hung_kept_def)
  show "hung_kept w w'" if "idle w w'" for w w'
    using that by (auto simp: idle_def hung_kept_def others_hung_state)
  show "hung_kept w w'" if "\<not> stable (tx_state w)" for w w'
    using that by (simp add: hung_kept_def)
  show "hung_kept w w'" if "state_change e ev h w = Some (err, w')" "ev \<in> {TX_BEGIN, TX_BEGIN_COMPLETE, TX_COMMIT, TX_ROLLBACK}"
    for e ev h w err w'
    using that state_change_keeps state_change_others by (blast intro: hung_keptI)
  show "hung_kept w w'" if "state_change_abort_set h err w = Some w'" "\<not> decided_or_hung (tx_state w)" for h err w w'
  proof (rule hung_keptI)
    show "keeps w w'" using that by (auto simp: decided_or_hung_def intro: abort_set_keeps)
    show "others_hung w' = others_hung w"
      using that(2) abort_set_state [OF that(1)] abort_set_count [OF that(1)] by (auto simp: others_hung_state decided_or_hung_def decided_def)
  qed
  show "hung_kept w w'" if c: "state_change e TX_REDRIVE_COMMIT h (redriven HUNGCOMMITTED w) = Some (err, w')"
    "tx_state w = HUNGCOMMITTED \<or> tx_state w = COMMITTING" for e h w err w'
  proof (rule hung_keptI)
    show "keeps w w'" using c by (rule at.R_redrive_commit)
    from c(1) have "others_hung w' = others_hung (set_state COMMITTED (redriven HUNGCOMMITTED w))"
      by (intro change_commit_others) (simp add: state_change_def)
    with c(2) show "others_hung w' = others_hung w" by (auto simp: others_hung_state)
  qed
  show "hung_kept w w'" if c: "state_change e TX_REDRIVE_ROLLBACK h (redriven HUNGABORTED w) = Some (err, w')"
    "tx_state w = HUNGABORTED \<or> tx_state w = ABORTING" for e h w err w'
  proof (rule hung_keptI)
    show "keeps w w'" using c by (rule at.R_redrive_rollback)
    from c(1) have "others_hung w' = others_hung (set_state ABORTING_PART2 (redriven HUNGABORTED w))"
      by (intro change_rollback_others) (simp add: state_change_def)
    with c(2) show "others_hung w' = others_hung w" by (auto simp: others_hung_state)
  qed
  show "hung_kept w w'" if "redrive_sync e h w = Some (t, w')" for e h w t w'
  proof (cases "stable (tx_state w)")
    case True
    have "others_hung w' = others_hung w"
      using True that
      by (auto simp: redrive_sync_def bind_Some_iff stable_def others_hung_state state_change_def
          dest!: change_begin_others change_rollback_others forget_loop_others)
    then show ?thesis using redrive_sync_keeps [OF that] by (rule hung_keptI [rotated])
  qed (simp add: hung_kept_def)
qed



end
