(* ===== verification/Tm_Defects.thy ===== *)
theory Tm_Defects
  imports Tm_Hung
begin

text \<open>
  The bookkeeping of requests around the state machine: participants, abort flags and the
  ownership of messages, with the places where the code departs from its comments.
\<close>

section \<open>Participants\<close>

text \<open>The count of active participants is the number of processes in the participation list.\<close>

definition partic_inv :: "tx \<Rightarrow> bool" where
  "partic_inv x = (map_ok (tx_app_partic_list x) \<and> tx_num_active_partic x = map_size (tx_app_partic_list x))"

lemma join_partic_inv:
  assumes "join_partic pid nid w = Some w'" and "partic_inv (w_tx w)" and "\<not> is_app_partic pid nid (w_tx w)"
  shows "partic_inv (w_tx w')"
proof -
  let ?k = "txkey_id (app_key nid pid)"
  from assms(3) have n: "map_get ?k (tx_app_partic_list (w_tx w)) = None" by (simp add: is_app_partic_def)
  with assms(1) obtain m where m: "map_put ?k (app_key nid pid) (tx_app_partic_list (w_tx w)) = Some m"
    and w': "w_tx w' = (w_tx w)\<lparr> tx_num_active_partic := tx_num_active_partic (w_tx w) + 1, tx_app_partic_list := m \<rparr>"
    by (auto simp: join_partic_def add_app_partic_def bind_Some_iff Let_def)
  from assms(2) tmm.put_ok [OF _ m] tmm.put_sz [OF _ m] show ?thesis by (simp add: partic_inv_def w')
qed

lemma remove_partic_inv:
  assumes "partic_inv x" and "remove_app_partic pid nid x = (True, y)"
  shows "partic_inv (y\<lparr> tx_num_active_partic := tx_num_active_partic y - 1 \<rparr>)"
proof -
  let ?k = "txkey_id (app_key nid pid)" and ?m = "tx_app_partic_list x"
  have ok: "map_ok ?m" using assms(1) by (simp add: partic_inv_def)
  from assms(2) have g: "map_get ?k ?m \<noteq> None" and y: "y = x\<lparr> tx_app_partic_list := snd (map_remove ?k ?m) \<rparr>"
    using tmm.remove_result [OF ok, of ?k] by (auto simp: remove_app_partic_def Let_def case_prod_beta)
  from assms(1) g tmm.remove_ok [OF ok, of ?k] tmm.remove_sz [OF ok, of ?k] show ?thesis by (simp add: partic_inv_def y)
qed

text \<open>The part of \<^verbatim>\<open>req_join\<close> between the state check and the reply.\<close>

lemma req_join_partic:
  assumes "req_join h w = Some (t, w')" and "w_heap w h = Some m"
  shows "w_tx w' = w_tx w
    \<or> (\<exists>v v'. w_tx v = w_tx w \<and> (join_partic (ms_pid m) (ms_nid m) v = Some v'
          \<or> join_partic (ms_pid m) (ms_nid m) (upd_tx (\<lambda>x. x\<lparr> tx_ender_pid := ms_pid m \<rparr>) v) = Some v') \<and> w_tx w' = w_tx v')"
proof -
  from assms obtain w1 w2 where a: "(if tx_state w \<noteq> NOTX \<and> tx_state w \<noteq> BEGINNING \<and> tx_state w \<noteq> ACTIVE
                 then msg_responseError h FEENDEDTRANSID w
                 else do { w0 \<leftarrow> msg_responseError h FEOK w;
                           if ms_coord_role m
                           then if tx_ender_pid (w_tx w0) = - 1
                                then join_partic (ms_pid m) (ms_nid m)
                                       (upd_tx (\<lambda>x. x\<lparr> tx_ender_pid := ms_pid m \<rparr>) w0)
                                else msg_responseError h FETXNOTSUSPENDED w0
                           else join_partic (ms_pid m) (ms_nid m) w0 }) = Some w1"
    and u: "msg_update h (\<lambda>m. m\<lparr> ms_rspTm_pid := gi_nid (w_info w1) \<rparr>) w1 = Some w2"
    and r: "msg_reply_error h FEOK w2 = Some w'"
    by (auto simp: req_join_def bind_Some_iff msg_at_def simp del: if_split)
  have "w_tx w' = w_tx w1" using msg_frames(1) [OF u] msg_frames(5) [OF r] by simp
  then show ?thesis using a msg_frames(2) by (fastforce simp: bind_Some_iff split: if_splits)
qed


text \<open>The creator of the transaction is listed, and process 9 joins and suspends.\<close>

definition joined_sample :: "int \<Rightarrow> tm_world" where
  "joined_sample pid =
     (let w = sample_world False MSG_JOINTRANSACTION; x = snd (the (add_app_partic 7 0 (w_tx w)))
      in w\<lparr> w_tx := x, w_heap := Map.empty(0 \<mapsto> (msg_internal MSG_JOINTRANSACTION)\<lparr> ms_msgid := 55, ms_pid := pid \<rparr>) \<rparr>)"


text \<open>
  A process that joins a transaction it takes part in already is counted again but listed
  once, so the number and the list are out of step, and one suspend of the process does
  not make up for it.
\<close>

theorem double_join_miscounts:
  assumes "req_join h w = Some (t, w')" and "w_heap w h = Some m" and "\<not> ms_coord_role m"
    and "tx_state w = ACTIVE" and "is_app_partic (ms_pid m) (ms_nid m) (w_tx w)" and "partic_inv (w_tx w)"
  shows "tx_num_active_partic (w_tx w') = map_size (tx_app_partic_list (w_tx w')) + 1"
proof -
  from assms(5) obtain k where k: "map_get (txkey_id (app_key (ms_nid m) (ms_pid m))) (tx_app_partic_list (w_tx w)) = Some k"
    by (auto simp: is_app_partic_def)
  from assms(1-4) obtain w0 w1 w2 where a: "msg_responseError h FEOK w = Some w0" "join_partic (ms_pid m) (ms_nid m) w0 = Some w1"
    and u: "msg_update h (\<lambda>m. m\<lparr> ms_rspTm_pid := gi_nid (w_info w1) \<rparr>) w1 = Some w2" and r: "msg_reply_error h FEOK w2 = Some w'"
    by (auto simp: req_join_def bind_Some_iff msg_at_def)
  have "w_tx w' = w_tx w1" using msg_frames(1) [OF u] msg_frames(5) [OF r] by simp
  moreover have "w_tx w1 = (w_tx w)\<lparr> tx_num_active_partic := tx_num_active_partic (w_tx w) + 1 \<rparr>"
    using a(2) k msg_frames(2) [OF a(1)] by (auto simp: join_partic_def add_app_partic_def bind_Some_iff Let_def)
  ultimately show ?thesis using assms(6) by (simp add: partic_inv_def)
qed

theorem double_join_miscounts_witness:
  "tx_num_active_partic (w_tx (snd (the (req_join 0 (joined_sample 7)))))
     = map_size (tx_app_partic_list (w_tx (snd (the (req_join 0 (joined_sample 7)))))) + 1"
proof -
  let ?r = "req_join 0 (joined_sample 7)"
  have r: "?r = Some (False, snd (the ?r))" by (rule run_result) code_simp
  have m: "w_heap (joined_sample 7) 0 = Some ((msg_internal MSG_JOINTRANSACTION)\<lparr> ms_msgid := 55, ms_pid := 7 \<rparr>)"
    by (simp add: joined_sample_def Let_def)
  have i: "partic_inv (w_tx (joined_sample 7))" "is_app_partic 7 0 (w_tx (joined_sample 7))" "tx_state (joined_sample 7) = ACTIVE" by code_simp+
  show ?thesis by (rule double_join_miscounts [OF r m]) (use i in \<open>simp_all add: msg_internal_def\<close>)
qed

section \<open>Abort flags\<close>

text \<open>
  C29: the abort flags that are written to the audit trail and read back by recovery carry the
  marks of the TSE, of the application and of a heuristic abort, but not the mark of an
  abort by the transaction manager, whose bit is 0.
\<close>

theorem abort_flags_round_trip:
  "tx_tse_aborted (tx_set_abort_flags (tx_abort_flags x) y) = tx_tse_aborted x
   \<and> tx_appl_aborted (tx_set_abort_flags (tx_abort_flags x) y) = tx_appl_aborted x
   \<and> tx_heur_aborted (tx_set_abort_flags (tx_abort_flags x) y) = tx_heur_aborted x
   \<and> \<not> tx_tm_aborted (tx_set_abort_flags (tx_abort_flags x) y)"
  by (cases "tx_tse_aborted x"; cases "tx_appl_aborted x"; cases "tx_heur_aborted x")
    (simp_all add: tx_abort_flags_def tx_set_abort_flags_def)

section \<open>Ownership of messages\<close>

text \<open>
  The doom request of a TSE that is not known is answered and deleted by \<^verbatim>\<open>req_abort\<close>, and
  then deleted again by the event loop.
\<close>

theorem unknown_tse_doom_deletes_twice:
  assumes "w_heap w h = Some m" and "ms_requestType m = MSG_TSE_DOOMTX"
    and "fst (tse_return_rmid (env_process_name e (ms_nid m) (ms_pid m)) (ms_nid m) (ms_pid m) (w_gtse w)) = - 1"
  shows "process_event e h w = None"
proof -
  obtain g where g: "tse_return_rmid (env_process_name e (ms_nid m) (ms_pid m)) (ms_nid m) (ms_pid m) (w_gtse w) = (- 1, g)"
    using assms(3) by (metis prod.collapse)
  have s: "w_gtse (send_abort_tx w) = w_gtse w" by (simp add: send_abort_tx_def)
  have "msg_delete h w1 = None" if r: "req_abort e h w = Some (t, w1)" for t w1
  proof -
    from r assms g s obtain w2 where "msg_delete h w2 = Some w1" by (auto simp: req_abort_def bind_Some_iff msg_at_def)
    then show ?thesis by (auto simp: msg_delete_def split: option.splits)
  qed
  then show ?thesis
    using assms(1,2) by (cases "req_abort e h w") (auto simp: process_event_def dispatch_def msg_at_def)
qed

theorem unknown_tse_doom_deletes_twice_witness:
  "process_event (sample_env 0 0 0 0) 0 (sample_world True MSG_TSE_DOOMTX) = None"
proof -
  have m: "w_heap (sample_world True MSG_TSE_DOOMTX) 0 = Some ((msg_internal MSG_TSE_DOOMTX)\<lparr> ms_msgid := 55, ms_pid := 7 \<rparr>)"
    by (simp add: sample_world_def)
  have r: "fst (tse_return_rmid (env_process_name (sample_env 0 0 0 0) 0 7) 0 7 (w_gtse (sample_world True MSG_TSE_DOOMTX))) = - 1"
    by code_simp
  show ?thesis by (rule unknown_tse_doom_deletes_twice [OF m]) (use r in \<open>simp_all add: msg_internal_def\<close>)
qed

text \<open>
  A recovered transaction is redriven with one message that is both its current request and
  an element of its event queue; the end of the redrive deletes the current request and
  the event loop deletes the message again.
\<close>

theorem recovered_redrive_deletes_twice:
  "case recover_tx (sample_env 0 0 0 0) TXINTERNAL_REDRIVECOMMIT (sample_world True MSG_ENDTRANSACTION) of
     None \<Rightarrow> False
   | Some w \<Rightarrow> (case eventQ_pop w of
                 Some (Some h, w1) \<Rightarrow> (case dispatch (sample_env 0 0 0 0) h TXINTERNAL_REDRIVECOMMIT w1 of None \<Rightarrow> False | Some _ \<Rightarrow> True)
                    \<and> (case process_event (sample_env 0 0 0 0) h w1 of None \<Rightarrow> True | Some _ \<Rightarrow> False)
               | _ \<Rightarrow> False)"
  by code_simp

text \<open>
  C28: the abort timer of a transaction that is committed and hung marks the transaction object
  for cleanup; it stays committed and hung, and a redrive of it is thrown away.
\<close>

theorem timer_drops_hung_commit:
  assumes "rollback_txn e h w = Some (t, w')" and "tx_state w = HUNGCOMMITTED" and "\<not> tx_transactionBusy (w_tx w)"
    and "tx_cleanup_sem (w_tx w) \<ge> 0"
  shows "tx_state w' = HUNGCOMMITTED \<and> (\<forall>v. hung_redrive e w' = Some v \<longrightarrow> tx_eventQ (w_tx v) = tx_eventQ (w_tx w'))"
proof -
  from assms(1,2) obtain w1 b w2 where r: "msg_reply_if_pending h (if tx_isAborting (w_tx w) then FEABORTEDTRANSID else FEENDEDTRANSID) w = Some w1"
    and b: "reset_transactionBusy e False w1 = Some (b, w2)"
    and w': "(if \<not> b then (False, inc_cleanup w2) else (True, w2)) = (t, w')"
    by (auto simp: rollback_txn_def rollback_allowed_def bind_Some_iff simp del: if_split)
  have w1: "w_tx w1 = w_tx w" by (rule msg_frames(6) [OF r])
  with b assms(3) have "w2 = w1" "\<not> b" by (auto simp: reset_transactionBusy_def)
  with w' w1 have x: "w_tx w' = (w_tx w)\<lparr> tx_cleanup_sem := tx_cleanup_sem (w_tx w) + 1 \<rparr>" by (auto simp: inc_cleanup_def)
  have c: "tx_cleaning_up (w_tx w')" using assms(4) by (simp add: x tx_cleaning_up_def)
  have "tx_eventQ (w_tx v) = tx_eventQ (w_tx w')" if "hung_redrive e w' = Some v" for v
  proof -
    from that assms(2) x obtain k u where q: "msg_new (msg_internal TXINTERNAL_REDRIVECOMMIT) w' = (k, u)"
      and "queueToTransaction e (tx_transid (w_tx u)) k u = Some (False, v) \<or> queueToTransaction e (tx_transid (w_tx u)) k u = Some (True, v)"
      by (auto simp: hung_redrive_def queue_internal_def Let_def bind_Some_iff split: prod.splits)
    moreover from q have "w_tx u = w_tx w'" by (auto simp: msg_new_def)
    ultimately show ?thesis using c
      by (auto simp: queueToTransaction_def txn_object_good_def bind_Some_iff dest!: msg_frames split: if_splits)
  qed
  then show ?thesis using assms(2) x by simp
qed

definition timer_sample :: tm_world where
  "timer_sample = hung_sample\<lparr> w_heap := (w_heap hung_sample)(1 \<mapsto> msg_internal TXINTERNAL_ROLLBACK) \<rparr>"

theorem timer_drops_hung_commit_witness:
  "tx_state (snd (the (rollback_txn (sample_env 0 4 0 0) 1 timer_sample))) = HUNGCOMMITTED"
proof -
  let ?r = "rollback_txn (sample_env 0 4 0 0) 1 timer_sample"
  have r: "?r = Some (False, snd (the ?r))" by (rule run_result) code_simp
  have "tx_state timer_sample = HUNGCOMMITTED" "\<not> tx_transactionBusy (w_tx timer_sample)" "tx_cleanup_sem (w_tx timer_sample) \<ge> 0"
    by code_simp+
  from timer_drops_hung_commit [OF r this] show ?thesis by simp
qed

end
