(* ===== verification/Tm_MultiMap.thy ===== *)
theory Tm_MultiMap
  imports Tm_Prelude
begin

text \<open>
  \<^verbatim>\<open>TM_MMAP\<close> (\<^verbatim>\<open>tmmmap.cpp\<close>), the ordered multimap behind the timer list.  The
  \<^verbatim>\<open>std::multimap\<close> is the list of its entries in key order, entries of equal keys in the
  order of their insertion; \<^verbatim>\<open>find\<close> answers the first entry of the key.  Values are non-null
  pointers.  The lock that \<^verbatim>\<open>get_first\<close> leaves held until \<^verbatim>\<open>get_end\<close> is not part of the
  state: a walk is one atomic step.
\<close>

section \<open>The multimap\<close>

text \<open>
  The iterator keeps pointing at its entry when other entries come and go.  It is
  \<^verbatim>\<open>end()\<close> when a walk ran off the map, and invalid before the first walk and once the entry
  under it is gone.
\<close>

datatype mmap_iterator = MMap_at nat | MMap_end | MMap_invalid

record 'a tm_mmap =
  mm_multimap :: "(int \<times> 'a) list"
  mm_iterator :: mmap_iterator

definition mmap_new :: "'a tm_mmap" where
  "mmap_new = \<lparr> mm_multimap = [], mm_iterator = MMap_invalid \<rparr>"

definition mmap_clear :: "'a tm_mmap \<Rightarrow> 'a tm_mmap" where
  "mmap_clear m = \<lparr> mm_multimap = [],
     mm_iterator = (if mm_iterator m = MMap_end then MMap_end else MMap_invalid) \<rparr>"

text \<open>\<^const>\<open>None\<close> is the use of an iterator that points at no entry.\<close>

definition mmap_curr_key :: "'a tm_mmap \<Rightarrow> int option" where
  "mmap_curr_key m =
     (case mm_iterator m of
        MMap_at i \<Rightarrow> if i < length (mm_multimap m) then Some (fst (mm_multimap m ! i)) else None
      | _ \<Rightarrow> None)"

definition mmap_find :: "int \<Rightarrow> 'a tm_mmap \<Rightarrow> nat option" where
  "mmap_find k m = find_index (\<lambda>e. fst e = k) (mm_multimap m)"

definition mmap_get :: "int \<Rightarrow> 'a tm_mmap \<Rightarrow> 'a option" where
  "mmap_get k m = map_option (\<lambda>i. snd (mm_multimap m ! i)) (mmap_find k m)"

definition mmap_get_first :: "'a tm_mmap \<Rightarrow> 'a option \<times> 'a tm_mmap" where
  "mmap_get_first m =
     (case mm_multimap m of
        [] \<Rightarrow> (None, m\<lparr> mm_iterator := MMap_end \<rparr>)
      | e # _ \<Rightarrow> (Some (snd e), m\<lparr> mm_iterator := MMap_at 0 \<rparr>))"

definition mmap_get_first_key :: "int \<Rightarrow> 'a tm_mmap \<Rightarrow> 'a option \<times> 'a tm_mmap" where
  "mmap_get_first_key k m =
     (case mmap_find k m of
        None \<Rightarrow> (None, m\<lparr> mm_iterator := MMap_end \<rparr>)
      | Some i \<Rightarrow> (Some (snd (mm_multimap m ! i)), m\<lparr> mm_iterator := MMap_at i \<rparr>))"

definition mmap_advance :: "'a tm_mmap \<Rightarrow> 'a tm_mmap option" where
  "mmap_advance m =
     (case mm_iterator m of
        MMap_at i \<Rightarrow>
          if i < length (mm_multimap m)
          then Some (m\<lparr> mm_iterator := (if Suc i < length (mm_multimap m) then MMap_at (Suc i)
                                         else MMap_end) \<rparr>)
          else None
      | _ \<Rightarrow> None)"

definition mmap_get_next :: "'a tm_mmap \<Rightarrow> ('a option \<times> 'a tm_mmap) option" where
  "mmap_get_next m =
     do { m' \<leftarrow> mmap_advance m;
          case mm_iterator m' of
            MMap_at i \<Rightarrow> Some (Some (snd (mm_multimap m' ! i)), m')
          | _ \<Rightarrow> Some (None, m') }"

definition mmap_get_next_key :: "int \<Rightarrow> 'a tm_mmap \<Rightarrow> ('a option \<times> 'a tm_mmap) option" where
  "mmap_get_next_key k m =
     do { m' \<leftarrow> mmap_advance m;
          case mm_iterator m' of
            MMap_at i \<Rightarrow> if fst (mm_multimap m' ! i) \<noteq> k then Some (None, m')
                          else Some (Some (snd (mm_multimap m' ! i)), m')
          | _ \<Rightarrow> Some (None, m') }"

definition mmap_put :: "int \<Rightarrow> 'a \<Rightarrow> 'a tm_mmap \<Rightarrow> 'a tm_mmap" where
  "mmap_put k v m =
     (let xs = mm_multimap m; p = length (takeWhile (\<lambda>e. fst e \<le> k) xs)
      in \<lparr> mm_multimap = take p xs @ (k, v) # drop p xs,
           mm_iterator = (case mm_iterator m of
                            MMap_at i \<Rightarrow> if p \<le> i then MMap_at (Suc i) else MMap_at i
                          | it \<Rightarrow> it) \<rparr>)"

text \<open>\<^verbatim>\<open>erase(iterator)\<close> and \<^verbatim>\<open>erase(key)\<close> of the \<^verbatim>\<open>std::multimap\<close>.\<close>

definition mmap_erase_at :: "nat \<Rightarrow> 'a tm_mmap \<Rightarrow> 'a tm_mmap" where
  "mmap_erase_at p m =
     \<lparr> mm_multimap = take p (mm_multimap m) @ drop (Suc p) (mm_multimap m),
       mm_iterator = (case mm_iterator m of
                        MMap_at i \<Rightarrow> if i = p then MMap_invalid
                                      else if p < i then MMap_at (i - 1) else MMap_at i
                      | it \<Rightarrow> it) \<rparr>"

definition mmap_erase_key :: "int \<Rightarrow> 'a tm_mmap \<Rightarrow> 'a tm_mmap" where
  "mmap_erase_key k m =
     \<lparr> mm_multimap = filter (\<lambda>e. fst e \<noteq> k) (mm_multimap m),
       mm_iterator = (case mm_iterator m of
                        MMap_at i \<Rightarrow>
                          if i < length (mm_multimap m) \<and> fst (mm_multimap m ! i) \<noteq> k
                          then MMap_at (length (filter (\<lambda>e. fst e \<noteq> k) (take i (mm_multimap m))))
                          else MMap_invalid
                      | it \<Rightarrow> it) \<rparr>"

definition mmap_remove :: "int \<Rightarrow> 'a tm_mmap \<Rightarrow> 'a option \<times> 'a tm_mmap" where
  "mmap_remove k m =
     (case mmap_find k m of
        None \<Rightarrow> (None, m)
      | Some i \<Rightarrow> (Some (snd (mm_multimap m ! i)), mmap_erase_key k m))"

definition mmap_remove_first :: "int \<Rightarrow> 'a tm_mmap \<Rightarrow> 'a option \<times> 'a tm_mmap" where
  "mmap_remove_first k m =
     (case mmap_find k m of
        None \<Rightarrow> (None, m)
      | Some i \<Rightarrow> (Some (snd (mm_multimap m ! i)), mmap_erase_at i m))"

definition mmap_count :: "int \<Rightarrow> 'a tm_mmap \<Rightarrow> nat" where
  "mmap_count k m = length (filter (\<lambda>e. fst e = k) (mm_multimap m))"

definition mmap_remove_all :: "int \<Rightarrow> 'a tm_mmap \<Rightarrow> nat \<times> 'a tm_mmap" where
  "mmap_remove_all k m = (mmap_count k m, mmap_erase_key k m)"

definition mmap_size :: "'a tm_mmap \<Rightarrow> nat" where
  "mmap_size m = length (mm_multimap m)"

text \<open>\<^verbatim>\<open>return_all\<close> answers NULL and size 0 for an empty map.\<close>

definition mmap_return_all :: "'a tm_mmap \<Rightarrow> nat \<times> 'a list option" where
  "mmap_return_all m =
     (mmap_size m, if mmap_size m = 0 then None else Some (map snd (mm_multimap m)))"

definition mmap_erase_this :: "'a tm_mmap \<Rightarrow> 'a tm_mmap option" where
  "mmap_erase_this m =
     (case mm_iterator m of
        MMap_at i \<Rightarrow> if i < length (mm_multimap m) then Some (mmap_erase_at i m) else None
      | _ \<Rightarrow> None)"

lemmas mmap_defs = mmap_new_def mmap_clear_def mmap_find_def mmap_get_def mmap_get_first_def
  mmap_put_def mmap_erase_at_def mmap_erase_key_def mmap_remove_def mmap_remove_first_def
  mmap_count_def mmap_remove_all_def mmap_size_def

section \<open>Meaning\<close>

text \<open>The values of a key, oldest first, and the order of the entries.\<close>

definition mmap_values :: "'a tm_mmap \<Rightarrow> int \<Rightarrow> 'a list" where
  "mmap_values m k = map snd (filter (\<lambda>e. fst e = k) (mm_multimap m))"

definition mmap_ok :: "'a tm_mmap \<Rightarrow> bool" where
  "mmap_ok m = sorted (map fst (mm_multimap m))"

text \<open>A sorted list is determined by its entries of each key.\<close>

lemma filter_mem: "filter (\<lambda>e. fst e = fst x) xs = filter (\<lambda>e. fst e = fst x) ys \<Longrightarrow>
    x \<in> set xs \<longleftrightarrow> x \<in> set ys"
  by (drule arg_cong [where f = set]) auto

lemma stable_unique:
  fixes xs ys :: "(int \<times> 'b) list"
  assumes "sorted (map fst xs)" "sorted (map fst ys)"
    and "\<And>k. filter (\<lambda>e. fst e = k) xs = filter (\<lambda>e. fst e = k) ys"
  shows "xs = ys"
  using assms
proof (induction xs arbitrary: ys)
  case Nil
  have "e \<notin> set ys" for e
    using filter_mem [OF Nil.prems(3), of e] by simp
  then show ?case by (cases ys) auto
next
  case (Cons x xs)
  have in_iff: "e \<in> set (x # xs) \<longleftrightarrow> e \<in> set ys" for e
    by (rule filter_mem [OF Cons.prems(3)])
  obtain y ys' where ys: "ys = y # ys'"
    using in_iff [of x] by (cases ys) simp_all
  have "fst x = fst y"
    using Cons.prems(1,2) in_iff [of x] in_iff [of y] ys by (auto dest: order.antisym)
  then have xy: "x = y" using Cons.prems(3) [of "fst x"] ys by simp
  have "filter (\<lambda>e. fst e = k) xs = filter (\<lambda>e. fst e = k) ys'" for k
    using Cons.prems(3) [of k] ys xy by (simp split: if_splits)
  then show ?case using Cons.IH [of ys'] Cons.prems(1,2) ys xy by simp
qed

text \<open>
  The contract the timer list relies on: a sorted collection that keeps, for each key, a
  queue of values, and whose first entry is the oldest one of the least key.
\<close>

locale ordered_multimap =
  fixes empty :: "'m" and put :: "int \<Rightarrow> 'a \<Rightarrow> 'm \<Rightarrow> 'm"
    and remove_first :: "int \<Rightarrow> 'm \<Rightarrow> 'a option \<times> 'm"
    and entries :: "'m \<Rightarrow> (int \<times> 'a) list"
  assumes entries_empty: "entries empty = []"
    and put_sorted: "sorted (map fst (entries m)) \<Longrightarrow> sorted (map fst (entries (put k v m)))"
    and put_at: "sorted (map fst (entries m)) \<Longrightarrow>
      filter (\<lambda>e. fst e = k') (entries (put k v m)) =
      filter (\<lambda>e. fst e = k') (entries m) @ (if k' = k then [(k, v)] else [])"
    and put_set: "set (entries (put k v m)) = insert (k, v) (set (entries m))"
    and remove_first_head:
      "entries m = (k, v) # es \<Longrightarrow>
       fst (remove_first k m) = Some v \<and> entries (snd (remove_first k m)) = es"
begin

primrec put_list :: "(int \<times> 'a) list \<Rightarrow> 'm \<Rightarrow> 'm" where
  "put_list [] m = m"
| "put_list (e # es) m = put_list es (put (fst e) (snd e) m)"

primrec drain :: "nat \<Rightarrow> 'm \<Rightarrow> 'a list" where
  "drain 0 m = []"
| "drain (Suc n) m =
     (case entries m of
        [] \<Rightarrow> []
      | e # _ \<Rightarrow> (case remove_first (fst e) m of (v, m') \<Rightarrow> the v # drain n m'))"

lemma put_list_sorted:
  "sorted (map fst (entries m)) \<Longrightarrow> sorted (map fst (entries (put_list es m)))"
  by (induction es arbitrary: m) (simp_all add: put_sorted)

lemma put_list_at:
  "sorted (map fst (entries m)) \<Longrightarrow>
   filter (\<lambda>e. fst e = k) (entries (put_list es m)) =
   filter (\<lambda>e. fst e = k) (entries m) @ filter (\<lambda>e. fst e = k) es"
  by (induction es arbitrary: m) (auto simp: put_sorted put_at)

lemma drain_entries: "length (entries m) \<le> n \<Longrightarrow> drain n m = map snd (entries m)"
proof (induction n arbitrary: m)
  case (Suc n)
  show ?case
  proof (cases "entries m")
    case (Cons e es)
    obtain k v where e: "e = (k, v)" by (cases e)
    have r: "fst (remove_first k m) = Some v" "entries (snd (remove_first k m)) = es"
      using remove_first_head [of m k v es] Cons e by auto
    have "drain n (snd (remove_first k m)) = map snd es"
      using Suc.IH [of "snd (remove_first k m)"] Suc.prems Cons r by simp
    then show ?thesis using Cons e r by (simp add: case_prod_unfold)
  qed simp
qed simp

text \<open>Entries put into an empty collection are drained in the order of a stable sort.\<close>

lemma put_list_stable: "entries (put_list es empty) = sort_key fst es"
proof (rule stable_unique)
  show "sorted (map fst (entries (put_list es empty)))"
    by (rule put_list_sorted) (simp add: entries_empty)
  show "filter (\<lambda>e. fst e = k) (entries (put_list es empty)) = filter (\<lambda>e. fst e = k) (sort_key fst es)" for k
    using sort_key_stable [of fst k es] by (simp add: put_list_at entries_empty)
qed simp

lemma drain_put_list: "drain (length es) (put_list es empty) = map snd (sort_key fst es)"
  using drain_entries [of "put_list es empty" "length es"] by (simp add: put_list_stable)

end

section \<open>The implementation meets the contract\<close>

lemma takeWhile_le_sorted:
  "sorted (map fst xs) \<Longrightarrow> takeWhile (\<lambda>e. fst e \<le> k) xs = filter (\<lambda>e. fst e \<le> (k :: int)) xs"
  by (induction xs) (auto simp: eq_commute [of "[]"] filter_empty_conv)

lemma dropWhile_le_sorted:
  "sorted (map fst xs) \<Longrightarrow> dropWhile (\<lambda>e. fst e \<le> k) xs = filter (\<lambda>e. \<not> fst e \<le> (k :: int)) xs"
  by (induction xs) (auto intro!: filter_True [symmetric])

lemma mmap_put_entries:
  "mm_multimap (mmap_put k v m) =
     takeWhile (\<lambda>e. fst e \<le> k) (mm_multimap m) @ (k, v) # dropWhile (\<lambda>e. fst e \<le> k) (mm_multimap m)"
  by (simp add: mmap_put_def Let_def takeWhile_eq_take [symmetric] dropWhile_eq_drop [symmetric])

lemma mmap_put_sorted: "mmap_ok m \<Longrightarrow> mmap_ok (mmap_put k v m)"
  by (auto simp: mmap_ok_def mmap_put_entries takeWhile_le_sorted dropWhile_le_sorted
      sorted_append sorted_filter)

lemma mmap_put_filter:
  assumes "mmap_ok m"
  shows "filter (\<lambda>e. fst e = k') (mm_multimap (mmap_put k v m)) =
    filter (\<lambda>e. fst e = k') (mm_multimap m) @ (if k' = k then [(k, v)] else [])"
proof -
  let ?P = "\<lambda>e. fst e \<le> k"
  have split: "filter Q (mm_multimap m) = filter Q (takeWhile ?P (mm_multimap m))
      @ filter Q (dropWhile ?P (mm_multimap m))" for Q
    by (metis filter_append takeWhile_dropWhile_id)
  have "filter (\<lambda>e. fst e = k) (dropWhile ?P (mm_multimap m)) = []"
    using assms by (auto simp: mmap_ok_def dropWhile_le_sorted filter_empty_conv)
  then show ?thesis by (cases "k = k'") (simp_all add: mmap_put_entries split)
qed

lemma mmap_put_set: "set (mm_multimap (mmap_put k v m)) = insert (k, v) (set (mm_multimap m))"
proof -
  have "set xs = set (takeWhile P xs) \<union> set (dropWhile P xs)" for P and xs :: "(int \<times> 'a) list"
    by (metis set_append takeWhile_dropWhile_id)
  then show ?thesis by (auto simp: mmap_put_entries)
qed

lemma mmap_remove_first_head:
  "mm_multimap m = (k, v) # es \<Longrightarrow>
   fst (mmap_remove_first k m) = Some v \<and> mm_multimap (snd (mmap_remove_first k m)) = es"
  by (simp add: mmap_remove_first_def mmap_find_def mmap_erase_at_def)

interpretation lm: ordered_multimap mmap_new mmap_put mmap_remove_first mm_multimap
proof (unfold_locales, goal_cases)
  case (2 m k v)
  then show ?case using mmap_put_sorted [of m k v] by (simp add: mmap_ok_def)
next
  case (3 m k' k v)
  then show ?case using mmap_put_filter [of m k' k v] by (simp add: mmap_ok_def)
next
  case (5 m k v es)
  then show ?case by (rule mmap_remove_first_head)
qed (simp_all add: mmap_new_def mmap_put_set)

lemma mmap_values_split:
  assumes "mmap_values m k = v # vs"
  obtains pre post where "mmap_find k m = Some (length pre)"
    and "mm_multimap m = pre @ (k, v) # post"
    and "filter (\<lambda>e. fst e = k) pre = []" and "map snd (filter (\<lambda>e. fst e = k) post) = vs"
proof -
  have "mmap_find k m \<noteq> None"
  proof
    assume "mmap_find k m = None"
    then have "filter (\<lambda>e. fst e = k) (mm_multimap m) = []"
      by (simp add: mmap_find_def find_index_None filter_empty_conv)
    with assms show False by (simp add: mmap_values_def)
  qed
  then obtain i where i: "find_index (\<lambda>e. fst e = k) (mm_multimap m) = Some i"
    by (auto simp: mmap_find_def)
  let ?pre = "take i (mm_multimap m)" and ?post = "drop (Suc i) (mm_multimap m)"
  obtain v' where vi: "mm_multimap m ! i = (k, v')"
    using find_index_SomeD(2) [OF i] by (cases "mm_multimap m ! i") auto
  have m: "mm_multimap m = ?pre @ (k, v') # ?post"
    using find_index_SomeD(1) [OF i] id_take_nth_drop [of i "mm_multimap m"] vi by simp
  have pre: "filter (\<lambda>e. fst e = k) ?pre = []"
    using find_index_SomeD(3) [OF i] find_index_SomeD(1) [OF i]
    by (fastforce simp: filter_empty_conv in_set_conv_nth)
  have "mmap_values m k = v' # map snd (filter (\<lambda>e. fst e = k) ?post)"
    unfolding mmap_values_def by (subst m) (simp add: pre)
  then show thesis
    using that [of ?pre ?post] m pre assms i find_index_SomeD(1) [OF i] by (simp add: mmap_find_def)
qed

section \<open>Properties\<close>

lemma lm_put_list: "lm.put_list es m = fold (\<lambda>e. mmap_put (fst e) (snd e)) es m"
  by (induction es arbitrary: m) simp_all

text \<open>
  C33: Whatever is put into a fresh multimap, \<^verbatim>\<open>return_all\<close> answers the values in the order of
  a stable sort by key: keys ascend, and values of one key stay in the order they were put.
\<close>

theorem mmap_is_stable_sort:
  "mmap_return_all (fold (\<lambda>(k, v). mmap_put k v) es mmap_new) =
     (length es, if es = [] then None else Some (map snd (sort_key fst es)))"
proof -
  have "fold (\<lambda>(k, v). mmap_put k v) es mmap_new = lm.put_list es mmap_new"
    by (simp add: lm_put_list case_prod_unfold)
  then show ?thesis
    using lm.put_list_stable [of es] by (auto simp: mmap_return_all_def mmap_size_def)
qed

text \<open>
  \<^verbatim>\<open>remove_first\<close> takes exactly the value \<^verbatim>\<open>get\<close> answers, the oldest of the key, while
  \<^verbatim>\<open>remove\<close> answers that value and drops every younger one of the key unseen; both leave
  the other keys and the order of the map as they were.
\<close>

theorem mmap_removals:
  assumes "mmap_ok m" and "mmap_values m k = v # vs"
  shows "mmap_get k m = Some v
    \<and> fst (mmap_remove_first k m) = Some v \<and> mmap_ok (snd (mmap_remove_first k m))
    \<and> mmap_values (snd (mmap_remove_first k m)) = (mmap_values m)(k := vs)
    \<and> fst (mmap_remove k m) = Some v \<and> mmap_ok (snd (mmap_remove k m))
    \<and> mmap_values (snd (mmap_remove k m)) = (mmap_values m)(k := [])"
proof -
  obtain pre post where find: "mmap_find k m = Some (length pre)"
    and m: "mm_multimap m = pre @ (k, v) # post"
    and pre: "filter (\<lambda>e. fst e = k) pre = []" and vs: "map snd (filter (\<lambda>e. fst e = k) post) = vs"
    by (rule mmap_values_split [OF assms(2)])
  have first: "mm_multimap (snd (mmap_remove_first k m)) = pre @ post"
    by (simp add: mmap_remove_first_def find mmap_erase_at_def m)
  have all: "mm_multimap (snd (mmap_remove k m)) = filter (\<lambda>e. fst e \<noteq> k) (mm_multimap m)"
    by (simp add: mmap_remove_def find mmap_erase_key_def)
  have ok1: "sorted (map fst (pre @ post))"
    using assms(1) by (auto simp: mmap_ok_def m sorted_append)
  have ok2: "sorted (map fst (filter (\<lambda>e. fst e \<noteq> k) (mm_multimap m)))"
    using assms(1) by (simp add: mmap_ok_def sorted_filter)
  have "mmap_values (snd (mmap_remove_first k m)) = (mmap_values m)(k := vs)"
    using pre vs by (auto simp: fun_eq_iff mmap_values_def first m)
  moreover have "filter (\<lambda>e. fst e = k' \<and> fst e \<noteq> k) xs =
      (if k' = k then [] else filter (\<lambda>e. fst e = k') xs)" for k' and xs :: "(int \<times> 'a) list"
    by (auto simp: filter_empty_conv intro!: filter_cong)
  then have "mmap_values (snd (mmap_remove k m)) = (mmap_values m)(k := [])"
    by (simp add: fun_eq_iff mmap_values_def all conj_commute)
  ultimately show ?thesis
    using ok1 ok2 [folded all]
    by (simp add: mmap_ok_def first mmap_get_def) (simp add: mmap_remove_def mmap_remove_first_def find m)
qed

theorem mmap_removals_witness:
  "fst (mmap_remove 5 (mmap_put 5 ''b'' (mmap_put 7 ''c'' (mmap_put 5 ''a'' mmap_new)))) = Some ''a''
   \<and> mmap_values (snd (mmap_remove_first 5 (mmap_put 5 ''b'' (mmap_put 7 ''c'' (mmap_put 5 ''a'' mmap_new))))) 5 = [''b'']"
proof -
  let ?m = "mmap_put 5 ''b'' (mmap_put 7 ''c'' (mmap_put 5 ''a'' mmap_new))"
  have "mmap_ok ?m" "mmap_values ?m 5 = ''a'' # [''b'']" by code_simp+
  from mmap_removals [OF this] show ?thesis by simp
qed

end
