(* ===== verification/Tm_Timer.thy ===== *)
theory Tm_Timer
  imports Tm_World Tm_MultiMap "HOL-Library.Multiset"
begin

text \<open>
  The timer object of the transaction manager (\<^verbatim>\<open>tmtimer.h\<close>, \<^verbatim>\<open>tmtimer.cpp\<close>): the timer
  events, the list of running timers ordered by expiry time, the queue of events other
  threads hand over, and the operations that add and cancel events.  An event is reached
  through several pointers at once (the queue, the list, \<^verbatim>\<open>ip_cp_event\<close> and its siblings,
  \<^verbatim>\<open>ip_timeoutEvent\<close> and \<^verbatim>\<open>ip_hung_event\<close> of a transaction), so a pointer is an address
  and a store says which events live; \<^const>\<open>None\<close> is an abort or the use of freed memory.
\<close>

section \<open>Timer events\<close>

datatype TmTimer_State = TmTimer_Down | TmTimer_Up

datatype TmTimer_Command =
  TmTimerCmd_Queue | TmTimerCmd_Timer | TmTimerCmd_Stop | TmTimerCmd_Cancelled

text \<open>
  The request type of an event, with the request fields its handler reads: the node of a
  restart or recovery, the shutdown level of a disable.
\<close>

datatype timer_request =
    TIMER_CONTROLPOINT | TIMER_STATS | TIMER_RMRETRY | TIMER_TMRESTART_RETRY int
  | TIMER_SHUTDOWNP1_WAIT int | TIMER_ATTACHRM | TIMER_ENABLETRANS | TIMER_DISABLETRANS int
  | TIMER_RECOVERY_WAIT int | TIMER_INITIALIZE_RMS | TIMER_SYSTEM_RECOVERY
  | TIMER_NULL | TIMER_OTHER TM_MSG_TYPE

record timer_event =
  tev_cmd :: TmTimer_Command
  tev_requestType :: timer_request
  tev_msgid :: int
  tev_transaction :: "nat option"
  tev_thread :: "nat option"
  tev_wakeupInterval :: int
  tev_wakeupRepeat :: int

text \<open>The five constructors of \<^verbatim>\<open>CTmTimerEvent\<close>.\<close>

definition event_for_transaction :: "timer_request \<Rightarrow> nat option \<Rightarrow> nat \<Rightarrow> int \<Rightarrow> timer_event" where
  "event_for_transaction req thread tx interval =
     \<lparr> tev_cmd = TmTimerCmd_Queue, tev_requestType = req, tev_msgid = NULL_MSGID,
       tev_transaction = Some tx, tev_thread = thread,
       tev_wakeupInterval = interval, tev_wakeupRepeat = 0 \<rparr>"

definition event_for_thread :: "timer_request \<Rightarrow> nat option \<Rightarrow> int \<Rightarrow> int \<Rightarrow> timer_event" where
  "event_for_thread req thread interval repeat =
     \<lparr> tev_cmd = TmTimerCmd_Queue, tev_requestType = req, tev_msgid = NULL_MSGID,
       tev_transaction = None, tev_thread = thread,
       tev_wakeupInterval = interval, tev_wakeupRepeat = repeat \<rparr>"

definition event_command :: "TmTimer_Command \<Rightarrow> nat option \<Rightarrow> timer_event" where
  "event_command cmd thread =
     \<lparr> tev_cmd = cmd, tev_requestType = TIMER_NULL, tev_msgid = NULL_MSGID,
       tev_transaction = None, tev_thread = thread,
       tev_wakeupInterval = 0, tev_wakeupRepeat = 0 \<rparr>"

definition event_of_msg :: "timer_request \<Rightarrow> int \<Rightarrow> int \<Rightarrow> int \<Rightarrow> timer_event" where
  "event_of_msg req msgid interval repeat =
     \<lparr> tev_cmd = TmTimerCmd_Queue, tev_requestType = req, tev_msgid = msgid,
       tev_transaction = None, tev_thread = None,
       tev_wakeupInterval = interval, tev_wakeupRepeat = repeat \<rparr>"

definition event_of_type :: "timer_request \<Rightarrow> int \<Rightarrow> int \<Rightarrow> timer_event" where
  "event_of_type req interval repeat =
     \<lparr> tev_cmd = TmTimerCmd_Queue, tev_requestType = req, tev_msgid = NULL_MSGID,
       tev_transaction = None, tev_thread = None,
       tev_wakeupInterval = interval, tev_wakeupRepeat = repeat \<rparr>"

lemmas event_defs = event_for_transaction_def event_for_thread_def event_command_def
  event_of_msg_def event_of_type_def

definition dec_wakeupRepeat :: "timer_event \<Rightarrow> timer_event" where
  "dec_wakeupRepeat ev =
     (if tev_wakeupRepeat ev > 0 then ev\<lparr> tev_wakeupRepeat := tev_wakeupRepeat ev - 1 \<rparr> else ev)"

section \<open>The timer object\<close>

text \<open>
  \<open>tmr_restart\<close> is \<^verbatim>\<open>iv_open_tms[nid].ip_restartTimerEvent\<close> of \<^verbatim>\<open>gv_tm_info\<close>;
  \<open>tmr_start\<close> is the start time \<^verbatim>\<open>gv_startTime\<close> all times are relative to.
\<close>

record tm_timer =
  tmr_state :: TmTimer_State
  tmr_start :: timeval
  tmr_defaultWaitTime :: timeval
  tmr_eventQ :: "nat tm_deque"
  tmr_timerList :: "nat tm_mmap"
  tmr_heap :: "timer_event option list"
  tmr_cp_event :: "nat option"
  tmr_stats_event :: "nat option"
  tmr_RMRetry_event :: "nat option"
  tmr_ShutdownP1_event :: "nat option"
  tmr_restart :: "int \<Rightarrow> nat option"

definition set_defaultWaitTime :: "int \<Rightarrow> tm_timer \<Rightarrow> tm_timer" where
  "set_defaultWaitTime msec t =
     t\<lparr> tmr_defaultWaitTime := (if msec = - 1 then msectotimeval 0 else msectotimeval msec) \<rparr>"

definition timer_new :: "timeval \<Rightarrow> int \<Rightarrow> tm_timer" where
  "timer_new start msec =
     set_defaultWaitTime msec
       \<lparr> tmr_state = TmTimer_Up, tmr_start = start, tmr_defaultWaitTime = tv_zero,
         tmr_eventQ = deque_new, tmr_timerList = mmap_new, tmr_heap = [],
         tmr_cp_event = None, tmr_stats_event = None, tmr_RMRetry_event = None,
         tmr_ShutdownP1_event = None, tmr_restart = (\<lambda>_. None) \<rparr>"

text \<open>A freed event leaves \<^const>\<open>None\<close> at its address; addresses are not used again.\<close>

definition event_at :: "tm_timer \<Rightarrow> nat \<Rightarrow> timer_event option" where
  "event_at t a = (if a < length (tmr_heap t) then tmr_heap t ! a else None)"

definition set_event :: "nat \<Rightarrow> timer_event option \<Rightarrow> tm_timer \<Rightarrow> tm_timer" where
  "set_event a p t = t\<lparr> tmr_heap := (tmr_heap t)[a := p] \<rparr>"

text \<open>\<^verbatim>\<open>new\<close>, then \<^verbatim>\<open>eventQ_push\<close>: every event enters the timer this way.\<close>

definition timer_eventQ_push :: "nat option \<Rightarrow> tm_timer \<Rightarrow> tm_timer option" where
  "timer_eventQ_push p t =
     (case p of None \<Rightarrow> None | Some a \<Rightarrow> Some (t\<lparr> tmr_eventQ := deque_push a (tmr_eventQ t) \<rparr>))"

definition timer_alloc :: "timer_event \<Rightarrow> tm_timer \<Rightarrow> nat \<times> tm_timer" where
  "timer_alloc ev t =
     (length (tmr_heap t), t\<lparr> tmr_heap := tmr_heap t @ [Some ev] \<rparr>)"

definition timer_post :: "timer_event \<Rightarrow> tm_timer \<Rightarrow> (nat \<times> tm_timer) option" where
  "timer_post ev t =
     (case timer_alloc ev t of
        (a, t') \<Rightarrow> do { t'' \<leftarrow> timer_eventQ_push (Some a) t'; Some (a, t'') })"

definition cancelEvent :: "nat \<Rightarrow> tm_timer \<Rightarrow> tm_timer option" where
  "cancelEvent a t =
     (case event_at t a of
        None \<Rightarrow> None
      | Some ev \<Rightarrow> Some (set_event a (Some (ev\<lparr> tev_cmd := TmTimerCmd_Cancelled \<rparr>)) t))"

definition cancel_if_set :: "nat option \<Rightarrow> tm_timer \<Rightarrow> tm_timer option" where
  "cancel_if_set p t = (case p of None \<Rightarrow> Some t | Some a \<Rightarrow> cancelEvent a t)"

definition addControlpointEvent :: "int \<Rightarrow> tm_timer \<Rightarrow> tm_timer option" where
  "addControlpointEvent interval t =
     do { (a, t') \<leftarrow> timer_post (event_for_thread TIMER_CONTROLPOINT None interval (- 1)) t;
          Some (t'\<lparr> tmr_cp_event := Some a \<rparr>) }"

definition cancelControlpointEvent :: "tm_timer \<Rightarrow> tm_timer option" where
  "cancelControlpointEvent t = cancel_if_set (tmr_cp_event t) t"

definition addStatsEvent :: "int \<Rightarrow> tm_timer \<Rightarrow> tm_timer option" where
  "addStatsEvent interval t =
     do { (a, t') \<leftarrow> timer_post (event_for_thread TIMER_STATS None interval (- 1)) t;
          Some (t'\<lparr> tmr_stats_event := Some a \<rparr>) }"

definition cancelStatsEvent :: "tm_timer \<Rightarrow> tm_timer option" where
  "cancelStatsEvent t = cancel_if_set (tmr_stats_event t) t"

definition addRMRetryEvent :: "int \<Rightarrow> tm_timer \<Rightarrow> tm_timer option" where
  "addRMRetryEvent interval t =
     do { (a, t') \<leftarrow> timer_post (event_for_thread TIMER_RMRETRY None interval (- 1)) t;
          Some (t'\<lparr> tmr_RMRetry_event := Some a \<rparr>) }"

definition cancelRMRetryEvent :: "tm_timer \<Rightarrow> tm_timer option" where
  "cancelRMRetryEvent t = cancel_if_set (tmr_RMRetry_event t) t"

section \<open>Events added by the rest of the transaction manager\<close>

text \<open>\<^verbatim>\<open>CTmTxBase::addTimerEvent\<close>, \<^verbatim>\<open>tm_addTimerEvent\<close> and \<^verbatim>\<open>TM_Info::addTimerEvent\<close>.\<close>

definition tx_addTimerEvent ::
  "timer_request \<Rightarrow> nat option \<Rightarrow> nat \<Rightarrow> int \<Rightarrow> tm_timer \<Rightarrow> (nat \<times> tm_timer) option" where
  "tx_addTimerEvent req thread tx delay t = timer_post (event_for_transaction req thread tx delay) t"

definition tm_addTimerEvent ::
  "timer_request \<Rightarrow> nat option \<Rightarrow> int \<Rightarrow> int \<Rightarrow> tm_timer \<Rightarrow> (nat \<times> tm_timer) option" where
  "tm_addTimerEvent req thread delay repeat t = timer_post (event_for_thread req thread delay repeat) t"

definition tm_stopTimerEvent :: "nat \<Rightarrow> tm_timer \<Rightarrow> tm_timer option" where
  "tm_stopTimerEvent a t = cancelEvent a t"

definition info_addTimerEvent :: "timer_request \<Rightarrow> int \<Rightarrow> int \<Rightarrow> tm_timer \<Rightarrow> (nat \<times> tm_timer) option" where
  "info_addTimerEvent req msgid delay t = timer_post (event_of_msg req msgid delay 0) t"

text \<open>\<open>interval\<close> is \<^verbatim>\<open>iv_TMRestartRetry_interval\<close>.\<close>

definition addTMRestartRetry :: "int \<Rightarrow> int \<Rightarrow> int \<Rightarrow> tm_timer \<Rightarrow> tm_timer option" where
  "addTMRestartRetry interval nid waitTime t =
     (if nid < 0 then None
      else do {
        (a, t') \<leftarrow> timer_post (event_of_type (TIMER_TMRESTART_RETRY nid)
                     (if waitTime < 0 then interval else waitTime) 0) t;
        Some (t'\<lparr> tmr_restart := (tmr_restart t')(nid := Some a) \<rparr>) })"

definition cancelTMRestartEvent :: "int \<Rightarrow> tm_timer \<Rightarrow> tm_timer option" where
  "cancelTMRestartEvent nid t =
     do { t' \<leftarrow> cancel_if_set (tmr_restart t nid) t;
          Some (t'\<lparr> tmr_restart := (tmr_restart t')(nid := None) \<rparr>) }"

definition addTMRecoveryWait :: "int \<Rightarrow> int \<Rightarrow> tm_timer \<Rightarrow> tm_timer option" where
  "addTMRecoveryWait nid delay t =
     do { (a, t') \<leftarrow> timer_post (event_of_type (TIMER_RECOVERY_WAIT nid) delay 0) t; Some t' }"

definition schedule_init_and_recover_rms :: "tm_timer \<Rightarrow> tm_timer option" where
  "schedule_init_and_recover_rms t =
     do { (a, t') \<leftarrow> timer_post (event_of_type TIMER_INITIALIZE_RMS 0 0) t; Some t' }"

definition schedule_recover_system :: "tm_timer \<Rightarrow> tm_timer option" where
  "schedule_recover_system t =
     do { (a, t') \<leftarrow> timer_post (event_of_type TIMER_SYSTEM_RECOVERY 0 0) t; Some t' }"

definition cancelShutdownPhase1WaitEvent :: "tm_timer \<Rightarrow> tm_timer option" where
  "cancelShutdownPhase1WaitEvent t =
     do { t' \<leftarrow> cancel_if_set (tmr_ShutdownP1_event t) t; Some (t'\<lparr> tmr_ShutdownP1_event := None \<rparr>) }"

abbreviation (input) TM_SHUTDOWNP1WAIT_DEFAULT :: int where "TM_SHUTDOWNP1WAIT_DEFAULT \<equiv> 100"

definition addShutdownPhase1WaitEvent :: "int \<Rightarrow> int \<Rightarrow> tm_timer \<Rightarrow> tm_timer option" where
  "addShutdownPhase1WaitEvent level msgid t =
     do { t1 \<leftarrow> cancelShutdownPhase1WaitEvent t;
          (a, t2) \<leftarrow> timer_post (event_of_msg (TIMER_SHUTDOWNP1_WAIT level) msgid
                       TM_SHUTDOWNP1WAIT_DEFAULT (- 1)) t1;
          Some (t2\<lparr> tmr_ShutdownP1_event := Some a \<rparr>) }"

text \<open>The first half of \<^verbatim>\<open>TM_Info::stopTimerEvent\<close>; the second waits for the timer to go down.\<close>

definition stopTimerEvent :: "tm_timer \<Rightarrow> tm_timer option" where
  "stopTimerEvent t =
     do { (a, t') \<leftarrow> timer_post (event_command TmTimerCmd_Stop None) t; Some t' }"

section \<open>The timer pointers of a transaction\<close>

record tx_timers =
  txt_timeoutEvent :: "nat option"
  txt_hung_event :: "nat option"

text \<open>
  \<^verbatim>\<open>CTmTxBase::setAbortTimeout\<close>, with \<open>dflt\<close> for \<^verbatim>\<open>gv_tm_info.timeout()\<close>; the product wraps
  in 32 bits.  \<^verbatim>\<open>CTmTxBase::addHungTimerEvent\<close>, with \<open>interval\<close> for
  \<^verbatim>\<open>trans_hung_retry_interval()\<close>.  The cancellations at the head of \<^verbatim>\<open>redriverollback_txn\<close> and
  \<^verbatim>\<open>redrivecommit_txn\<close>, and in \<^verbatim>\<open>TM_TX_Info::cleanup\<close>.
\<close>

definition txt_setAbortTimeout ::
  "int \<Rightarrow> int \<Rightarrow> nat option \<Rightarrow> nat \<Rightarrow> tx_timers \<Rightarrow> tm_timer \<Rightarrow> (tx_timers \<times> tm_timer) option" where
  "txt_setAbortTimeout dflt timeout thread tx p t =
     (let lv_timeout = (if timeout \<noteq> 0 then timeout else dflt);
          msec = (if lv_timeout = - 1 then - 1 else sint (word_of_int (lv_timeout * 1000) :: 32 word))
      in do {
        t1 \<leftarrow> cancel_if_set (txt_timeoutEvent p) t;
        if lv_timeout \<noteq> - 1
        then do { (a, t2) \<leftarrow> tx_addTimerEvent (TIMER_OTHER TXINTERNAL_ROLLBACK) thread tx msec t1;
                  Some (p\<lparr> txt_timeoutEvent := Some a \<rparr>, t2) }
        else Some (p, t1) })"

definition txt_addHungTimerEvent ::
  "int \<Rightarrow> TM_MSG_TYPE \<Rightarrow> nat option \<Rightarrow> nat \<Rightarrow> tx_timers \<Rightarrow> tm_timer \<Rightarrow> (tx_timers \<times> tm_timer) option" where
  "txt_addHungTimerEvent interval ty thread tx p t =
     (if txt_hung_event p = None
      then do { (a, t1) \<leftarrow> tx_addTimerEvent (TIMER_OTHER ty) thread tx interval t;
                Some (p\<lparr> txt_hung_event := Some a \<rparr>, t1) }
      else Some (p, t))"

definition txt_redrive_cancel :: "tx_timers \<Rightarrow> tm_timer \<Rightarrow> (tx_timers \<times> tm_timer) option" where
  "txt_redrive_cancel p t =
     (case txt_hung_event p of
        None \<Rightarrow> Some (p, t)
      | Some a \<Rightarrow> do { t' \<leftarrow> cancelEvent a t; Some (p\<lparr> txt_hung_event := None \<rparr>, t') })"

definition txt_cleanup :: "tx_timers \<Rightarrow> tm_timer \<Rightarrow> (tx_timers \<times> tm_timer) option" where
  "txt_cleanup p t =
     (case txt_timeoutEvent p of
        None \<Rightarrow> Some (p, t)
      | Some a \<Rightarrow> do { t' \<leftarrow> cancelEvent a t; Some (p\<lparr> txt_timeoutEvent := None \<rparr>, t') })"

section \<open>The timer list\<close>

text \<open>
  \<open>now\<close> is what \<^verbatim>\<open>gettimeofday\<close> answers to the call inside.  The time of a timer is an
  unsigned 64-bit number, the key of the list a signed one.
\<close>

definition timerList_add :: "int \<times> timeval \<Rightarrow> nat \<Rightarrow> tm_timer \<Rightarrow> tm_timer option" where
  "timerList_add now a t =
     do { ev \<leftarrow> event_at t a;
          time \<leftarrow> tmtime_after (tmr_start t) now (tev_wakeupInterval ev);
          Some (t\<lparr> tmr_timerList := mmap_put (sint time) a (tmr_timerList t) \<rparr>) }"

text \<open>
  \<^verbatim>\<open>CTmTime lv_time(0)\<close> picks the constructor from a 32-bit delay, so an empty list answers
  the current time.
\<close>

definition timerList_getFirst :: "int \<times> timeval \<Rightarrow> tm_timer \<Rightarrow> (64 word \<times> tm_timer) option" where
  "timerList_getFirst now t =
     do { time \<leftarrow> tmtime_after (tmr_start t) now 0;
          case mmap_get_first (tmr_timerList t) of
            (None, l) \<Rightarrow> Some (time, t\<lparr> tmr_timerList := l \<rparr>)
          | (Some _, l) \<Rightarrow> do { k \<leftarrow> mmap_curr_key l; Some (word_of_int k, t\<lparr> tmr_timerList := l \<rparr>) } }"

text \<open>The walk over the timers of one key that \<^verbatim>\<open>pop\<close> makes to trace duplicates.\<close>

primrec timerList_walk :: "nat \<Rightarrow> nat tm_mmap \<Rightarrow> nat tm_mmap option" where
  "timerList_walk 0 l = Some l"
| "timerList_walk (Suc n) l = do { (_, l') \<leftarrow> mmap_get_next l; timerList_walk n l' }"

definition timerList_pop :: "tm_timer \<Rightarrow> (nat option \<times> 64 word \<times> tm_timer) option" where
  "timerList_pop t =
     (case mmap_get_first (tmr_timerList t) of
        (p, l) \<Rightarrow> do {
          time \<leftarrow> (case p of None \<Rightarrow> Some 0
                              | Some _ \<Rightarrow> map_option word_of_int (mmap_curr_key l));
          key \<leftarrow> mmap_curr_key l;
          let n = mmap_count key l;
          case p of
            None \<Rightarrow> Some (None, time, t\<lparr> tmr_timerList := l \<rparr>)
          | Some a \<Rightarrow> do {
              l1 \<leftarrow> (if n > 1 then timerList_walk n (snd (mmap_get_first l)) else Some l);
              let (b, l2) = mmap_remove_first (sint time) l1;
              if b \<noteq> Some a then None else Some (Some a, time, t\<lparr> tmr_timerList := l2 \<rparr>) } })"

section \<open>Waiting for the next event\<close>

text \<open>
  The calls to \<^verbatim>\<open>gettimeofday\<close> of one wait, in order: the two \<^verbatim>\<open>CTmTime lv_time\<close> of
  \<^verbatim>\<open>eventQ_pop\<close> and \<^verbatim>\<open>calculateWait\<close>, the one in \<^verbatim>\<open>getFirst\<close> and the one in \<^verbatim>\<open>left_tv\<close>.
\<close>

definition calculateWait ::
  "(nat \<Rightarrow> int \<times> timeval) \<Rightarrow> tm_timer \<Rightarrow> ((bool \<times> timeval) \<times> tm_timer) option" where
  "calculateWait now t =
     do { _ \<leftarrow> tmtime_now (tmr_start t) (now 1);
          (time, t1) \<leftarrow> timerList_getFirst (now 2) t;
          if time = 0
          then Some ((\<not> (tv_sec (tmr_defaultWaitTime t1) = 0 \<and> tv_usec (tmr_defaultWaitTime t1) = 0),
                      tmr_defaultWaitTime t1), t1)
          else do { left \<leftarrow> tmtime_left_tv (tmr_start t) (now 3) time; Some ((True, left), t1) } }"

text \<open>The events other threads post while the timer thread sleeps.\<close>

primrec timer_arrive :: "timer_event list \<Rightarrow> tm_timer \<Rightarrow> tm_timer option" where
  "timer_arrive [] t = Some t"
| "timer_arrive (ev # evs) t = do { (_, t') \<leftarrow> timer_post ev t; timer_arrive evs t' }"

definition timer_eventQ_pop ::
  "(nat \<Rightarrow> int \<times> timeval) \<Rightarrow> timer_event list \<Rightarrow> tm_timer \<Rightarrow> (nat option \<times> tm_timer) option" where
  "timer_eventQ_pop now arrivals t =
     do { _ \<leftarrow> tmtime_now (tmr_start t) (now 0);
          ((wait, waitTime), t1) \<leftarrow> calculateWait now t;
          t2 \<leftarrow> (if deque_empty (tmr_eventQ t1) then timer_arrive arrivals t1 else Some t1);
          if \<not> deque_empty (tmr_eventQ t2)
          then let (p, q) = deque_pop_end (tmr_eventQ t2) in Some (p, t2\<lparr> tmr_eventQ := q \<rparr>)
          else do { (p, time, t3) \<leftarrow> timerList_pop t2; Some (p, t3) } }"

section \<open>Every event has one owner\<close>

text \<open>
  The events the timer holds, in its queue or in its list: they are alive and held
  once, the list is in order, an event in the list was queued before, and one in the
  queue never was.
\<close>

definition timer_held :: "tm_timer \<Rightarrow> nat list" where
  "timer_held t = dq_deque (tmr_eventQ t) @ map snd (mm_multimap (tmr_timerList t))"

definition cmd_in :: "TmTimer_Command list \<Rightarrow> timer_event option \<Rightarrow> bool" where
  "cmd_in cs p = (case p of None \<Rightarrow> False | Some ev \<Rightarrow> tev_cmd ev \<in> set cs)"

definition timer_inv :: "tm_timer \<Rightarrow> bool" where
  "timer_inv t =
     (mmap_ok (tmr_timerList t)
      \<and> list_all (\<lambda>e. sint (word_of_int (fst e) :: 64 word) = fst e) (mm_multimap (tmr_timerList t))
      \<and> distinct (timer_held t)
      \<and> list_all (\<lambda>a. cmd_in [TmTimerCmd_Queue, TmTimerCmd_Stop, TmTimerCmd_Cancelled] (event_at t a))
                 (dq_deque (tmr_eventQ t))
      \<and> list_all (\<lambda>e. cmd_in [TmTimerCmd_Timer, TmTimerCmd_Cancelled] (event_at t (snd e)))
                 (mm_multimap (tmr_timerList t)))"

lemma event_at_alloc [simp]:
  "event_at (snd (timer_alloc ev t)) a = (if a = length (tmr_heap t) then Some ev else event_at t a)"
  by (auto simp: event_at_def timer_alloc_def nth_append)

lemma event_at_set [simp]:
  "event_at (set_event b p t) a = (if a = b \<and> b < length (tmr_heap t) then p else event_at t a)"
  by (auto simp: event_at_def set_event_def nth_list_update)

lemma event_at_fields [simp]:
  "event_at (t\<lparr> tmr_eventQ := q \<rparr>) = event_at t" "event_at (t\<lparr> tmr_timerList := l \<rparr>) = event_at t"
  "event_at (t\<lparr> tmr_restart := r \<rparr>) = event_at t" "event_at (t\<lparr> tmr_state := st \<rparr>) = event_at t"
  "event_at (t\<lparr> tmr_ShutdownP1_event := p \<rparr>) = event_at t"
  by (simp_all add: fun_eq_iff event_at_def)

lemma event_at_fresh: "event_at t a \<noteq> None \<Longrightarrow> a < length (tmr_heap t)"
  by (auto simp: event_at_def split: if_splits)

lemma set_event_fields [simp]:
  "tmr_eventQ (set_event a p t) = tmr_eventQ t" "tmr_timerList (set_event a p t) = tmr_timerList t"
  "tmr_start (set_event a p t) = tmr_start t" "tmr_restart (set_event a p t) = tmr_restart t"
  "length (tmr_heap (set_event a p t)) = length (tmr_heap t)"
  "tmr_ShutdownP1_event (set_event a p t) = tmr_ShutdownP1_event t"
  by (simp_all add: set_event_def)

lemma cmd_in_Some: "cmd_in cs p \<longleftrightarrow> (\<exists>ev. p = Some ev \<and> tev_cmd ev \<in> set cs)"
  by (auto simp: cmd_in_def split: option.splits)

lemma timer_inv_held:
  assumes "timer_inv t" and "a \<in> set (timer_held t)"
  shows "a < length (tmr_heap t) \<and> event_at t a \<noteq> None"
proof -
  have "\<exists>cs. cmd_in cs (event_at t a)"
    using assms by (fastforce simp: timer_inv_def timer_held_def list_all_iff)
  then have "event_at t a \<noteq> None" by (auto simp: cmd_in_Some)
  then show ?thesis using event_at_fresh by blast
qed

lemma timer_post_eq:
  "timer_post ev t =
     Some (length (tmr_heap t),
           t\<lparr> tmr_heap := tmr_heap t @ [Some ev],
              tmr_eventQ := deque_push (length (tmr_heap t)) (tmr_eventQ t) \<rparr>)"
  by (simp add: timer_post_def timer_alloc_def timer_eventQ_push_def)

lemma timer_post_inv:
  assumes "timer_inv t" and "tev_cmd ev \<in> {TmTimerCmd_Queue, TmTimerCmd_Stop}"
    and "timer_post ev t = Some (a, t')"
  shows "timer_inv t'"
proof -
  have fresh: "length (tmr_heap t) \<notin> set (timer_held t)"
    using timer_inv_held [OF assms(1)] by auto
  have t': "t' = t\<lparr> tmr_heap := tmr_heap t @ [Some ev],
              tmr_eventQ := deque_push (length (tmr_heap t)) (tmr_eventQ t) \<rparr>"
    using assms(3) by (auto simp: timer_post_eq)
  have ev: "event_at t' b = (if b = length (tmr_heap t) then Some ev else event_at t b)" for b
    by (auto simp: t' event_at_def nth_append)
  have fields: "dq_deque (tmr_eventQ t') = length (tmr_heap t) # dq_deque (tmr_eventQ t)"
      "tmr_timerList t' = tmr_timerList t" by (simp_all add: t' deque_push_def)
  have "cmd_in [TmTimerCmd_Queue, TmTimerCmd_Stop, TmTimerCmd_Cancelled] (Some ev)"
    using assms(2) by (auto simp: cmd_in_Some)
  moreover have "a \<in> set (dq_deque (tmr_eventQ t)) \<Longrightarrow> event_at t' a = event_at t a"
      "e \<in> set (mm_multimap (tmr_timerList t)) \<Longrightarrow> event_at t' (snd e) = event_at t (snd e)" for a e
    using fresh by (auto simp: ev timer_held_def image_iff)
  moreover have "event_at t' (length (tmr_heap t)) = Some ev" by (simp add: ev)
  ultimately show ?thesis
    using assms(1) fresh by (simp add: timer_inv_def timer_held_def fields list_all_iff)
qed

lemma set_event_inv:
  assumes "timer_inv t" and "a \<notin> set (timer_held t) \<or> (\<exists>ev. p = Some ev \<and> tev_cmd ev = TmTimerCmd_Cancelled)"
  shows "timer_inv (set_event a p t)"
  using assms(2)
proof
  assume "a \<notin> set (timer_held t)"
  then show ?thesis
    using assms(1) by (auto simp: timer_inv_def timer_held_def list_all_iff)
next
  assume "\<exists>ev. p = Some ev \<and> tev_cmd ev = TmTimerCmd_Cancelled"
  then have "cmd_in [TmTimerCmd_Queue, TmTimerCmd_Stop, TmTimerCmd_Cancelled] p"
      "cmd_in [TmTimerCmd_Timer, TmTimerCmd_Cancelled] p" by (auto simp: cmd_in_Some)
  then show ?thesis
    using assms(1) by (auto simp: timer_inv_def timer_held_def list_all_iff)
qed

lemma cancelEvent_inv:
  assumes "timer_inv t" and "cancelEvent a t = Some t'"
  shows "timer_inv t'"
  using assms by (auto simp: cancelEvent_def split: option.splits intro!: set_event_inv)

lemma timer_inv_fields:
  assumes "tmr_eventQ t' = tmr_eventQ t" "tmr_timerList t' = tmr_timerList t" "tmr_heap t' = tmr_heap t"
  shows "timer_inv t' \<longleftrightarrow> timer_inv t"
  using assms by (simp add: timer_inv_def timer_held_def event_at_def)

lemma cancel_if_set_inv: "timer_inv t \<Longrightarrow> cancel_if_set p t = Some t' \<Longrightarrow> timer_inv t'"
  by (auto simp: cancel_if_set_def split: option.splits intro: cancelEvent_inv)

lemma timer_inv_iterator:
  "timer_inv (t\<lparr> tmr_timerList := tmr_timerList t\<lparr> mm_iterator := it \<rparr> \<rparr>) \<longleftrightarrow> timer_inv t"
  by (simp add: timer_inv_def timer_held_def event_at_def mmap_ok_def)

section \<open>The list delivers the earliest timer\<close>

lemma timerList_walk_entries:
  assumes "mm_iterator l = MMap_at i" and "i + n \<le> length (mm_multimap l)" and "n > 0"
  shows "\<exists>it. timerList_walk n l = Some (l\<lparr> mm_iterator := it \<rparr>)"
  using assms
proof (induction n arbitrary: l i)
  case (Suc n)
  have step: "\<exists>x it. mmap_get_next l = Some (x, l\<lparr> mm_iterator := it \<rparr>)
      \<and> (Suc i < length (mm_multimap l) \<longrightarrow> it = MMap_at (Suc i))"
    using Suc.prems by (auto simp: mmap_get_next_def mmap_advance_def)
  then obtain x it where x: "mmap_get_next l = Some (x, l\<lparr> mm_iterator := it \<rparr>)"
      "Suc i < length (mm_multimap l) \<longrightarrow> it = MMap_at (Suc i)" by auto
  show ?case
  proof (cases n)
    case 0
    then show ?thesis using x by auto
  next
    case (Suc m)
    then show ?thesis
      using Suc.IH [of "l\<lparr> mm_iterator := it \<rparr>" "Suc i"] Suc.prems x by auto
  qed
qed simp

lemma timerList_pop_head:
  assumes "timer_inv t" and "mm_multimap (tmr_timerList t) = (k, a) # es"
  shows "\<exists>l. timerList_pop t = Some (Some a, word_of_int k, t\<lparr> tmr_timerList := l \<rparr>) \<and> mm_multimap l = es"
proof -
  let ?l = "tmr_timerList t" and ?n = "mmap_count k (tmr_timerList t)"
  have key: "sint (word_of_int k :: 64 word) = k"
    using assms by (simp add: timer_inv_def)
  have n: "?n \<le> length (mm_multimap ?l)" by (simp add: mmap_count_def)
  obtain it where w: "(if ?n > 1 then timerList_walk ?n (?l\<lparr> mm_iterator := MMap_at 0 \<rparr>)
      else Some (?l\<lparr> mm_iterator := MMap_at 0 \<rparr>)) = Some (?l\<lparr> mm_iterator := it \<rparr>)"
    using timerList_walk_entries [of "?l\<lparr> mm_iterator := MMap_at 0 \<rparr>" 0 ?n] n
    by (cases "?n > 1") auto
  have first: "mmap_get_first ?l = (Some a, ?l\<lparr> mm_iterator := MMap_at 0 \<rparr>)"
      "snd (mmap_get_first (?l\<lparr> mm_iterator := MMap_at 0 \<rparr>)) = ?l\<lparr> mm_iterator := MMap_at 0 \<rparr>"
      "mmap_curr_key (?l\<lparr> mm_iterator := MMap_at 0 \<rparr>) = Some k"
      "mmap_count k (?l\<lparr> mm_iterator := MMap_at 0 \<rparr>) = ?n"
    using assms(2) by (simp_all add: mmap_get_first_def mmap_curr_key_def mmap_count_def)
  have "fst (mmap_remove_first k (?l\<lparr> mm_iterator := it \<rparr>)) = Some a
      \<and> mm_multimap (snd (mmap_remove_first k (?l\<lparr> mm_iterator := it \<rparr>))) = es"
    using lm.remove_first_head [of "?l\<lparr> mm_iterator := it \<rparr>" k a es] assms(2) by simp
  then obtain l where r: "mmap_remove_first k (?l\<lparr> mm_iterator := it \<rparr>) = (Some a, l)" "mm_multimap l = es"
    by (cases "mmap_remove_first k (?l\<lparr> mm_iterator := it \<rparr>)") auto
  have "timerList_pop t = Some (Some a, word_of_int k, t\<lparr> tmr_timerList := l \<rparr>)"
    unfolding timerList_pop_def using first w r key by (cases "?n > 1") (simp_all add: Let_def)
  then show ?thesis using r by blast
qed

lemma timerList_pop_empty: "mm_multimap (tmr_timerList t) = [] \<Longrightarrow> timerList_pop t = None"
  by (simp add: timerList_pop_def mmap_get_first_def mmap_curr_key_def)

lemma getFirst_state:
  "timerList_getFirst now t = Some (time, t1) \<Longrightarrow>
   \<exists>it. t1 = t\<lparr> tmr_timerList := tmr_timerList t\<lparr> mm_iterator := it \<rparr> \<rparr>"
  by (auto simp: timerList_getFirst_def mmap_get_first_def bind_eq_Some_conv split: list.splits)

lemma calculateWait_state:
  assumes "calculateWait now t = Some (x, t1)"
  shows "\<exists>it. t1 = t\<lparr> tmr_timerList := tmr_timerList t\<lparr> mm_iterator := it \<rparr> \<rparr>"
proof -
  obtain time where "timerList_getFirst (now 2) t = Some (time, t1)"
    using assms by (auto simp: calculateWait_def bind_eq_Some_conv split: if_splits)
  then show ?thesis by (rule getFirst_state)
qed

definition arrivals_ok :: "timer_event list \<Rightarrow> bool" where
  "arrivals_ok evs = list_all (\<lambda>ev. tev_cmd ev = TmTimerCmd_Queue \<or> tev_cmd ev = TmTimerCmd_Stop) evs"

lemma timer_arrive_inv:
  assumes "timer_inv t" and "arrivals_ok evs" and "timer_arrive evs t = Some t'"
  shows "timer_inv t'"
  using assms
proof (induction evs arbitrary: t)
  case (Cons ev evs)
  obtain a t1 where p: "timer_post ev t = Some (a, t1)" by (simp add: timer_post_eq)
  have "timer_inv t1"
    using timer_post_inv [OF Cons.prems(1) _ p] Cons.prems(2) by (auto simp: arrivals_ok_def)
  then show ?case using Cons.IH [of t1] Cons.prems p by (simp add: arrivals_ok_def)
qed simp

text \<open>Whatever is popped was held, is alive, and is held no more.\<close>

lemma queue_pop_inv:
  assumes "timer_inv t" and "\<not> deque_empty (tmr_eventQ t)"
    and "deque_pop_end (tmr_eventQ t) = (p, q)"
  shows "\<exists>a. p = Some a \<and> timer_inv (t\<lparr> tmr_eventQ := q \<rparr>)
    \<and> a \<notin> set (timer_held (t\<lparr> tmr_eventQ := q \<rparr>)) \<and> a \<in> set (dq_deque (tmr_eventQ t))"
proof -
  obtain xs x where d: "dq_deque (tmr_eventQ t) = xs @ [x]"
    using assms(2) by (cases "dq_deque (tmr_eventQ t)" rule: rev_cases) (auto simp: deque_empty_def)
  then have p: "p = Some x" and q: "dq_deque q = xs"
    using assms(3) by (auto simp: deque_pop_end_def)
  show ?thesis
    using assms(1) unfolding p by (simp add: timer_inv_def timer_held_def q d)
qed

lemma list_pop_inv:
  assumes "timer_inv t" and "timerList_pop t = Some (p, time, t')"
  shows "\<exists>k a es l. p = Some a \<and> mm_multimap (tmr_timerList t) = (k, a) # es
    \<and> t' = t\<lparr> tmr_timerList := l \<rparr> \<and> mm_multimap l = es \<and> timer_inv t' \<and> a \<notin> set (timer_held t')"
proof -
  obtain e es where es: "mm_multimap (tmr_timerList t) = e # es"
    using assms(2) timerList_pop_empty [of t] by (cases "mm_multimap (tmr_timerList t)") auto
  obtain k a where e: "e = (k, a)" by (cases e)
  obtain l where l: "p = Some a" "t' = t\<lparr> tmr_timerList := l \<rparr>" "mm_multimap l = es"
    using timerList_pop_head [OF assms(1), of k a es] es e assms(2) by auto
  have ev: "event_at t' = event_at t" by (simp add: l)
  have "timer_inv t' \<and> a \<notin> set (timer_held t')"
    using assms(1) unfolding timer_inv_def timer_held_def ev
    by (auto simp: l(2,3) es e mmap_ok_def)
  then show ?thesis using l es e by blast
qed

lemma eventQ_pop_inv:
  assumes "timer_inv t" and "arrivals_ok arr" and "timer_eventQ_pop now arr t = Some (p, t')"
  shows "\<exists>a. p = Some a \<and> timer_inv t' \<and> a \<notin> set (timer_held t') \<and> event_at t' a \<noteq> None"
proof -
  obtain x t1 t2 where w: "calculateWait now t = Some (x, t1)"
    and t2: "(if deque_empty (tmr_eventQ t1) then timer_arrive arr t1 else Some t1) = Some t2"
    and r: "(if \<not> deque_empty (tmr_eventQ t2)
          then let (p, q) = deque_pop_end (tmr_eventQ t2) in Some (p, t2\<lparr> tmr_eventQ := q \<rparr>)
          else do { (p, time, t3) \<leftarrow> timerList_pop t2; Some (p, t3) }) = Some (p, t')"
    using assms(3) by (auto simp: timer_eventQ_pop_def bind_eq_Some_conv)
  have "timer_inv t1" using calculateWait_state [OF w] assms(1) by (auto simp: timer_inv_iterator)
  then have inv2: "timer_inv t2"
    using t2 timer_arrive_inv [OF _ assms(2)] by (auto split: if_splits)
  show ?thesis
  proof (cases "deque_empty (tmr_eventQ t2)")
    case True
    then obtain time where "timerList_pop t2 = Some (p, time, t')"
      using r by (auto simp: bind_eq_Some_conv)
    from list_pop_inv [OF inv2 this] obtain k a es l where l: "p = Some a" "timer_inv t'"
        "mm_multimap (tmr_timerList t2) = (k, a) # es" "t' = t2\<lparr> tmr_timerList := l \<rparr>"
        "a \<notin> set (timer_held t')" by blast
    have "event_at t2 a \<noteq> None" using timer_inv_held [OF inv2, of a] l(3) by (simp add: timer_held_def)
    then show ?thesis using l by simp
  next
    case False
    then obtain q where q: "deque_pop_end (tmr_eventQ t2) = (p, q)" "t' = t2\<lparr> tmr_eventQ := q \<rparr>"
      using r by (auto split: prod.splits)
    obtain a where a: "p = Some a" "timer_inv t'" "a \<notin> set (timer_held t')" "a \<in> set (dq_deque (tmr_eventQ t2))"
      using queue_pop_inv [OF inv2 False q(1)] q(2) by auto
    have "event_at t2 a \<noteq> None" using timer_inv_held [OF inv2, of a] a(4) by (simp add: timer_held_def)
    then show ?thesis using a q(2) by simp
  qed
qed

lemma timerList_add_inv:
  assumes "timer_inv t" and "a \<notin> set (timer_held t)"
    and "cmd_in [TmTimerCmd_Timer, TmTimerCmd_Cancelled] (event_at t a)"
    and "timerList_add now a t = Some t'"
  shows "timer_inv t'"
proof -
  obtain k :: "64 word" where t': "t' = t\<lparr> tmr_timerList := mmap_put (sint k) a (tmr_timerList t) \<rparr>"
    using assms(4) by (auto simp: timerList_add_def bind_eq_Some_conv)
  have ev: "event_at t' = event_at t" by (simp add: t')
  let ?xs = "mm_multimap (tmr_timerList t)"
  have perm: "mset (mm_multimap (tmr_timerList t')) = add_mset (sint k, a) (mset ?xs)"
    unfolding t' by (simp add: mmap_put_entries) (metis mset_append takeWhile_dropWhile_id)
  have "mset (map snd (mm_multimap (tmr_timerList t'))) = mset (a # map snd ?xs)"
    using arg_cong [OF perm, of "image_mset snd"] by simp
  then have "distinct (map snd (mm_multimap (tmr_timerList t'))) = distinct (a # map snd ?xs)"
      "set (map snd (mm_multimap (tmr_timerList t'))) = set (a # map snd ?xs)"
    by (metis mset_eq_imp_distinct_iff, metis mset_eq_setD)
  then have d: "distinct (timer_held t')"
    using assms(1,2) unfolding timer_inv_def timer_held_def by (auto simp: t')
  show ?thesis
    using assms(1,3) d mmap_put_sorted [of "tmr_timerList t" "sint k" a] unfolding timer_inv_def ev
    by (auto simp: t' list_all_iff mmap_put_set)
qed

section \<open>Expiry times\<close>

text \<open>
  The microseconds of an expiry time relative to those of the start time, with the second
  \<^verbatim>\<open>operator-\<close> adds when it borrows.
\<close>

definition phase :: "timeval \<Rightarrow> timeval \<Rightarrow> int" where
  "phase start x =
     (if tv_usec start \<le> tv_usec x then tv_usec x - tv_usec start else 1000000 + tv_usec x - tv_usec start)"

lemma phase_range: "tv_ok start \<Longrightarrow> tv_ok x \<Longrightarrow> 0 \<le> phase start x \<and> phase start x < 1000000"
  by (auto simp: phase_def tv_ok_def)

definition expiry_key :: "timeval \<Rightarrow> timeval \<Rightarrow> int" where
  "expiry_key start x = (tv_sec x - tv_sec start) * 1000 + phase start x div 1000"

lemma tmtime_after_key:
  assumes "tv_ok now" "tv_ok start" "0 \<le> msec" "tv_sec start < tv_sec (tv_plus_msec now msec)"
  shows "tmtime_after start (0, now) msec = Some (word_of_int (expiry_key start (tv_plus_msec now msec)))"
proof -
  let ?e = "tv_plus_msec now msec"
  have "tv_ok ?e" using tv_plus_msec_exact [OF assms(1,3)] by simp
  then have p: "0 \<le> phase start ?e" using phase_range [OF assms(2)] by simp
  have m: "tv_minus ?e start = \<lparr> tv_sec = tv_sec ?e - tv_sec start, tv_usec = phase start ?e \<rparr>"
    using assms(4) by (simp add: tv_minus_def phase_def)
  show ?thesis
    using assms(4) p
    by (simp add: tmtime_after_def tv_now_def m tmtime_assign_def Let_def expiry_key_def sdiv_nonneg)
qed

definition int64_key :: "int \<Rightarrow> bool" where
  "int64_key k = (- (2 ^ 63) \<le> k \<and> k < 2 ^ 63)"

lemma sint_key: "int64_key k \<Longrightarrow> sint (word_of_int k :: 64 word) = k"
  by (simp add: int64_key_def sint_sbintrunc' signed_take_bit_int_eq_self_iff)

lemma key_tv:
  assumes "tv_ok start" "tv_ok x" "tv_sec start \<le> tv_sec x" "int64_key (expiry_key start x)"
  shows "tmtime_get_tv start (word_of_int (expiry_key start x)) =
    tv_plus start \<lparr> tv_sec = tv_sec x - tv_sec start, tv_usec = phase start x div 1000 * 1000 \<rparr>"
proof -
  let ?q = "phase start x div 1000" and ?s = "tv_sec x - tv_sec start"
  have q: "0 \<le> ?q" "?q < 1000" using phase_range [OF assms(1,2)] by auto
  have k: "0 \<le> ?s * 1000 + ?q" using q assms(3) by simp
  have "(?s * 1000 + ?q) sdiv 1000 = ?s" using q sdiv_nonneg [OF k] by simp
  moreover have "(?s * 1000 + ?q) smod 1000 = ?q"
    using trunc_split [of "?s * 1000 + ?q"] calculation by simp
  ultimately show ?thesis
    using sint_key [OF assms(4)] by (simp add: tmtime_get_tv_def msectotimeval_def expiry_key_def)
qed

text \<open>The absolute time of a key is the expiry time, cut to the start time's millisecond grid.\<close>

lemma key_tv_total:
  assumes "tv_ok start" "tv_ok x" "tv_sec start \<le> tv_sec x" "int64_key (expiry_key start x)"
  shows "tv_sec (tmtime_get_tv start (word_of_int (expiry_key start x))) = tv_sec x"
    and "tv_usec (tmtime_get_tv start (word_of_int (expiry_key start x))) =
      tv_usec x - phase start x mod 1000 + (if tv_usec x < phase start x mod 1000 then 1000000 else 0)"
proof -
  have ph: "phase start x div 1000 * 1000 = phase start x - phase start x mod 1000"
    by (simp add: minus_mod_eq_div_mult)
  have r: "0 \<le> phase start x mod 1000" "phase start x mod 1000 < 1000" by simp_all
  have le: "tv_usec start \<le> tv_usec x \<longrightarrow> phase start x mod 1000 \<le> tv_usec x"
    using phase_range [OF assms(1,2)] zmod_le_nonneg_dividend [of "phase start x" 1000] assms(1)
    by (auto simp: phase_def tv_ok_def)
  show "tv_sec (tmtime_get_tv start (word_of_int (expiry_key start x))) = tv_sec x"
    by (simp add: key_tv [OF assms] tv_plus_def)
  show "tv_usec (tmtime_get_tv start (word_of_int (expiry_key start x))) =
      tv_usec x - phase start x mod 1000 + (if tv_usec x < phase start x mod 1000 then 1000000 else 0)"
    using assms(1,2) r le
    by (simp add: key_tv [OF assms] tv_plus_def ph) (auto simp: phase_def tv_ok_def)
qed

section \<open>Properties\<close>

text \<open>
  C35: The expiry time of a timer survives the trip through the list key and back to an
  absolute time up to less than a millisecond: the second \<^verbatim>\<open>operator-\<close> adds too much
  is the second \<^verbatim>\<open>operator+\<close> drops, except for an expiry in the first millisecond of a second,
  which may come out a whole second late.
\<close>

theorem expiry_round_trip:
  assumes "tv_ok now" and "tv_ok start" and "0 \<le> msec"
    and "tv_sec start < tv_sec (tv_plus_msec now msec)"
    and "int64_key (expiry_key start (tv_plus_msec now msec))"
  shows "\<exists>key. tmtime_after start (0, now) msec = Some key
    \<and> tv_total (tmtime_get_tv start key) = tv_total now + msec * 1000
        - phase start (tv_plus_msec now msec) mod 1000
        + (if tv_usec (tv_plus_msec now msec) < phase start (tv_plus_msec now msec) mod 1000
           then 1000000 else 0)"
proof -
  have x: "tv_ok (tv_plus_msec now msec)" "tv_total (tv_plus_msec now msec) = tv_total now + msec * 1000"
    using tv_plus_msec_exact [OF assms(1,3)] by auto
  show ?thesis
    using tmtime_after_key [OF assms(1-4)] key_tv_total [OF assms(2) x(1) _ assms(5)] assms(4) x(2)
    by (auto simp: tv_total_def)
qed

theorem expiry_round_trip_witness:
  "\<exists>key. tmtime_after \<lparr> tv_sec = 100, tv_usec = 500700 \<rparr> (0, \<lparr> tv_sec = 110, tv_usec = 300 \<rparr>) 0 = Some key
     \<and> tv_total (tmtime_get_tv \<lparr> tv_sec = 100, tv_usec = 500700 \<rparr> key) = 110 * 1000000 + 300 - 600 + 1000000"
proof -
  have "tv_ok \<lparr> tv_sec = 110, tv_usec = 300 \<rparr>" "tv_ok \<lparr> tv_sec = 100, tv_usec = 500700 \<rparr>"
      "tv_plus_msec \<lparr> tv_sec = 110, tv_usec = 300 \<rparr> 0 = \<lparr> tv_sec = 110, tv_usec = 300 \<rparr>"
      "int64_key (expiry_key \<lparr> tv_sec = 100, tv_usec = 500700 \<rparr> \<lparr> tv_sec = 110, tv_usec = 300 \<rparr>)"
    by (simp_all add: tv_ok_def tv_plus_msec_def int64_key_def expiry_key_def phase_def)
  then show ?thesis
    using expiry_round_trip [of "\<lparr> tv_sec = 110, tv_usec = 300 \<rparr>" "\<lparr> tv_sec = 100, tv_usec = 500700 \<rparr>" 0]
    by (simp add: tv_total_def phase_def)
qed

text \<open>
  The order of the timer list is not the order of expiry.  Of two timers that expire in
  the same second, at least a millisecond apart modulo that second, one before and one after
  the moment of the second at which the transaction manager was started, the earlier
  one always gets the larger key, so it stays in the list behind the later one.
\<close>

theorem expiry_order_inverted:
  assumes "tv_ok now1" "tv_ok now2" "tv_ok start" "0 \<le> msec1" "0 \<le> msec2"
    and "x1 = tv_plus_msec now1 msec1" "x2 = tv_plus_msec now2 msec2"
    and "tv_sec start < tv_sec x1" "tv_sec x1 = tv_sec x2"
    and "tv_usec x1 < tv_usec start" "tv_usec start \<le> tv_usec x2" "tv_usec x2 - tv_usec x1 \<le> 999000"
    and "int64_key (expiry_key start x1)"
  shows "tv_total x1 < tv_total x2
    \<and> (\<exists>k1 k2. tmtime_after start (0, now1) msec1 = Some k1 \<and> tmtime_after start (0, now2) msec2 = Some k2
         \<and> sint k2 < sint k1)"
proof -
  have "tv_ok x1" "tv_ok x2"
    using tv_plus_msec_exact [OF assms(1,4)] tv_plus_msec_exact [OF assms(2,5)] assms(6,7) by simp_all
  then have r: "0 \<le> phase start x2" "phase start x2 + 1000 \<le> phase start x1"
    using assms(3,10-12) by (simp_all add: phase_def tv_ok_def)
  then have "phase start x2 div 1000 < phase start x1 div 1000" by linarith
  then have lt: "expiry_key start x2 < expiry_key start x1" using assms(9) by (simp add: expiry_key_def)
  moreover have "0 \<le> expiry_key start x2"
    using r(1) assms(8,9) by (simp add: expiry_key_def pos_imp_zdiv_nonneg_iff)
  ultimately have "int64_key (expiry_key start x2)" using assms(13) by (simp add: int64_key_def)
  then have "sint (word_of_int (expiry_key start x2) :: 64 word) < sint (word_of_int (expiry_key start x1) :: 64 word)"
    using lt by (simp add: sint_key assms(13))
  then show ?thesis
    using tmtime_after_key [OF assms(1,3,4)] tmtime_after_key [OF assms(2,3,5)] assms(6-11)
    by (simp add: tv_total_def)
qed

theorem expiry_order_inverted_witness:
  "\<exists>k1 k2. tmtime_after \<lparr> tv_sec = 100, tv_usec = 500000 \<rparr> (0, \<lparr> tv_sec = 110, tv_usec = 0 \<rparr>) 400 = Some k1
     \<and> tmtime_after \<lparr> tv_sec = 100, tv_usec = 500000 \<rparr> (0, \<lparr> tv_sec = 110, tv_usec = 0 \<rparr>) 600 = Some k2
     \<and> sint k2 < sint k1"
  by (rule conjunct2 [OF expiry_order_inverted
      [where start = "\<lparr> tv_sec = 100, tv_usec = 500000 \<rparr>", OF _ _ _ _ _ refl refl]])
    (simp_all add: tv_ok_def tv_plus_msec_def int64_key_def expiry_key_def phase_def)

text \<open>
  With no timer running the thread does not wait for the default time, nor for ever:
  \<^verbatim>\<open>getFirst\<close> answers the current time, which is never 0, and the time left of it is 0 or just below a
  second.  If nothing arrives meanwhile, \<^verbatim>\<open>pop\<close> reads the key of the end of the empty list.
\<close>

theorem empty_timer_wakes:
  assumes "mm_multimap (tmr_timerList t) = []" and "dq_deque (tmr_eventQ t) = []"
    and "tv_ok now" and "tv_ok (tmr_start t)" and "tv_sec (tmr_start t) < tv_sec now"
    and "int64_key (expiry_key (tmr_start t) now)"
  shows "map_option fst (calculateWait (\<lambda>_. (0, now)) t) =
      Some (True, \<lparr> tv_sec = 0, tv_usec = (if phase (tmr_start t) now mod 1000 = 0 then 0
                                               else 1000000 - phase (tmr_start t) now mod 1000) \<rparr>)
    \<and> timer_eventQ_pop (\<lambda>_. (0, now)) [] t = None"
proof -
  let ?k = "expiry_key (tmr_start t) now" and ?r = "phase (tmr_start t) now mod 1000"
  have n: "tv_plus_msec now 0 = now" using assms(3) by (simp add: tv_plus_msec_def tv_ok_def)
  have first: "tmtime_after (tmr_start t) (0, now) 0 = Some (word_of_int ?k)"
    using tmtime_after_key [of now "tmr_start t" 0] assms(3-5) n by simp
  have "0 < ?k"
    using phase_range [OF assms(4,3)] assms(5) by (simp add: expiry_key_def add_pos_nonneg pos_imp_zdiv_nonneg_iff)
  moreover have "sint (word_of_int ?k :: 64 word) = ?k" by (rule sint_key [OF assms(6)])
  ultimately have nz: "(word_of_int ?k :: 64 word) \<noteq> 0" by auto
  have r: "0 \<le> ?r" "?r < 1000" by simp_all
  have left: "tmtime_left_tv (tmr_start t) (0, now) (word_of_int ?k) =
      Some \<lparr> tv_sec = 0, tv_usec = (if ?r = 0 then 0 else 1000000 - ?r) \<rparr>"
    using key_tv_total [OF assms(4,3) _ assms(6)] assms(3,5) r
    by (auto simp: tmtime_left_tv_def tv_now_def tv_minus_def tv_ok_def)
  have wait: "\<exists>it. calculateWait (\<lambda>_. (0, now)) t =
      Some ((True, \<lparr> tv_sec = 0, tv_usec = (if ?r = 0 then 0 else 1000000 - ?r) \<rparr>),
            t\<lparr> tmr_timerList := tmr_timerList t\<lparr> mm_iterator := it \<rparr> \<rparr>)"
    using first nz left assms(1)
    by (simp add: calculateWait_def timerList_getFirst_def tmtime_now_def tv_now_def mmap_get_first_def) blast
  have "timerList_pop (t\<lparr> tmr_timerList := tmr_timerList t\<lparr> mm_iterator := it \<rparr> \<rparr>) = None" for it
    using assms(1) by (simp add: timerList_pop_empty)
  then show ?thesis
    using wait assms(2) by (auto simp: timer_eventQ_pop_def tmtime_now_def tv_now_def deque_empty_def)
qed

theorem empty_timer_wakes_witness:
  "map_option fst (calculateWait (\<lambda>_. (0, \<lparr> tv_sec = 110, tv_usec = 300 \<rparr>))
     (timer_new \<lparr> tv_sec = 100, tv_usec = 200 \<rparr> 60000)) = Some (True, \<lparr> tv_sec = 0, tv_usec = 999900 \<rparr>)"
proof -
  let ?t = "timer_new \<lparr> tv_sec = 100, tv_usec = 200 \<rparr> 60000"
  have f: "tmr_start ?t = \<lparr> tv_sec = 100, tv_usec = 200 \<rparr>" "mm_multimap (tmr_timerList ?t) = []"
      "dq_deque (tmr_eventQ ?t) = []"
    by (simp_all add: timer_new_def set_defaultWaitTime_def mmap_new_def deque_new_def)
  show ?thesis
    using empty_timer_wakes [of ?t "\<lparr> tv_sec = 110, tv_usec = 300 \<rparr>"] f
    by (simp add: tv_ok_def int64_key_def expiry_key_def phase_def)
qed

end
