(* ===== verification/Tm_TimerMain.thy ===== *)
theory Tm_TimerMain
  imports Tm_Timer
begin

text \<open>
  The timer thread (\<^verbatim>\<open>tmtimermain.cpp\<close>) and the administrative requests it runs for the
  transaction manager (\<^verbatim>\<open>tminfo.cpp\<close>): enabling and disabling transactions, the wait for
  the transactions to drain in the first phase of a shutdown, control points, the retries
  of resource manager opens and TM restarts, and the waits of recovery.  One iteration of
  the thread's loop is one step.  What a handler asks of the rest of the system is
  appended to a list of actions.
\<close>

section \<open>State and environment\<close>

datatype TM_STATE =
    TM_STATE_INITIAL | TM_STATE_UP | TM_STATE_DOWN | TM_STATE_SHUTTING_DOWN
  | TM_STATE_SHUTDOWN_FAILED | TM_STATE_SHUTDOWN_COMPLETED | TM_STATE_TX_DISABLED
  | TM_STATE_TX_DISABLED_SHUTDOWN_PHASE1 | TM_STATE_QUIESCE | TM_STATE_DRAIN
  | TM_STATE_WAITING_RM_OPEN

datatype main_action =
    Initiate_cp | Write_all_trans_state | Reset_system_tx_count | Send_tx_perf_stats
  | CheckFailed_RMs | Recover_tm int | AttachRm | Init_and_recover_rms | Recover_system
  | QueueTxnObjects int | Resolve_in_doubt_txs int int | Update_registry_txs_to_recover int
  | CompleteRecovery | Abort_all_active_txns | SendAllTMs | Set_txnsvc_ready int
  | Mon_shutdown_abrupt | Main_reply int int
  | QueueToTransaction nat timer_request | Thread_push nat nat | Bad_event timer_request

abbreviation (input) TXNSVC_DOWN :: int where "TXNSVC_DOWN \<equiv> 0"
abbreviation (input) TXNSVC_UP :: int where "TXNSVC_UP \<equiv> 1"
abbreviation (input) TXNSVC_SHUTDOWN :: int where "TXNSVC_SHUTDOWN \<equiv> 2"

abbreviation (input) TM_DISABLE_SHUTDOWN_NORMAL :: int where "TM_DISABLE_SHUTDOWN_NORMAL \<equiv> 1"
abbreviation (input) TM_DISABLE_SHUTDOWN_IMMEDIATE :: int where "TM_DISABLE_SHUTDOWN_IMMEDIATE \<equiv> 2"

abbreviation (input) FEBADSTATE :: int where "FEBADSTATE \<equiv> 161"
abbreviation (input) FEINVALIDSTATE :: int where "FEINVALIDSTATE \<equiv> 160"
abbreviation (input) FEINVALOP :: int where "FEINVALOP \<equiv> 2"
abbreviation (input) FERETRY :: int where "FERETRY \<equiv> 755"
abbreviation (input) FEDEVDOWN :: int where "FEDEVDOWN \<equiv> 66"

text \<open>
  The part of \<^verbatim>\<open>gv_tm_info\<close> the timer thread works on.  \<open>tmm_p1_first\<close> is the function-local
  \<^verbatim>\<open>static bool lv_first\<close> of \<^verbatim>\<open>ShutdownPhase1Wait\<close>; \<open>tmm_cluster_recov\<close> says that \<^verbatim>\<open>ClusterRecov()\<close> is
  not NULL; \<open>tmm_TMUP_wait_list\<close> holds the message ids of the waiters.
\<close>

record tm_main =
  tmm_timer :: tm_timer
  tmm_state :: TM_STATE
  tmm_lead_tm :: bool
  tmm_all_rms_closed :: bool
  tmm_sys_recov_end :: bool
  tmm_TMUP_wait_list :: "int tm_deque"
  tmm_cluster_recov :: bool
  tmm_p1_first :: bool
  tmm_acts :: "main_action list"

text \<open>
  What one step reads from outside: the clock, the events other threads post while it
  waits, configuration and counters, the result of \<^verbatim>\<open>sendAllTMs\<close>, whether \<^verbatim>\<open>recover_tm\<close> has to
  be retried, and the events the called functions post.
\<close>

record timer_env =
  te_now :: "nat \<Rightarrow> int \<times> timeval"
  te_arrivals :: "timer_event list"
  te_use_tlog :: bool
  te_num_rm_failed :: int
  te_inUse :: int
  te_clusterQueued :: int
  te_nodeQueued :: "int \<Rightarrow> int"
  te_maxPoolSize :: int
  te_maxRecoveringTxns :: int
  te_num_active_txs :: int
  te_sendAllTMs :: int
  te_recover_retry :: bool
  te_TMRestartRetry_interval :: int
  te_posts :: "main_action \<Rightarrow> timer_event list"

definition main_act :: "main_action \<Rightarrow> tm_main \<Rightarrow> tm_main" where
  "main_act a m = m\<lparr> tmm_acts := tmm_acts m @ [a] \<rparr>"

definition with_timer :: "(tm_timer \<Rightarrow> tm_timer option) \<Rightarrow> tm_main \<Rightarrow> tm_main option" where
  "with_timer f m = map_option (\<lambda>t. m\<lparr> tmm_timer := t \<rparr>) (f (tmm_timer m))"

definition main_call :: "timer_env \<Rightarrow> main_action \<Rightarrow> tm_main \<Rightarrow> tm_main option" where
  "main_call e a m = with_timer (timer_arrive (te_posts e a)) (main_act a m)"

section \<open>The state of the transaction manager\<close>

text \<open>The loop of \<^verbatim>\<open>wake_TMUP_waiters\<close> pops from the front until the list is empty.\<close>

primrec wake_TMUP_loop :: "nat \<Rightarrow> int \<Rightarrow> tm_main \<Rightarrow> tm_main" where
  "wake_TMUP_loop 0 err m = m"
| "wake_TMUP_loop (Suc n) err m =
     (case deque_pop (tmm_TMUP_wait_list m) of
        (None, q) \<Rightarrow> m\<lparr> tmm_TMUP_wait_list := q \<rparr>
      | (Some msgid, q) \<Rightarrow>
          wake_TMUP_loop n err (main_act (Main_reply msgid err) (m\<lparr> tmm_TMUP_wait_list := q \<rparr>)))"

definition wake_TMUP_waiters :: "int \<Rightarrow> tm_main \<Rightarrow> tm_main" where
  "wake_TMUP_waiters err m = wake_TMUP_loop (Suc (length (dq_deque (tmm_TMUP_wait_list m)))) err m"

definition tm_up :: "tm_main \<Rightarrow> tm_main" where
  "tm_up m =
     (let m1 = m\<lparr> tmm_state := (if tmm_all_rms_closed m then TM_STATE_WAITING_RM_OPEN else TM_STATE_UP) \<rparr>
      in if tmm_sys_recov_end m1 then wake_TMUP_waiters 0 m1 else m1)"

definition enableTrans :: "timer_env \<Rightarrow> int \<Rightarrow> tm_main \<Rightarrow> int \<times> tm_main" where
  "enableTrans e msgid m =
     (if tmm_state m \<noteq> TM_STATE_TX_DISABLED then (FEDEVDOWN, m)
      else if tmm_lead_tm m then
        (let m1 = main_act SendAllTMs m
         in if te_sendAllTMs e = 0
            then (0, main_act (Set_txnsvc_ready TXNSVC_UP) (tm_up m1))
            else (te_sendAllTMs e, m1))
      else (0, tm_up (main_act (Main_reply msgid 0) m)))"

text \<open>The second component says that the message was deleted inside.\<close>

definition disableTrans :: "timer_env \<Rightarrow> int \<Rightarrow> int \<Rightarrow> tm_main \<Rightarrow> (int \<times> bool \<times> tm_main) option" where
  "disableTrans e level msgid m =
     (if tmm_state m \<in> {TM_STATE_DOWN, TM_STATE_WAITING_RM_OPEN, TM_STATE_SHUTTING_DOWN,
          TM_STATE_SHUTDOWN_FAILED, TM_STATE_SHUTDOWN_COMPLETED, TM_STATE_QUIESCE}
      then Some (FEBADSTATE, False, m)
      else if level = TM_DISABLE_SHUTDOWN_NORMAL \<or> level = TM_DISABLE_SHUTDOWN_IMMEDIATE
      then do {
        m1 \<leftarrow> with_timer (addShutdownPhase1WaitEvent level msgid)
                 (m\<lparr> tmm_state := TM_STATE_TX_DISABLED_SHUTDOWN_PHASE1 \<rparr>);
        Some (0, \<not> tmm_lead_tm m1, m1) }
      else if tmm_state m = TM_STATE_TX_DISABLED_SHUTDOWN_PHASE1
      then Some (FEINVALIDSTATE, False, m)
      else let m1 = m\<lparr> tmm_state := TM_STATE_TX_DISABLED \<rparr>
           in if tmm_lead_tm m1
              then let m2 = main_act SendAllTMs m1
                   in if te_sendAllTMs e = 0
                      then Some (0, False, main_act (Set_txnsvc_ready TXNSVC_DOWN) m2)
                      else Some (te_sendAllTMs e, False, m2)
              else Some (0, False, m1))"

definition ShutdownPhase1Wait :: "timer_env \<Rightarrow> int \<Rightarrow> int \<Rightarrow> tm_main \<Rightarrow> tm_main option" where
  "ShutdownPhase1Wait e level msgid m =
     (let (err, m1) =
        (if tmm_p1_first m then
           (let m0 = m\<lparr> tmm_p1_first := False \<rparr>;
                m0' = (if level = TM_DISABLE_SHUTDOWN_IMMEDIATE then main_act Abort_all_active_txns m0 else m0)
            in if tmm_lead_tm m0' then (te_sendAllTMs e, main_act SendAllTMs m0') else (0, m0'))
         else (0, m))
      in if err \<noteq> 0
         then Some (if tmm_lead_tm m1 then main_act Mon_shutdown_abrupt m1 else main_act (Main_reply msgid err) m1)
         else if te_inUse e \<noteq> 0 then Some m1
         else with_timer cancelShutdownPhase1WaitEvent
                (if tmm_lead_tm m1 then main_act (Set_txnsvc_ready TXNSVC_SHUTDOWN) m1
                 else main_act (Main_reply msgid 0) m1))"

text \<open>
  The requests as the main thread takes them (\<^verbatim>\<open>tm.cpp\<close>): they run in the background, under
  the timer thread.  \<open>all_recovered\<close> is \<^verbatim>\<open>all_tms_recovered()\<close>.
\<close>

definition tm_process_req_attachrm :: "int \<Rightarrow> tm_main \<Rightarrow> tm_main option" where
  "tm_process_req_attachrm msgid m =
     do { m1 \<leftarrow> with_timer (\<lambda>t. map_option snd (info_addTimerEvent TIMER_ATTACHRM msgid 0 t)) m;
          Some (main_act (Main_reply msgid 0) m1) }"

definition tm_process_req_enabletrans :: "int \<Rightarrow> tm_main \<Rightarrow> tm_main option" where
  "tm_process_req_enabletrans msgid m =
     (if \<not> tmm_lead_tm m then Some (main_act (Main_reply msgid FEDEVDOWN) m)
      else if tmm_state m = TM_STATE_QUIESCE \<or> tmm_state m = TM_STATE_DRAIN
      then Some (main_act (Main_reply msgid FEINVALOP) m)
      else do { m1 \<leftarrow> with_timer (\<lambda>t. map_option snd (info_addTimerEvent TIMER_ENABLETRANS msgid 0 t)) m;
                Some (main_act (Main_reply msgid 0) m1) })"

definition tm_process_req_disabletrans :: "bool \<Rightarrow> int \<Rightarrow> int \<Rightarrow> tm_main \<Rightarrow> tm_main option" where
  "tm_process_req_disabletrans all_recovered level msgid m =
     (if \<not> tmm_lead_tm m then Some (main_act (Main_reply msgid FEDEVDOWN) m)
      else if tmm_state m = TM_STATE_UP \<or> tmm_state m = TM_STATE_TX_DISABLED
           \<or> (tmm_state m = TM_STATE_TX_DISABLED_SHUTDOWN_PHASE1 \<and> level = TM_DISABLE_SHUTDOWN_IMMEDIATE)
           \<or> tmm_state m = TM_STATE_DRAIN
      then (if level \<noteq> TM_DISABLE_SHUTDOWN_NORMAL \<or> all_recovered
            then do { m1 \<leftarrow> with_timer (\<lambda>t. map_option snd (info_addTimerEvent (TIMER_DISABLETRANS level) msgid 0 t)) m;
                      Some (main_act (Main_reply msgid 0) m1) }
            else Some (main_act (Main_reply msgid FERETRY) m))
      else Some (main_act (Main_reply msgid FEINVALOP) m))"

section \<open>Handlers of the timer thread\<close>

definition tmTimer_initiate_cp :: "timer_env \<Rightarrow> tm_main \<Rightarrow> tm_main" where
  "tmTimer_initiate_cp e m =
     (if tmm_state m \<notin> {TM_STATE_UP, TM_STATE_TX_DISABLED, TM_STATE_QUIESCE, TM_STATE_DRAIN} then m
      else if te_use_tlog e
      then main_act Reset_system_tx_count (main_act Write_all_trans_state (main_act Initiate_cp m))
      else m)"

definition tmTimer_stats :: "tm_main \<Rightarrow> tm_main" where
  "tmTimer_stats m = main_act Send_tx_perf_stats m"

definition tmTimer_RMRetry :: "timer_env \<Rightarrow> tm_main \<Rightarrow> tm_main option" where
  "tmTimer_RMRetry e m =
     (if tmm_state m \<notin> {TM_STATE_UP, TM_STATE_TX_DISABLED, TM_STATE_DRAIN} then Some m
      else if te_num_rm_failed e > 0 then main_call e CheckFailed_RMs m
      else Some m)"

definition tmTimer_RecoveryWait :: "timer_env \<Rightarrow> int \<Rightarrow> tm_main \<Rightarrow> tm_main option" where
  "tmTimer_RecoveryWait e nid m =
     (if nid = - 1 then
        (if \<not> tmm_cluster_recov m then None
         else if te_inUse e + te_clusterQueued e > 0 then
           (if min (te_maxPoolSize e) (te_maxRecoveringTxns e) - te_inUse e > 0
            then do { m1 \<leftarrow> main_call e (QueueTxnObjects (- 1)) m;
                      main_call e (Resolve_in_doubt_txs (- 1) 0) m1 }
            else with_timer (addTMRecoveryWait nid 1000) m)
         else Some ((main_act CompleteRecovery m)\<lparr> tmm_cluster_recov := False \<rparr>))
      else if te_nodeQueued e nid > 0 then
        (if te_maxPoolSize e - te_num_active_txs e \<noteq> 0
         then do { m1 \<leftarrow> main_call e (QueueTxnObjects nid) m;
                   main_call e (Resolve_in_doubt_txs nid 1000) m1 }
         else with_timer (addTMRecoveryWait nid 1000) m)
      else Some (main_act (Update_registry_txs_to_recover nid) m))"

definition tmTimer_initializeRMs :: "timer_env \<Rightarrow> tm_main \<Rightarrow> tm_main option" where
  "tmTimer_initializeRMs e m = main_call e Init_and_recover_rms m"

definition tmTimer_recoverSystem :: "timer_env \<Rightarrow> tm_main \<Rightarrow> tm_main option" where
  "tmTimer_recoverSystem e m =
     (if \<not> tmm_cluster_recov m then None else main_call e Recover_system m)"

text \<open>\<^verbatim>\<open>recover_tm\<close> asks for a retry through \<^verbatim>\<open>addTMRestartRetry(nid, -1)\<close>.\<close>

definition tmTimer_TMRestartRetry :: "timer_env \<Rightarrow> int \<Rightarrow> tm_main \<Rightarrow> tm_main option" where
  "tmTimer_TMRestartRetry e nid m =
     (if tmm_state m \<notin> {TM_STATE_UP, TM_STATE_TX_DISABLED, TM_STATE_DRAIN} then Some m
      else do {
        m1 \<leftarrow> main_call e (Recover_tm nid) m;
        if te_recover_retry e then with_timer (addTMRestartRetry (te_TMRestartRetry_interval e) nid (- 1)) m1
        else Some m1 })"

definition restart_popped :: "timer_env \<Rightarrow> nat \<Rightarrow> int \<Rightarrow> tm_main \<Rightarrow> tm_main option" where
  "restart_popped e a nid m =
     (if tmr_restart (tmm_timer m) nid = Some a
      then tmTimer_TMRestartRetry e nid
             (m\<lparr> tmm_timer := (tmm_timer m)\<lparr> tmr_restart := (tmr_restart (tmm_timer m))(nid := None) \<rparr> \<rparr>)
      else Some m)"

text \<open>The default case of the switch: notify the transaction or the thread of the event.\<close>

definition notify_popped :: "nat \<Rightarrow> timer_event \<Rightarrow> tm_main \<Rightarrow> bool \<times> tm_main" where
  "notify_popped a ev m =
     (case tev_transaction ev of
        Some tx \<Rightarrow> (True, main_act (QueueToTransaction tx (tev_requestType ev)) m)
      | None \<Rightarrow>
          (case tev_thread ev of
             Some th \<Rightarrow> (False, main_act (Thread_push th a) m)
           | None \<Rightarrow> (True, main_act (Bad_event (tev_requestType ev)) m)))"

text \<open>The switch on the request type; the result says whether the event is to be deleted.\<close>

definition timer_popped :: "timer_env \<Rightarrow> nat \<Rightarrow> timer_event \<Rightarrow> tm_main \<Rightarrow> (bool \<times> tm_main) option" where
  "timer_popped e a ev m =
     (case tev_requestType ev of
        TIMER_CONTROLPOINT \<Rightarrow> Some (False, tmTimer_initiate_cp e m)
      | TIMER_STATS \<Rightarrow> Some (False, tmTimer_stats m)
      | TIMER_RMRETRY \<Rightarrow> map_option (Pair False) (tmTimer_RMRetry e m)
      | TIMER_TMRESTART_RETRY nid \<Rightarrow> map_option (Pair True) (restart_popped e a nid m)
      | TIMER_SHUTDOWNP1_WAIT level \<Rightarrow> map_option (Pair False) (ShutdownPhase1Wait e level (tev_msgid ev) m)
      | TIMER_ATTACHRM \<Rightarrow> map_option (Pair True) (main_call e AttachRm m)
      | TIMER_ENABLETRANS \<Rightarrow> Some (True, snd (enableTrans e NULL_MSGID m))
      | TIMER_DISABLETRANS level \<Rightarrow> do {
          (_, freed, m1) \<leftarrow> disableTrans e level NULL_MSGID m;
          if freed then None else Some (True, m1) }
      | TIMER_RECOVERY_WAIT nid \<Rightarrow> map_option (Pair True) (tmTimer_RecoveryWait e nid m)
      | TIMER_INITIALIZE_RMS \<Rightarrow> map_option (Pair True) (tmTimer_initializeRMs e m)
      | TIMER_SYSTEM_RECOVERY \<Rightarrow> map_option (Pair True) (tmTimer_recoverSystem e m)
      | _ \<Rightarrow> Some (notify_popped a ev m))"

section \<open>The loop of the timer thread\<close>

definition set_main_event :: "nat \<Rightarrow> timer_event option \<Rightarrow> tm_main \<Rightarrow> tm_main" where
  "set_main_event a p m = m\<lparr> tmm_timer := set_event a p (tmm_timer m) \<rparr>"

text \<open>A repeating timer goes back to the list, unless it is to be deleted.\<close>

definition timer_rearm :: "timer_env \<Rightarrow> nat \<Rightarrow> bool \<Rightarrow> tm_main \<Rightarrow> tm_main option" where
  "timer_rearm e a del m =
     do { ev \<leftarrow> event_at (tmm_timer m) a;
          if tev_wakeupRepeat ev \<noteq> 0 \<and> \<not> del
          then with_timer (timerList_add (te_now e 4) a) (set_main_event a (Some (dec_wakeupRepeat ev)) m)
          else Some m }"

text \<open>The switch on the command of a popped event; the first component is \<^verbatim>\<open>lv_exit\<close>.\<close>

definition timer_command :: "timer_env \<Rightarrow> nat \<Rightarrow> timer_event \<Rightarrow> tm_main \<Rightarrow> (bool \<times> tm_main) option" where
  "timer_command e a ev m =
     (case tev_cmd ev of
        TmTimerCmd_Queue \<Rightarrow>
          map_option (Pair False)
            (with_timer (timerList_add (te_now e 4) a)
               (set_main_event a (Some (ev\<lparr> tev_cmd := TmTimerCmd_Timer \<rparr>)) m))
      | TmTimerCmd_Timer \<Rightarrow> do {
          (del, m1) \<leftarrow> timer_popped e a ev m;
          m2 \<leftarrow> timer_rearm e a del m1;
          Some (False, if del then set_main_event a None m2 else m2) }
      | TmTimerCmd_Stop \<Rightarrow>
          Some (True, set_main_event a None (m\<lparr> tmm_timer := (tmm_timer m)\<lparr> tmr_state := TmTimer_Down \<rparr> \<rparr>))
      | TmTimerCmd_Cancelled \<Rightarrow> Some (False, set_main_event a None m))"

definition timer_step :: "timer_env \<Rightarrow> tm_main \<Rightarrow> (bool \<times> tm_main) option" where
  "timer_step e m =
     do { (p, t) \<leftarrow> timer_eventQ_pop (te_now e) (te_arrivals e) (tmm_timer m);
          case p of
            None \<Rightarrow> Some (False, m\<lparr> tmm_timer := t \<rparr>)
          | Some a \<Rightarrow> do { ev \<leftarrow> event_at t a; timer_command e a ev (m\<lparr> tmm_timer := t \<rparr>) } }"

text \<open>\<^verbatim>\<open>timerThread_main\<close>: the loop ends with a stop request.\<close>

primrec timerThread_main :: "timer_env list \<Rightarrow> tm_main \<Rightarrow> (bool \<times> tm_main) option" where
  "timerThread_main [] m = Some (False, m)"
| "timerThread_main (e # es) m =
     do { (exit, m1) \<leftarrow> timer_step e m;
          if exit then Some (True, m1) else timerThread_main es m1 }"

section \<open>Ownership along a step\<close>

text \<open>
  What every handler does to the timer: the events held stay sound, and an event that is
  alive and not held stays so, at most cancelled.
\<close>

definition cancelled :: "timer_event \<Rightarrow> timer_event" where
  "cancelled ev = ev\<lparr> tev_cmd := TmTimerCmd_Cancelled \<rparr>"

definition kept_event :: "tm_timer \<Rightarrow> tm_timer \<Rightarrow> nat \<Rightarrow> bool" where
  "kept_event t t' a =
     (a \<notin> set (timer_held t') \<and> (event_at t' a = event_at t a \<or> event_at t' a = map_option cancelled (event_at t a)))"

definition timer_grows :: "tm_timer \<Rightarrow> tm_timer \<Rightarrow> bool" where
  "timer_grows t t' =
     (timer_inv t \<longrightarrow> timer_inv t' \<and>
      (\<forall>a. a \<notin> set (timer_held t) \<longrightarrow> event_at t a \<noteq> None \<longrightarrow> kept_event t t' a))"

lemma cancelled_idem [simp]: "cancelled (cancelled ev) = cancelled ev"
  by (simp add: cancelled_def)

lemma grows_refl [simp]: "timer_grows t t"
  by (simp add: timer_grows_def kept_event_def)

lemma grows_trans:
  assumes "timer_grows t t1" and "timer_grows t1 t2"
  shows "timer_grows t t2"
  unfolding timer_grows_def
proof (intro impI conjI allI)
  assume inv: "timer_inv t"
  have inv1: "timer_inv t1" using assms(1) inv by (simp add: timer_grows_def)
  show "timer_inv t2" using assms(2) inv1 by (simp add: timer_grows_def)
  fix a assume a: "a \<notin> set (timer_held t)" "event_at t a \<noteq> None"
  have k1: "kept_event t t1 a" using assms(1) inv a by (simp add: timer_grows_def)
  then have "a \<notin> set (timer_held t1)" "event_at t1 a \<noteq> None" using a(2) by (auto simp: kept_event_def)
  then have "kept_event t1 t2 a" using assms(2) inv1 by (simp add: timer_grows_def)
  then show "kept_event t t2 a"
    using k1 by (auto simp: kept_event_def option.map_comp comp_def)
qed

lemma grows_same_events:
  assumes "tmr_eventQ t' = tmr_eventQ t" "tmr_timerList t' = tmr_timerList t" "tmr_heap t' = tmr_heap t"
  shows "timer_grows t t'"
  using assms timer_inv_fields [OF assms]
  by (simp add: timer_grows_def kept_event_def timer_held_def event_at_def)

lemma post_grows:
  assumes "timer_post ev t = Some (a, t')" and "tev_cmd ev \<in> {TmTimerCmd_Queue, TmTimerCmd_Stop}"
  shows "timer_grows t t'"
proof -
  have t': "t' = t\<lparr> tmr_heap := tmr_heap t @ [Some ev],
              tmr_eventQ := deque_push (length (tmr_heap t)) (tmr_eventQ t) \<rparr>"
    using assms(1) by (auto simp: timer_post_eq)
  have "b \<notin> set (timer_held t') \<and> event_at t' b = event_at t b"
    if "b \<notin> set (timer_held t)" "event_at t b \<noteq> None" for b
    using that event_at_fresh [OF that(2)]
    by (simp add: t' timer_held_def deque_push_def event_at_def nth_append)
  then show ?thesis
    using timer_post_inv [OF _ assms(2,1)] by (simp add: timer_grows_def kept_event_def)
qed

lemma arrive_grows:
  "timer_arrive evs t = Some t' \<Longrightarrow> arrivals_ok evs \<Longrightarrow> timer_grows t t'"
proof (induction evs arbitrary: t)
  case (Cons ev evs)
  obtain a t1 where p: "timer_post ev t = Some (a, t1)" by (simp add: timer_post_eq)
  have "timer_grows t t1" using post_grows [OF p] Cons.prems(2) by (auto simp: arrivals_ok_def)
  moreover have "timer_grows t1 t'" using Cons.IH [of t1] Cons.prems p by (simp add: arrivals_ok_def)
  ultimately show ?case by (rule grows_trans)
qed simp

lemma cancelEvent_grows: "cancelEvent a t = Some t' \<Longrightarrow> timer_grows t t'"
  using cancelEvent_inv [of t a t']
  by (auto simp: timer_grows_def kept_event_def cancelEvent_def cancelled_def timer_held_def
      split: option.splits)

lemma cancel_if_set_grows: "cancel_if_set p t = Some t' \<Longrightarrow> timer_grows t t'"
  by (auto simp: cancel_if_set_def split: option.splits intro: cancelEvent_grows)

lemma pointer_grows [simp]:
  "timer_grows t (t'\<lparr> tmr_restart := r \<rparr>) = timer_grows t t'"
  "timer_grows t (t'\<lparr> tmr_ShutdownP1_event := p \<rparr>) = timer_grows t t'"
  "timer_grows t (t'\<lparr> tmr_state := st \<rparr>) = timer_grows t t'"
  by (simp_all add: timer_grows_def kept_event_def timer_held_def timer_inv_def)

lemma cancelShutdownPhase1_grows: "cancelShutdownPhase1WaitEvent t = Some t' \<Longrightarrow> timer_grows t t'"
  by (auto simp: cancelShutdownPhase1WaitEvent_def bind_eq_Some_conv intro: cancel_if_set_grows)

lemma addShutdownPhase1_grows:
  assumes "addShutdownPhase1WaitEvent level msgid t = Some t'"
  shows "timer_grows t t'"
proof -
  obtain t1 a t2 where 1: "cancelShutdownPhase1WaitEvent t = Some t1"
    and 2: "timer_post (event_of_msg (TIMER_SHUTDOWNP1_WAIT level) msgid TM_SHUTDOWNP1WAIT_DEFAULT (- 1)) t1 = Some (a, t2)"
    and t': "t' = t2\<lparr> tmr_ShutdownP1_event := Some a \<rparr>"
    using assms by (auto simp: addShutdownPhase1WaitEvent_def bind_eq_Some_conv)
  have "timer_grows t1 t2" by (rule post_grows [OF 2]) (simp add: event_of_msg_def)
  with cancelShutdownPhase1_grows [OF 1] show ?thesis unfolding t' by (simp add: grows_trans)
qed

lemma addTMRecoveryWait_grows: "addTMRecoveryWait nid d t = Some t' \<Longrightarrow> timer_grows t t'"
  by (auto simp: addTMRecoveryWait_def bind_eq_Some_conv event_of_type_def intro: post_grows)

lemma addTMRestartRetry_grows:
  assumes "addTMRestartRetry i nid d t = Some t'"
  shows "timer_grows t t'"
proof -
  obtain w a t1 where 1: "timer_post (event_of_type (TIMER_TMRESTART_RETRY nid) w 0) t = Some (a, t1)"
    and t': "t' = t1\<lparr> tmr_restart := (tmr_restart t1)(nid := Some a) \<rparr>"
    using assms by (auto simp: addTMRestartRetry_def bind_eq_Some_conv split: if_splits)
  show ?thesis unfolding t' using post_grows [OF 1] by (simp add: event_of_type_def)
qed

subsection \<open>Handlers\<close>

definition env_ok :: "timer_env \<Rightarrow> bool" where
  "env_ok e = (arrivals_ok (te_arrivals e) \<and> (\<forall>a. arrivals_ok (te_posts e a)))"

lemma main_act_timer [simp]: "tmm_timer (main_act a m) = tmm_timer m"
  by (simp add: main_act_def)

lemma with_timer_grows:
  assumes "with_timer f m = Some m'" and "\<And>t t'. f t = Some t' \<Longrightarrow> timer_grows t t'"
  shows "timer_grows (tmm_timer m) (tmm_timer m')"
  using assms by (auto simp: with_timer_def)

lemma with_ops_grow:
  "with_timer (addShutdownPhase1WaitEvent level msgid) m = Some m' \<Longrightarrow> timer_grows (tmm_timer m) (tmm_timer m')"
  "with_timer cancelShutdownPhase1WaitEvent m = Some m' \<Longrightarrow> timer_grows (tmm_timer m) (tmm_timer m')"
  "with_timer (addTMRecoveryWait nid d) m = Some m' \<Longrightarrow> timer_grows (tmm_timer m) (tmm_timer m')"
  "with_timer (addTMRestartRetry i nid d) m = Some m' \<Longrightarrow> timer_grows (tmm_timer m) (tmm_timer m')"
  by (erule with_timer_grows, erule addShutdownPhase1_grows cancelShutdownPhase1_grows
      addTMRecoveryWait_grows addTMRestartRetry_grows)+

lemma main_call_grows:
  assumes "main_call e a m = Some m'" and "env_ok e"
  shows "timer_grows (tmm_timer m) (tmm_timer m')"
  using with_timer_grows [OF assms(1) [unfolded main_call_def]] arrive_grows assms(2)
  by (auto simp: env_ok_def)

lemma wake_TMUP_timer [simp]: "tmm_timer (wake_TMUP_waiters err m) = tmm_timer m"
proof -
  have "tmm_timer (wake_TMUP_loop n err m) = tmm_timer m" for n
    by (induction n arbitrary: m) (simp_all split: prod.splits option.splits)
  then show ?thesis unfolding wake_TMUP_waiters_def by blast
qed

lemma enableTrans_timer [simp]: "tmm_timer (snd (enableTrans e msgid m)) = tmm_timer m"
  by (simp add: enableTrans_def tm_up_def Let_def)

lemma disableTrans_grows:
  "disableTrans e level msgid m = Some (err, freed, m') \<Longrightarrow> timer_grows (tmm_timer m) (tmm_timer m')"
  by (auto simp: disableTrans_def bind_eq_Some_conv Let_def split: if_splits
      dest!: with_ops_grow(1))

lemma ShutdownPhase1Wait_grows:
  "ShutdownPhase1Wait e level msgid m = Some m' \<Longrightarrow> timer_grows (tmm_timer m) (tmm_timer m')"
  by (auto simp: ShutdownPhase1Wait_def Let_def split: if_splits
      dest!: with_ops_grow(2))

lemma RMRetry_grows:
  "tmTimer_RMRetry e m = Some m' \<Longrightarrow> env_ok e \<Longrightarrow> timer_grows (tmm_timer m) (tmm_timer m')"
  by (auto simp: tmTimer_RMRetry_def split: if_splits intro: main_call_grows)

lemma RecoveryWait_grows:
  assumes "tmTimer_RecoveryWait e nid m = Some m'" and "env_ok e"
  shows "timer_grows (tmm_timer m) (tmm_timer m')"
proof -
  have two: "do { m1 \<leftarrow> main_call e a m; main_call e b m1 } = Some m' \<Longrightarrow>
      timer_grows (tmm_timer m) (tmm_timer m')" for a b
    by (auto simp: bind_eq_Some_conv dest!: main_call_grows [OF _ assms(2)] intro: grows_trans)
  show ?thesis
    using assms(1) two with_ops_grow(3) [of nid 1000 m m']
    by (auto simp: tmTimer_RecoveryWait_def split: if_splits)
qed

lemma TMRestartRetry_grows:
  assumes "tmTimer_TMRestartRetry e nid m = Some m'" and "env_ok e"
  shows "timer_grows (tmm_timer m) (tmm_timer m')"
proof (cases "tmm_state m \<in> {TM_STATE_UP, TM_STATE_TX_DISABLED, TM_STATE_DRAIN}")
  case True
  then obtain m1 where 1: "main_call e (Recover_tm nid) m = Some m1"
    and 2: "(if te_recover_retry e then with_timer (addTMRestartRetry (te_TMRestartRetry_interval e) nid (- 1)) m1
        else Some m1) = Some m'"
    using assms(1) by (auto simp: tmTimer_TMRestartRetry_def bind_eq_Some_conv)
  have "timer_grows (tmm_timer m1) (tmm_timer m')"
    using 2 with_ops_grow(4) by (auto split: if_splits)
  with main_call_grows [OF 1 assms(2)] show ?thesis by (rule grows_trans)
qed (use assms(1) in \<open>simp add: tmTimer_TMRestartRetry_def\<close>)

lemma restart_popped_grows:
  assumes "restart_popped e a nid m = Some m'" and "env_ok e"
  shows "timer_grows (tmm_timer m) (tmm_timer m')"
proof (cases "tmr_restart (tmm_timer m) nid = Some a")
  case True
  let ?m = "m\<lparr> tmm_timer := (tmm_timer m)\<lparr> tmr_restart := (tmr_restart (tmm_timer m))(nid := None) \<rparr> \<rparr>"
  have "timer_grows (tmm_timer ?m) (tmm_timer m')"
    using TMRestartRetry_grows [OF _ assms(2), of nid ?m m'] assms(1) True by (simp add: restart_popped_def)
  moreover have "timer_grows (tmm_timer m) (tmm_timer ?m)" by simp
  ultimately show ?thesis by (rule grows_trans [rotated])
qed (use assms(1) in \<open>simp add: restart_popped_def\<close>)

lemma popped_grows:
  assumes "timer_popped e a ev m = Some (del, m')" and "env_ok e"
  shows "timer_grows (tmm_timer m) (tmm_timer m')"
  using assms
  by (cases "tev_requestType ev")
    (auto simp: timer_popped_def tmTimer_initiate_cp_def tmTimer_stats_def notify_popped_def
      tmTimer_initializeRMs_def tmTimer_recoverSystem_def bind_eq_Some_conv
      split: if_splits option.splits
      intro: RMRetry_grows restart_popped_grows ShutdownPhase1Wait_grows main_call_grows
        RecoveryWait_grows disableTrans_grows)

subsection \<open>Steps\<close>

lemma set_main_event_timer [simp]: "tmm_timer (set_main_event a p m) = set_event a p (tmm_timer m)"
  by (simp add: set_main_event_def)

lemma popped_kept:
  assumes "timer_popped e a ev m = Some (del, m')" and "env_ok e" and "timer_inv (tmm_timer m)"
    and "a \<notin> set (timer_held (tmm_timer m))" and "event_at (tmm_timer m) a = Some ev"
  shows "timer_inv (tmm_timer m')" and "a \<notin> set (timer_held (tmm_timer m'))"
    and "event_at (tmm_timer m') a = Some ev \<or> event_at (tmm_timer m') a = Some (cancelled ev)"
proof -
  have "timer_grows (tmm_timer m) (tmm_timer m')" by (rule popped_grows [OF assms(1,2)])
  then have "timer_inv (tmm_timer m') \<and> kept_event (tmm_timer m) (tmm_timer m') a"
    using assms(3,4,5) by (simp add: timer_grows_def)
  then show "timer_inv (tmm_timer m')" "a \<notin> set (timer_held (tmm_timer m'))"
    "event_at (tmm_timer m') a = Some ev \<or> event_at (tmm_timer m') a = Some (cancelled ev)"
    using assms(5) by (auto simp: kept_event_def)
qed

lemma held_set_event [simp]: "timer_held (set_event a p t) = timer_held t"
  by (simp add: timer_held_def)

text \<open>An event that is not held is put into the list as a running timer.\<close>

lemma arm_inv:
  assumes "timer_inv t" and "a \<notin> set (timer_held t)" and "event_at t a \<noteq> None"
    and "tev_cmd ev \<in> {TmTimerCmd_Timer, TmTimerCmd_Cancelled}"
    and "timerList_add now a (set_event a (Some ev) t) = Some t'"
  shows "timer_inv t'"
proof (rule timerList_add_inv [OF _ _ _ assms(5)])
  show "timer_inv (set_event a (Some ev) t)" using assms(1,2) by (simp add: set_event_inv)
  show "cmd_in [TmTimerCmd_Timer, TmTimerCmd_Cancelled] (event_at (set_event a (Some ev) t) a)"
    using assms(4) event_at_fresh [OF assms(3)] by (auto simp: cmd_in_Some)
qed (use assms(2) in simp)

lemma rearm_inv:
  assumes "timer_rearm e a del m = Some m'" and "timer_inv (tmm_timer m)"
    and "a \<notin> set (timer_held (tmm_timer m))" and "event_at (tmm_timer m) a = Some ev"
    and "tev_cmd ev \<in> {TmTimerCmd_Timer, TmTimerCmd_Cancelled}"
  shows "timer_inv (tmm_timer m') \<and> (del \<longrightarrow> m' = m)"
proof (cases "tev_wakeupRepeat ev \<noteq> 0 \<and> \<not> del")
  case True
  then obtain t where t: "timerList_add (te_now e 4) a
      (set_event a (Some (dec_wakeupRepeat ev)) (tmm_timer m)) = Some t" "m' = (set_main_event a
        (Some (dec_wakeupRepeat ev)) m)\<lparr> tmm_timer := t \<rparr>"
    using assms(1,4) by (auto simp: timer_rearm_def with_timer_def)
  have "tev_cmd (dec_wakeupRepeat ev) \<in> {TmTimerCmd_Timer, TmTimerCmd_Cancelled}"
    using assms(5) by (simp add: dec_wakeupRepeat_def)
  then have "timer_inv t" using arm_inv [OF assms(2,3) _ _ t(1)] assms(4) by simp
  then show ?thesis using t(2) True by simp
qed (use assms in \<open>auto simp: timer_rearm_def\<close>)

lemma command_inv:
  assumes "timer_command e a ev m = Some (x, m')" and "env_ok e" and "timer_inv (tmm_timer m)"
    and "a \<notin> set (timer_held (tmm_timer m))" and "event_at (tmm_timer m) a = Some ev"
  shows "timer_inv (tmm_timer m')"
proof (cases "tev_cmd ev")
  case TmTimerCmd_Queue
  then obtain t where t: "timerList_add (te_now e 4) a
      (set_event a (Some (ev\<lparr> tev_cmd := TmTimerCmd_Timer \<rparr>)) (tmm_timer m)) = Some t" "tmm_timer m' = t"
    using assms(1) by (auto simp: timer_command_def with_timer_def)
  show ?thesis using arm_inv [OF assms(3,4) _ _ t(1)] assms(5) t(2) by simp
next
  case TmTimerCmd_Timer
  then obtain del m1 m2 where 1: "timer_popped e a ev m = Some (del, m1)"
    and 2: "timer_rearm e a del m1 = Some m2"
    and m': "m' = (if del then set_main_event a None m2 else m2)"
    using assms(1) by (auto simp: timer_command_def bind_eq_Some_conv)
  note k = popped_kept [OF 1 assms(2-5)]
  obtain ev1 where ev1: "event_at (tmm_timer m1) a = Some ev1"
      "tev_cmd ev1 \<in> {TmTimerCmd_Timer, TmTimerCmd_Cancelled}"
    using k(3) TmTimerCmd_Timer by (auto simp: cancelled_def)
  have "timer_inv (tmm_timer m2) \<and> (del \<longrightarrow> m2 = m1)" by (rule rearm_inv [OF 2 k(1,2) ev1])
  then show ?thesis using k(2) by (auto simp: m' set_event_inv)
next
  case TmTimerCmd_Stop
  have "timer_inv ((tmm_timer m)\<lparr> tmr_state := TmTimer_Down \<rparr>)"
    using assms(3) timer_inv_fields [of "(tmm_timer m)\<lparr> tmr_state := TmTimer_Down \<rparr>" "tmm_timer m"] by simp
  moreover have "a \<notin> set (timer_held ((tmm_timer m)\<lparr> tmr_state := TmTimer_Down \<rparr>))"
    using assms(4) by (simp add: timer_held_def)
  moreover have "tmm_timer m' = set_event a None ((tmm_timer m)\<lparr> tmr_state := TmTimer_Down \<rparr>)"
    using assms(1) TmTimerCmd_Stop by (auto simp: timer_command_def)
  ultimately show ?thesis by (simp add: set_event_inv)
qed (use assms in \<open>auto simp: timer_command_def intro: set_event_inv\<close>)

lemma timer_step_inv:
  assumes "timer_step e m = Some (x, m')" and "env_ok e" and "timer_inv (tmm_timer m)"
  shows "timer_inv (tmm_timer m')"
proof -
  obtain p t where p: "timer_eventQ_pop (te_now e) (te_arrivals e) (tmm_timer m) = Some (p, t)"
    using assms(1) by (auto simp: timer_step_def bind_eq_Some_conv)
  obtain a where a: "p = Some a" "timer_inv t" "a \<notin> set (timer_held t)" "event_at t a \<noteq> None"
    using eventQ_pop_inv [OF assms(3) _ p] assms(2) by (auto simp: env_ok_def)
  then obtain ev where ev: "event_at t a = Some ev" by auto
  have "timer_command e a ev (m\<lparr> tmm_timer := t \<rparr>) = Some (x, m')"
    using assms(1) by (simp add: timer_step_def p a(1) ev)
  from command_inv [OF this assms(2)] a ev show ?thesis by simp
qed

section \<open>Which event a step works on\<close>

text \<open>A clock that answers.\<close>

definition clock_ok :: "timer_env \<Rightarrow> bool" where
  "clock_ok e = list_all (\<lambda>i. fst (te_now e i) = 0) [0, 1, 2, 3, 4]"

lemma clock_readings:
  assumes "clock_ok e"
  shows "fst (te_now e 0) = 0" "fst (te_now e (Suc 0)) = 0" "fst (te_now e 2) = 0" "fst (te_now e 3) = 0"
    "fst (te_now e 4) = 0"
  using assms by (auto simp: clock_ok_def)

lemma calculateWait_defined:
  assumes "fst (now 1) = 0" "fst (now 2) = 0" "fst (now 3) = 0"
  shows "\<exists>x it. calculateWait now t = Some (x, t\<lparr> tmr_timerList := tmr_timerList t\<lparr> mm_iterator := it \<rparr> \<rparr>)"
proof -
  have "\<exists>x t1. calculateWait now t = Some (x, t1)"
    using assms
    by (auto simp: calculateWait_def timerList_getFirst_def tmtime_now_def tmtime_after_def tmtime_left_tv_def
        tv_now_def mmap_get_first_def mmap_curr_key_def split: list.splits)
  then show ?thesis using calculateWait_state by blast
qed

lemma step_takes_timer:
  assumes "timer_inv (tmm_timer m)" and "clock_ok e" and "te_arrivals e = []"
    and "dq_deque (tmr_eventQ (tmm_timer m)) = []"
    and "mm_multimap (tmr_timerList (tmm_timer m)) = (k, a) # es"
    and "event_at (tmm_timer m) a = Some ev"
  shows "\<exists>l. mm_multimap l = es
    \<and> timer_step e m = timer_command e a ev (m\<lparr> tmm_timer := (tmm_timer m)\<lparr> tmr_timerList := l \<rparr> \<rparr>)"
proof -
  obtain x it where w: "calculateWait (te_now e) (tmm_timer m) =
      Some (x, (tmm_timer m)\<lparr> tmr_timerList := tmr_timerList (tmm_timer m)\<lparr> mm_iterator := it \<rparr> \<rparr>)"
    using calculateWait_defined [of "te_now e" "tmm_timer m"] clock_readings [OF assms(2)] by auto
  let ?t = "(tmm_timer m)\<lparr> tmr_timerList := tmr_timerList (tmm_timer m)\<lparr> mm_iterator := it \<rparr> \<rparr>"
  have "timer_inv ?t" using assms(1) by (simp add: timer_inv_iterator)
  then obtain l where l: "timerList_pop ?t = Some (Some a, word_of_int k, ?t\<lparr> tmr_timerList := l \<rparr>)" "mm_multimap l = es"
    using timerList_pop_head [of ?t k a es] assms(5) by auto
  have "timer_eventQ_pop (te_now e) (te_arrivals e) (tmm_timer m) = Some (Some a, (tmm_timer m)\<lparr> tmr_timerList := l \<rparr>)"
    using w l(1) assms(3,4) clock_readings [OF assms(2)]
    by (cases x) (simp add: timer_eventQ_pop_def tmtime_now_def tv_now_def deque_empty_def)
  then show ?thesis using l(2) assms(6) by (auto simp: timer_step_def)
qed

lemma step_takes_queued:
  assumes "clock_ok e" and "dq_deque (tmr_eventQ (tmm_timer m)) = as @ [a]"
    and "event_at (tmm_timer m) a = Some ev"
  shows "\<exists>q it. dq_deque q = as \<and> timer_step e m = timer_command e a ev
      (m\<lparr> tmm_timer := (tmm_timer m)\<lparr> tmr_eventQ := q,
            tmr_timerList := tmr_timerList (tmm_timer m)\<lparr> mm_iterator := it \<rparr> \<rparr> \<rparr>)"
proof -
  obtain x it where w: "calculateWait (te_now e) (tmm_timer m) =
      Some (x, (tmm_timer m)\<lparr> tmr_timerList := tmr_timerList (tmm_timer m)\<lparr> mm_iterator := it \<rparr> \<rparr>)"
    using calculateWait_defined [of "te_now e" "tmm_timer m"] clock_readings [OF assms(1)] by auto
  obtain q where q: "deque_pop_end (tmr_eventQ (tmm_timer m)) = (Some a, q)" "dq_deque q = as"
    using assms(2) by (simp add: deque_pop_end_def)
  have "timer_eventQ_pop (te_now e) (te_arrivals e) (tmm_timer m) = Some (Some a, (tmm_timer m)\<lparr> tmr_eventQ := q,
            tmr_timerList := tmr_timerList (tmm_timer m)\<lparr> mm_iterator := it \<rparr> \<rparr>)"
    using w q(1) assms(2) clock_readings [OF assms(1)]
    by (cases x) (simp add: timer_eventQ_pop_def tmtime_now_def tv_now_def deque_empty_def)
  then have "timer_step e m = timer_command e a ev (m\<lparr> tmm_timer := (tmm_timer m)\<lparr> tmr_eventQ := q,
            tmr_timerList := tmr_timerList (tmm_timer m)\<lparr> mm_iterator := it \<rparr> \<rparr> \<rparr>)"
    using assms(3) by (simp add: timer_step_def)
  with q(2) show ?thesis by blast
qed

section \<open>Properties\<close>

lemma thread_inv:
  assumes "timerThread_main es m = Some (x, m')" and "list_all env_ok es" and "timer_inv (tmm_timer m)"
  shows "timer_inv (tmm_timer m')"
  using assms
proof (induction es arbitrary: m)
  case (Cons e es)
  obtain y m1 where s: "timer_step e m = Some (y, m1)"
      "(if y then Some (True, m1) else timerThread_main es m1) = Some (x, m')"
    using Cons.prems(1) by (auto simp: bind_eq_Some_conv)
  have "timer_inv (tmm_timer m1)" using timer_step_inv [OF s(1)] Cons.prems(2,3) by simp
  then show ?case using s(2) Cons.IH [of m1] Cons.prems(2) by (auto split: if_splits)
qed simp

lemma timer_new_inv: "timer_inv (timer_new start msec)"
  by (simp add: timer_new_def set_defaultWaitTime_def timer_inv_def timer_held_def deque_new_def mmap_new_def mmap_ok_def)

text \<open>
  C17: Along every run of the timer thread from a fresh timer, whatever the other threads
  post and whatever the handlers do, each event in the queue or the timer list is alive and
  is there exactly once, the list is ordered by key, and no event is a running timer
  while it is still queued.
\<close>

theorem timer_events_owned:
  assumes "tmm_timer m = timer_new start msec" and "list_all env_ok es"
    and "timerThread_main es m = Some (x, m')"
  shows "timer_inv (tmm_timer m')"
  using thread_inv [OF assms(3,2)] assms(1) timer_new_inv by simp

definition quiet_env :: "timer_env" where
  "quiet_env =
     \<lparr> te_now = (\<lambda>_. (0, \<lparr> tv_sec = 200, tv_usec = 0 \<rparr>)), te_arrivals = [], te_use_tlog = True,
       te_num_rm_failed = 0, te_inUse = 0, te_clusterQueued = 0, te_nodeQueued = (\<lambda>_. 0),
       te_maxPoolSize = 10, te_maxRecoveringTxns = 10, te_num_active_txs = 0, te_sendAllTMs = 0,
       te_recover_retry = False, te_TMRestartRetry_interval = 5000, te_posts = (\<lambda>_. []) \<rparr>"

definition timer_main_sample :: "tm_main" where
  "timer_main_sample =
     \<lparr> tmm_timer = timer_new \<lparr> tv_sec = 100, tv_usec = 0 \<rparr> (- 1), tmm_state = TM_STATE_UP,
       tmm_lead_tm = True, tmm_all_rms_closed = False, tmm_sys_recov_end = True,
       tmm_TMUP_wait_list = deque_new, tmm_cluster_recov = False, tmm_p1_first = True, tmm_acts = [] \<rparr>"

text \<open>A transaction timeout is posted, armed and fired.\<close>

definition posting_env :: "timer_env" where
  "posting_env = quiet_env\<lparr> te_arrivals :=
     [event_for_transaction (TIMER_OTHER TXINTERNAL_ROLLBACK) None 7 30] \<rparr>"

lemma quiet_env_ok [simp]: "env_ok quiet_env" "env_ok posting_env"
  by (simp_all add: env_ok_def quiet_env_def posting_env_def arrivals_ok_def event_for_transaction_def)

theorem timer_events_owned_witness:
  "timer_inv (tmm_timer (snd (the (timerThread_main [posting_env, quiet_env] timer_main_sample))))
   \<and> tmm_acts (snd (the (timerThread_main [posting_env, quiet_env] timer_main_sample))) =
     [QueueToTransaction 7 (TIMER_OTHER TXINTERNAL_ROLLBACK)]"
proof -
  have "case timerThread_main [posting_env, quiet_env] timer_main_sample of
      None \<Rightarrow> False | Some (x, _) \<Rightarrow> x = False" by code_simp
  from run_result [OF this]
  have r: "timerThread_main [posting_env, quiet_env] timer_main_sample =
    Some (False, snd (the (timerThread_main [posting_env, quiet_env] timer_main_sample)))" .
  have "tmm_timer timer_main_sample = timer_new \<lparr> tv_sec = 100, tv_usec = 0 \<rparr> (- 1)"
    by (simp add: timer_main_sample_def)
  from timer_events_owned [OF this _ r]
  have "timer_inv (tmm_timer (snd (the (timerThread_main [posting_env, quiet_env] timer_main_sample))))" by simp
  moreover have "tmm_acts (snd (the (timerThread_main [posting_env, quiet_env] timer_main_sample))) =
     [QueueToTransaction 7 (TIMER_OTHER TXINTERNAL_ROLLBACK)]" by code_simp
  ultimately show ?thesis by simp
qed

text \<open>
  C24: When the timer of a transaction expires, the step queues its request to the transaction
  and frees the event.  A transaction that still points at it, as \<^verbatim>\<open>ip_timeoutEvent\<close> and
  \<^verbatim>\<open>ip_hung_event\<close> do, then cancels freed memory in \<^verbatim>\<open>cleanup\<close>, in \<^verbatim>\<open>setAbortTimeout\<close>, and in the
  redrive that this very timer started.
\<close>

theorem fired_timer_dangles:
  assumes "timer_inv (tmm_timer m)" and "clock_ok e" and "te_arrivals e = []"
    and "dq_deque (tmr_eventQ (tmm_timer m)) = []"
    and "mm_multimap (tmr_timerList (tmm_timer m)) = (k, a) # es"
    and "event_at (tmm_timer m) a = Some ev" and "tev_cmd ev = TmTimerCmd_Timer"
    and "tev_requestType ev = TIMER_OTHER ty" and "tev_transaction ev = Some tx"
  shows "\<exists>m'. timer_step e m = Some (False, m')
    \<and> tmm_acts m' = tmm_acts m @ [QueueToTransaction tx (TIMER_OTHER ty)]
    \<and> map snd (mm_multimap (tmr_timerList (tmm_timer m'))) = map snd es
    \<and> (\<forall>p. txt_hung_event p = Some a \<longrightarrow> txt_redrive_cancel p (tmm_timer m') = None)
    \<and> (\<forall>p. txt_timeoutEvent p = Some a \<longrightarrow> txt_cleanup p (tmm_timer m') = None)
    \<and> (\<forall>p. txt_timeoutEvent p = Some a \<longrightarrow>
          (\<forall>dflt timeout thread. txt_setAbortTimeout dflt timeout thread tx p (tmm_timer m') = None))"
proof -
  obtain l where l: "mm_multimap l = es"
      "timer_step e m = timer_command e a ev (m\<lparr> tmm_timer := (tmm_timer m)\<lparr> tmr_timerList := l \<rparr> \<rparr>)"
    using step_takes_timer [OF assms(1-6)] by blast
  let ?m = "set_main_event a None (main_act (QueueToTransaction tx (TIMER_OTHER ty))
      (m\<lparr> tmm_timer := (tmm_timer m)\<lparr> tmr_timerList := l \<rparr> \<rparr>))"
  have step: "timer_step e m = Some (False, ?m)"
    using l(2) assms(6-9) by (simp add: timer_command_def timer_popped_def notify_popped_def timer_rearm_def)
  have "event_at (tmm_timer ?m) a = None" using event_at_fresh [of "tmm_timer m" a] assms(6) by simp
  then have "cancelEvent a (tmm_timer ?m) = None" by (simp add: cancelEvent_def)
  then show ?thesis
    using step l(1) by (simp add: txt_redrive_cancel_def txt_cleanup_def txt_setAbortTimeout_def cancel_if_set_def
        Let_def set_main_event_def main_act_def)
qed

definition armed_sample :: "tm_main" where
  "armed_sample = snd (the (timer_step posting_env timer_main_sample))"

theorem fired_timer_dangles_witness:
  "\<exists>m'. timer_step quiet_env armed_sample = Some (False, m')
     \<and> txt_redrive_cancel \<lparr> txt_timeoutEvent = None, txt_hung_event = Some 0 \<rparr> (tmm_timer m') = None"
proof -
  define ev where "ev = (event_for_transaction (TIMER_OTHER TXINTERNAL_ROLLBACK) None 7 30)\<lparr> tev_cmd := TmTimerCmd_Timer \<rparr>"
  have "timer_inv (tmm_timer armed_sample)" "clock_ok quiet_env" "te_arrivals quiet_env = []"
      "dq_deque (tmr_eventQ (tmm_timer armed_sample)) = []"
      "mm_multimap (tmr_timerList (tmm_timer armed_sample)) = (100030, 0) # []"
    by code_simp+
  moreover have "event_at (tmm_timer armed_sample) 0 = Some ev" unfolding ev_def by code_simp
  moreover have "tev_cmd ev = TmTimerCmd_Timer" "tev_requestType ev = TIMER_OTHER TXINTERNAL_ROLLBACK"
      "tev_transaction ev = Some 7"
    by (simp_all add: ev_def event_for_transaction_def)
  ultimately show ?thesis
    using fired_timer_dangles [of armed_sample quiet_env 100030 0 "[]" ev TXINTERNAL_ROLLBACK 7] by auto
qed


definition cp_sample :: "tm_main" where
  "cp_sample = snd (the (timer_step (quiet_env\<lparr> te_arrivals :=
     [event_for_thread TIMER_CONTROLPOINT None 1000 (- 1)] \<rparr>) timer_main_sample))"


text \<open>The last thing phase 1 of a shutdown does: tell the cluster, or answer the lead TM.\<close>

definition phase1_end :: "int \<Rightarrow> tm_main \<Rightarrow> main_action" where
  "phase1_end msgid m = (if tmm_lead_tm m then Set_txnsvc_ready TXNSVC_SHUTDOWN else Main_reply msgid 0)"

text \<open>
  C18: Phase 1 of a shutdown ends only when the transaction pool is empty.  While a
  transaction is in use the wait leaves the timer alone and ends nothing; once none is, and
  the other TMs have not failed, it ends the phase and cancels its own timer.
\<close>

theorem shutdown_waits_for_transactions:
  assumes "ShutdownPhase1Wait e level msgid m = Some m'"
    and "tmr_ShutdownP1_event (tmm_timer m) = Some a"
  shows "\<exists>new. tmm_acts m' = tmm_acts m @ new
    \<and> (te_inUse e \<noteq> 0 \<longrightarrow> tmm_timer m' = tmm_timer m
         \<and> Set_txnsvc_ready TXNSVC_SHUTDOWN \<notin> set new \<and> Main_reply msgid 0 \<notin> set new)
    \<and> (te_inUse e = 0 \<longrightarrow> te_sendAllTMs e = 0 \<longrightarrow> last new = phase1_end msgid m
         \<and> tmr_ShutdownP1_event (tmm_timer m') = None
         \<and> map_option tev_cmd (event_at (tmm_timer m') a) = Some TmTimerCmd_Cancelled)"
proof -
  have cancel: "map_option tev_cmd (event_at t' a) = Some TmTimerCmd_Cancelled \<and> tmr_ShutdownP1_event t' = None"
    if "cancelShutdownPhase1WaitEvent (tmm_timer m) = Some t'" for t'
    using that assms(2) event_at_fresh [of "tmm_timer m" a]
    by (auto simp: cancelShutdownPhase1WaitEvent_def cancel_if_set_def cancelEvent_def bind_eq_Some_conv
        split: option.splits)
  show ?thesis
    using assms(1) cancel
    by (auto simp: ShutdownPhase1Wait_def main_act_def with_timer_def phase1_end_def Let_def split: if_splits)
qed

definition shutdown_sample :: "tm_main" where
  "shutdown_sample =
     snd (snd (the (disableTrans quiet_env TM_DISABLE_SHUTDOWN_NORMAL 5 timer_main_sample)))"

theorem shutdown_waits_for_transactions_witness:
  "\<exists>m' new. ShutdownPhase1Wait quiet_env 1 5 shutdown_sample = Some m'
     \<and> tmm_acts m' = tmm_acts shutdown_sample @ new \<and> last new = Set_txnsvc_ready TXNSVC_SHUTDOWN"
proof -
  have "case map_option (Pair True) (ShutdownPhase1Wait quiet_env 1 5 shutdown_sample) of
      None \<Rightarrow> False | Some (x, _) \<Rightarrow> x = True" by code_simp
  then obtain m' where m': "ShutdownPhase1Wait quiet_env 1 5 shutdown_sample = Some m'"
    by (auto split: option.splits)
  have "tmr_ShutdownP1_event (tmm_timer shutdown_sample) = Some 0" "te_inUse quiet_env = 0"
      "te_sendAllTMs quiet_env = 0" "tmm_lead_tm shutdown_sample" by code_simp+
  then show ?thesis
    using shutdown_waits_for_transactions [OF m', of 0] m' by (auto simp: phase1_end_def)
qed

text \<open>
  C25: A shutdown that is made immediate while a normal one waits is accepted, but aborts
  nothing.  The request is answered with success and its timer replaces the old one, yet the
  handler aborts the active transactions only on the first call of its life.
\<close>

theorem immediate_after_normal_ignored:
  assumes "tmm_lead_tm m" and "tmm_state m = TM_STATE_TX_DISABLED_SHUTDOWN_PHASE1"
    and "\<not> tmm_p1_first m"
  shows "(\<exists>m1. tm_process_req_disabletrans rec TM_DISABLE_SHUTDOWN_IMMEDIATE msgid m = Some m1
        \<and> tmm_acts m1 = tmm_acts m @ [Main_reply msgid 0])
    \<and> (\<forall>m'. ShutdownPhase1Wait e TM_DISABLE_SHUTDOWN_IMMEDIATE NULL_MSGID m = Some m' \<longrightarrow>
         tmm_acts m' = tmm_acts m @ (if te_inUse e = 0 then [Set_txnsvc_ready TXNSVC_SHUTDOWN] else []))"
  using assms
  by (auto simp: tm_process_req_disabletrans_def info_addTimerEvent_def with_timer_def timer_post_eq
      main_act_def ShutdownPhase1Wait_def split: if_splits)

definition draining_sample :: "tm_main" where
  "draining_sample = the (ShutdownPhase1Wait (quiet_env\<lparr> te_inUse := 3 \<rparr>) 1 5 shutdown_sample)"

theorem immediate_after_normal_ignored_witness:
  "\<exists>m'. ShutdownPhase1Wait (quiet_env\<lparr> te_inUse := 3 \<rparr>) 2 0 draining_sample = Some m'
     \<and> tmm_acts m' = tmm_acts draining_sample"
proof -
  have "case map_option (Pair True) (ShutdownPhase1Wait (quiet_env\<lparr> te_inUse := 3 \<rparr>) 2 0 draining_sample) of
      None \<Rightarrow> False | Some (x, _) \<Rightarrow> x = True" by code_simp
  then obtain m' where "ShutdownPhase1Wait (quiet_env\<lparr> te_inUse := 3 \<rparr>) 2 0 draining_sample = Some m'"
    by (auto split: option.splits)
  moreover have "tmm_lead_tm draining_sample" "tmm_state draining_sample = TM_STATE_TX_DISABLED_SHUTDOWN_PHASE1"
      "\<not> tmm_p1_first draining_sample" by code_simp+
  ultimately show ?thesis
    using immediate_after_normal_ignored [of draining_sample True 0 "quiet_env\<lparr> te_inUse := 3 \<rparr>"] by auto
qed

text \<open>
  What a TM that is not the lead answers to the requests the lead broadcasts and waits
  for.  A disable never answers by itself; only a shutdown level in an acceptable state
  leaves a timer behind that will.  An enable answers only in the disabled state.  In every
  other case the lead TM waits for ever, a plain disable included.
\<close>

theorem follower_answers:
  assumes "\<not> tmm_lead_tm m"
  shows "(\<forall>err freed m'. disableTrans e level msgid m = Some (err, freed, m') \<longrightarrow>
        tmm_acts m' = tmm_acts m
        \<and> (level \<noteq> TM_DISABLE_SHUTDOWN_NORMAL \<longrightarrow> level \<noteq> TM_DISABLE_SHUTDOWN_IMMEDIATE \<longrightarrow>
             tmm_timer m' = tmm_timer m)
        \<and> (err \<noteq> 0 \<longrightarrow> m' = m)
        \<and> (tmm_timer m' \<noteq> tmm_timer m \<longrightarrow>
             map_option tev_msgid (event_at (tmm_timer m') (length (tmr_heap (tmm_timer m)))) = Some msgid))
    \<and> (Main_reply msgid 0 \<in> set (drop (length (tmm_acts m)) (tmm_acts (snd (enableTrans e msgid m))))
        \<longrightarrow> tmm_state m = TM_STATE_TX_DISABLED)"
proof -
  have "map_option tev_msgid (event_at t' (length (tmr_heap t))) = Some msgid"
    if p1: "addShutdownPhase1WaitEvent level msgid t = Some t'" for t t'
  proof -
    obtain t1 where t1: "cancelShutdownPhase1WaitEvent t = Some t1"
      using p1 by (auto simp: addShutdownPhase1WaitEvent_def bind_eq_Some_conv)
    then have "length (tmr_heap t1) = length (tmr_heap t)"
      by (auto simp: cancelShutdownPhase1WaitEvent_def cancel_if_set_def cancelEvent_def bind_eq_Some_conv
          split: option.splits)
    then show ?thesis
      using p1 t1 by (auto simp: addShutdownPhase1WaitEvent_def timer_post_eq event_at_def event_of_msg_def nth_append)
  qed
  then show ?thesis
    using assms
    by (auto simp: disableTrans_def enableTrans_def with_timer_def Let_def bind_eq_Some_conv split: if_splits)
qed

definition follower_sample :: "tm_main" where
  "follower_sample = timer_main_sample\<lparr> tmm_lead_tm := False \<rparr>"

theorem follower_answers_witness:
  "\<exists>m'. disableTrans quiet_env 0 9 follower_sample = Some (0, False, m')
     \<and> tmm_state m' = TM_STATE_TX_DISABLED \<and> tmm_acts m' = [] \<and> tmm_timer m' = tmm_timer follower_sample"
proof -
  have f: "\<not> tmm_lead_tm follower_sample" "tmm_state follower_sample = TM_STATE_UP" "tmm_acts follower_sample = []"
    by (simp_all add: follower_sample_def timer_main_sample_def)
  then obtain m' where "disableTrans quiet_env 0 9 follower_sample = Some (0, False, m')"
      "tmm_state m' = TM_STATE_TX_DISABLED"
    by (simp add: disableTrans_def Let_def)
  then show ?thesis using follower_answers [OF f(1), of quiet_env 0 9] f(3) by auto
qed

end
