(* ===== verification/Tm_Recovery.thy ===== *)
theory Tm_Recovery
  imports Tm_World
begin

text \<open>
  Recovery (\<^verbatim>\<open>tmrecov.cpp\<close>, \<^verbatim>\<open>tmrecovstate.cpp\<close>): the scan of the transaction log from its end,
  the questions to the TSEs about the branches they hold in doubt, and the resolution of the
  transactions found.  The log is the list of its records, newest first.  The recovery
  object keeps one list of transaction states, which is built first, and one of transaction
  objects, which is filled from it as the transaction pool allows.  \<^const>\<open>None\<close> is an abort of the process,
  or a wait that does not end.
\<close>

section \<open>Log records and recovery state\<close>

datatype trans_state =
    Active_Trans_State | Prepared_Trans_State | Committed_Trans_State | Aborting_Trans_State
  | Forgotten_Trans_State | Aborted_Trans_State | HungCommitted_Trans_State | HungAborted_Trans_State
  | Unknown_Trans_State int

type_synonym transid = "32 word \<times> 32 word"

datatype audit_rec =
    TM_Control_Point | TM_Shutdown | TM_Transaction_State transid trans_state int | TM_Other_record

definition transid_key :: "transid \<Rightarrow> int" where
  "transid_key tid = txkey_id (txkey_set (fst tid) (snd tid))"

text \<open>\<^verbatim>\<open>CTmRmTxRecoveryState\<close>; the values of \<^verbatim>\<open>iv_rmList\<close> are slots of \<^verbatim>\<open>gv_RMs\<close>, here their rmids.\<close>

record recov_state =
  rs_state :: TM_TX_STATE
  rs_transid :: transid
  rs_abort_flags :: int
  rs_rms_to_recover :: int
  rs_rmList :: "int tm_map"

definition recov_state_new :: "transid \<Rightarrow> TM_TX_STATE \<Rightarrow> recov_state" where
  "recov_state_new tid st =
     \<lparr> rs_state = st, rs_transid = tid, rs_abort_flags = 0, rs_rms_to_recover = 0, rs_rmList = map_new \<rparr>"

text \<open>
  The fields of a transaction object (\<^verbatim>\<open>TM_TX_Info\<close>) that recovery sets.  The objects live in
  the transaction pool, by key; \<^verbatim>\<open>iv_txnList\<close> holds the keys.
\<close>

record recov_tx =
  rt_transid :: transid
  rt_tx_state :: TM_TX_STATE
  rt_abort_flags :: int
  rt_prepared_rms :: int
  rt_in_use :: bool
  rt_recovering :: bool
  rt_all_partic :: bool
  rt_partic :: "int list"

datatype RECOV_STATE_TYPE = RECOV_REDRIVE_COMMIT | RECOV_REDRIVE_ROLLBACK

datatype recov_action =
    Recov_registry int | Recov_redrive int RECOV_STATE_TYPE | Recov_wait int int
  | Recov_control_point | Recov_sys_recov_end | Recov_nodeDown int | Recov_listbuilt_sync int
  | Recov_fail_rm int | Recov_shutdown_abrupt int

record tm_recov =
  rv_total_txs_to_recover :: int
  rv_max_txs_to_recover :: int
  rv_txnStateList :: "recov_state tm_map"
  rv_txnList :: "int tm_map"
  rv_pool :: "recov_tx tm_map"
  rv_listBuilt :: bool
  rv_branchesLeft :: "int \<Rightarrow> int"
  rv_acts :: "recov_action list"

text \<open>
  The configuration and the global tables recovery reads: the override of log
  inconsistencies, \<^verbatim>\<open>SysRecovMode() == CLEAN_SHUTDOWN_OPTIMIZE\<close>, the limits, which rmids have a
  slot in \<^verbatim>\<open>gv_RMs\<close>.
\<close>

record recov_env =
  re_nid :: int
  re_lead_tm :: bool
  re_override :: bool
  re_optimize :: bool
  re_maxRecoveringTxns :: int
  re_maxPoolSize :: int
  re_AllRmParticRecov :: bool
  re_has_slot :: "int \<Rightarrow> bool"

definition recov_new :: tm_recov where
  "recov_new =
     \<lparr> rv_total_txs_to_recover = 0, rv_max_txs_to_recover = 0, rv_txnStateList = map_new,
       rv_txnList = map_new, rv_pool = map_new, rv_listBuilt = False, rv_branchesLeft = (\<lambda>_. 0),
       rv_acts = [] \<rparr>"

definition recov_act :: "recov_action \<Rightarrow> tm_recov \<Rightarrow> tm_recov" where
  "recov_act a r = r\<lparr> rv_acts := rv_acts r @ [a] \<rparr>"

text \<open>An element of a map is reached through its pointer: a change in place.\<close>

definition map_change :: "int \<Rightarrow> ('a \<Rightarrow> 'a) \<Rightarrow> 'a tm_map \<Rightarrow> 'a tm_map" where
  "map_change k f m = m\<lparr> mp_map := map (\<lambda>(k', v). (k', if k' = k then f v else v)) (mp_map m) \<rparr>"

section \<open>The two lists\<close>

definition add_txState :: "transid \<Rightarrow> TM_TX_STATE \<Rightarrow> tm_recov \<Rightarrow> tm_recov option" where
  "add_txState tid st r =
     do { l \<leftarrow> map_put (transid_key tid) (recov_state_new tid st) (rv_txnStateList r);
          Some (r\<lparr> rv_txnStateList := l, rv_total_txs_to_recover := rv_total_txs_to_recover r + 1 \<rparr>) }"

definition get_txState :: "transid \<Rightarrow> tm_recov \<Rightarrow> recov_state option" where
  "get_txState tid r = map_get (transid_key tid) (rv_txnStateList r)"

definition change_txState :: "transid \<Rightarrow> (recov_state \<Rightarrow> recov_state) \<Rightarrow> tm_recov \<Rightarrow> tm_recov" where
  "change_txState tid f r =
     r\<lparr> rv_txnStateList := map_change (transid_key tid) f (rv_txnStateList r) \<rparr>"

definition remove_txState :: "int \<Rightarrow> tm_recov \<Rightarrow> tm_recov" where
  "remove_txState key r =
     (if key \<noteq> 0 then r\<lparr> rv_txnStateList := map_erase key (rv_txnStateList r) \<rparr> else r)"

definition remove_txinfo :: "int \<Rightarrow> tm_recov \<Rightarrow> tm_recov" where
  "remove_txinfo key r =
     (if key \<noteq> 0 then r\<lparr> rv_txnList := map_erase key (rv_txnList r) \<rparr> else r)"

definition add_txinfo :: "int \<Rightarrow> tm_recov \<Rightarrow> tm_recov option" where
  "add_txinfo key r =
     do { l \<leftarrow> map_put key key (rv_txnList r);
          Some (r\<lparr> rv_pool := map_change key (\<lambda>x. x\<lparr> rt_in_use := True \<rparr>) (rv_pool r), rv_txnList := l \<rparr>) }"

text \<open>
  \<^verbatim>\<open>new_txinfo\<close> answers the object, here its key; an exhausted pool aborts.  \<open>rt_all_partic\<close> is the
  argument of the last \<^verbatim>\<open>initialize_tx_rms\<close>, which resets the participants.
\<close>

definition recov_tx_new :: "transid \<Rightarrow> recov_tx" where
  "recov_tx_new tid =
     \<lparr> rt_transid = tid, rt_tx_state = NOTX, rt_abort_flags = 0, rt_prepared_rms = 0, rt_in_use = True,
       rt_recovering = True, rt_all_partic = True, rt_partic = [] \<rparr>"

definition new_txinfo :: "recov_env \<Rightarrow> transid \<Rightarrow> tm_recov \<Rightarrow> tm_recov option" where
  "new_txinfo e tid r =
     (case map_get (transid_key tid) (rv_pool r) of
        Some _ \<Rightarrow> Some r
      | None \<Rightarrow>
          if map_size (rv_pool r) \<ge> re_maxPoolSize e then None
          else do {
            p \<leftarrow> map_put (transid_key tid) (recov_tx_new tid) (rv_pool r);
            add_txinfo (transid_key tid) (r\<lparr> rv_pool := p \<rparr>) })"

definition change_tx :: "int \<Rightarrow> (recov_tx \<Rightarrow> recov_tx) \<Rightarrow> tm_recov \<Rightarrow> tm_recov" where
  "change_tx key f r = r\<lparr> rv_pool := map_change key f (rv_pool r) \<rparr>"

section \<open>The scan of the log\<close>

definition aborting_state :: "TM_TX_STATE \<Rightarrow> bool" where
  "aborting_state st = (st = ABORTING \<or> st = ABORTING_PART2 \<or> st = ABORTED)"

text \<open>
  What one transaction state record does to the state of its transaction.  \<open>new\<close> is
  \<^verbatim>\<open>lv_new_tx\<close>.  Without the override an unexpected abort record aborts the process.
\<close>

definition scan_state :: "bool \<Rightarrow> bool \<Rightarrow> trans_state \<Rightarrow> int \<Rightarrow> recov_state \<Rightarrow> recov_state option" where
  "scan_state override new ts flags s =
     (case ts of
        Forgotten_Trans_State \<Rightarrow>
          if new \<or> rs_state s \<noteq> FORGOTTEN
          then Some (s\<lparr> rs_abort_flags := flags, rs_state := FORGOTTEN \<rparr>) else Some s
      | Active_Trans_State \<Rightarrow> if new then Some (s\<lparr> rs_state := ACTIVE \<rparr>) else Some s
      | HungCommitted_Trans_State \<Rightarrow>
          if new \<or> (rs_state s \<noteq> COMMITTED \<and> rs_state s \<noteq> FORGOTTEN)
          then Some (s\<lparr> rs_state := COMMITTED \<rparr>) else Some s
      | Committed_Trans_State \<Rightarrow>
          if new \<or> (rs_state s \<noteq> COMMITTED \<and> rs_state s \<noteq> FORGOTTEN)
          then Some (s\<lparr> rs_state := COMMITTED \<rparr>) else Some s
      | Aborting_Trans_State \<Rightarrow>
          if new then Some (s\<lparr> rs_abort_flags := flags, rs_state := ABORTING \<rparr>)
          else if \<not> aborting_state (rs_state s) \<and> \<not> override then None else Some s
      | HungAborted_Trans_State \<Rightarrow>
          if new then Some (s\<lparr> rs_abort_flags := flags, rs_state := ABORTED \<rparr>)
          else if \<not> aborting_state (rs_state s) \<and> \<not> override then None else Some s
      | Aborted_Trans_State \<Rightarrow>
          if new then Some (s\<lparr> rs_abort_flags := flags, rs_state := ABORTED \<rparr>)
          else if \<not> aborting_state (rs_state s) \<and> \<not> override then None else Some s
      | _ \<Rightarrow> Some s)"

definition scan_record ::
  "recov_env \<Rightarrow> int \<Rightarrow> bool \<Rightarrow> transid \<Rightarrow> trans_state \<Rightarrow> int \<Rightarrow> tm_recov \<Rightarrow> tm_recov option" where
  "scan_record e dead_dtm scan_all tid ts flags r =
     (if dead_dtm \<noteq> - 1 \<and> sint (fst tid) \<noteq> dead_dtm then Some r
      else case get_txState tid r of
             Some s \<Rightarrow> do { s' \<leftarrow> scan_state (re_override e) False ts flags s;
                            Some (change_txState tid (\<lambda>_. s') r) }
           | None \<Rightarrow>
               if scan_all
               then do { r1 \<leftarrow> add_txState tid NOTX r;
                         s' \<leftarrow> scan_state (re_override e) True ts flags (recov_state_new tid NOTX);
                         Some (change_txState tid (\<lambda>_. s') r1) }
               else Some r)"

text \<open>The loop reads backwards until the second control point or the beginning of the log.\<close>

fun scan_loop :: "recov_env \<Rightarrow> int \<Rightarrow> bool \<Rightarrow> bool \<Rightarrow> audit_rec list \<Rightarrow> tm_recov \<Rightarrow> tm_recov option" where
  "scan_loop e dead scan_all first_cp [] r = Some r"
| "scan_loop e dead scan_all first_cp (TM_Control_Point # recs) r =
     (if first_cp then Some r else scan_loop e dead scan_all True recs r)"
| "scan_loop e dead scan_all first_cp (TM_Transaction_State tid ts flags # recs) r =
     do { r1 \<leftarrow> scan_record e dead scan_all tid ts flags r; scan_loop e dead scan_all first_cp recs r1 }"
| "scan_loop e dead scan_all first_cp (rec # recs) r = scan_loop e dead scan_all first_cp recs r"

abbreviation (input) FETMRECOVERY_NOT_NEEDED :: int where "FETMRECOVERY_NOT_NEEDED \<equiv> 7005"

definition clean_shutdown_record :: "recov_env \<Rightarrow> audit_rec list \<Rightarrow> bool" where
  "clean_shutdown_record e trail =
     (case trail of TM_Shutdown # _ \<Rightarrow> re_optimize e | _ \<Rightarrow> False)"

definition scantrail_cleanshutdown :: "recov_env \<Rightarrow> audit_rec list \<Rightarrow> int" where
  "scantrail_cleanshutdown e trail =
     (let lv_error = FETMRECOVERY_NOT_NEEDED
      in if clean_shutdown_record e trail then FETMRECOVERY_NOT_NEEDED else lv_error)"

definition scantrail_bldgtxlist ::
  "recov_env \<Rightarrow> audit_rec list \<Rightarrow> int \<Rightarrow> bool \<Rightarrow> tm_recov \<Rightarrow> (int \<times> tm_recov) option" where
  "scantrail_bldgtxlist e trail dead_dtm scan_all r =
     (if clean_shutdown_record e trail then Some (FETMRECOVERY_NOT_NEEDED, r)
      else map_option (Pair 0) (scan_loop e dead_dtm scan_all False trail r))"

section \<open>The questions to the TSEs\<close>

definition add_partic :: "recov_env \<Rightarrow> int \<Rightarrow> transid \<Rightarrow> tm_recov \<Rightarrow> tm_recov option" where
  "add_partic e rmid tid r =
     (case get_txState tid r of
        None \<Rightarrow> None
      | Some s \<Rightarrow> do {
          rms \<leftarrow> (if map_get rmid (rs_rmList s) = None \<and> re_has_slot e rmid
                  then map_put rmid rmid (rs_rmList s) else Some (rs_rmList s));
          if map_get rmid rms \<noteq> None
          then Some ((change_txState tid (\<lambda>s. s\<lparr> rs_rmList := rms, rs_rms_to_recover := rs_rms_to_recover s + 1 \<rparr>) r)
                     \<lparr> rv_branchesLeft := (rv_branchesLeft r)(rmid := rv_branchesLeft r rmid + 1) \<rparr>)
          else Some r })"

text \<open>One XID of a reply, in \<^verbatim>\<open>send_xa_recover_toall_TSEs\<close>.\<close>

definition recover_xid :: "recov_env \<Rightarrow> int \<Rightarrow> transid \<Rightarrow> tm_recov \<Rightarrow> tm_recov option" where
  "recover_xid e rmid tid r =
     (case get_txState tid r of
        Some s \<Rightarrow>
          add_partic e rmid tid
            (if rs_state s = FORGOTTEN \<or> rs_state s = FORGOTTEN_HEUR
             then change_txState tid
                    (\<lambda>s. s\<lparr> rs_state := (if rs_abort_flags s \<noteq> 0 then ABORTED else COMMITTED) \<rparr>) r
             else r)
      | None \<Rightarrow> add_txState tid ABORTED r \<bind> add_partic e rmid tid)"

primrec recover_xids :: "recov_env \<Rightarrow> int \<Rightarrow> transid list \<Rightarrow> tm_recov \<Rightarrow> tm_recov option" where
  "recover_xids e rmid [] r = Some r"
| "recover_xids e rmid (tid # tids) r = recover_xid e rmid tid r \<bind> recover_xids e rmid tids"

text \<open>
  A reply as \<^verbatim>\<open>tm_xa_recover_waitReply\<close> delivers it, with the result of the request that is sent
  for the rest when the reply is not the last of its TSE.
\<close>

record xa_reply =
  xr_result :: int
  xr_rmid :: int
  xr_xids :: "transid list"
  xr_end :: bool
  xr_int_error :: int
  xr_resend :: int

abbreviation (input) FEBADREPLY :: int where "FEBADREPLY \<equiv> 74"
abbreviation (input) TM_LINKRETRY_RETRIES :: int where "TM_LINKRETRY_RETRIES \<equiv> 100"

text \<open>
  The loop over the replies.  \<open>n\<close> is \<^verbatim>\<open>lv_rms_inRecovery\<close>, \<open>retries\<close> the retry counters.  Running out of
  replies with a TSE outstanding is a wait that does not end.
\<close>

fun toall_loop ::
  "recov_env \<Rightarrow> nat \<Rightarrow> (int \<Rightarrow> int) \<Rightarrow> int \<Rightarrow> xa_reply list \<Rightarrow> tm_recov \<Rightarrow> (int \<times> tm_recov) option" where
  "toall_loop e 0 retries err replies r = Some (err, r)"
| "toall_loop e (Suc n) retries err [] r = None"
| "toall_loop e (Suc n) retries err (x # replies) r =
     (let rmid = xr_rmid x;
          bump = (xr_result x = XA_RETRY \<and> xr_int_error x \<noteq> 0);
          retries' = (if bump then retries(rmid := retries rmid + 1) else retries);
          result = (if bump \<and> retries rmid \<ge> TM_LINKRETRY_RETRIES then XAER_RMFAIL else xr_result x)
      in if xr_result x \<ge> XA_OK \<and> \<not> re_has_slot e rmid then None
         else if result = XA_OK \<or> result = XA_RETRY then
           (if \<not> xr_end x \<and> xr_resend x \<noteq> XA_OK then Some (FEBADREPLY, r)
            else do {
              r1 \<leftarrow> recover_xids e rmid (if result = XA_RETRY then [] else xr_xids x) r;
              toall_loop e (if xr_end x \<and> result = XA_OK then n else Suc n) retries' err replies r1 })
         else if result = XAER_RMFAIL then
           toall_loop e n retries' FEBADREPLY replies (recov_act (Recov_fail_rm rmid) r)
         else toall_loop e n retries' FEBADREPLY replies r)"

text \<open>
  \<open>rms\<close> are the results of the first request to each RM in use, in slot order: a failed
  one ends the recovery at once.
\<close>

definition send_xa_recover_toall_TSEs ::
  "recov_env \<Rightarrow> int list \<Rightarrow> xa_reply list \<Rightarrow> tm_recov \<Rightarrow> (int \<times> tm_recov) option" where
  "send_xa_recover_toall_TSEs e sends replies r =
     (if list_all (\<lambda>x. x = XA_OK) sends then toall_loop e (length sends) (\<lambda>_. 0) 0 replies r
      else Some (FEBADREPLY, r))"

text \<open>One XID of a reply, in \<^verbatim>\<open>send_xa_recover\<close>, the request to a single TSE.\<close>

definition recover_xid_single :: "recov_env \<Rightarrow> int \<Rightarrow> transid \<Rightarrow> tm_recov \<Rightarrow> tm_recov option" where
  "recover_xid_single e rmid tid r =
     (if snd tid \<noteq> 0 then Some r
      else if map_get (transid_key tid) (rv_txnList r) \<noteq> None
      then Some (change_tx (transid_key tid) (\<lambda>x. x\<lparr> rt_partic := rmid # rt_partic x,
                   rt_prepared_rms := rt_prepared_rms x + 1, rt_recovering := True \<rparr>) r)
      else do {
        r1 \<leftarrow> new_txinfo e tid r;
        Some (change_tx (transid_key tid) (\<lambda>x. x\<lparr> rt_tx_state := ABORTED, rt_partic := rmid # rt_partic x,
                rt_prepared_rms := rt_prepared_rms x + 1 \<rparr>) r1) })"

primrec recover_xids_single :: "recov_env \<Rightarrow> int \<Rightarrow> transid list \<Rightarrow> tm_recov \<Rightarrow> tm_recov option" where
  "recover_xids_single e rmid [] r = Some r"
| "recover_xids_single e rmid (tid # tids) r = recover_xid_single e rmid tid r \<bind> recover_xids_single e rmid tids"

fun single_loop :: "recov_env \<Rightarrow> int \<Rightarrow> int \<Rightarrow> xa_reply list \<Rightarrow> tm_recov \<Rightarrow> (int \<times> tm_recov) option" where
  "single_loop e rmid retries [] r = None"
| "single_loop e rmid retries (x # replies) r =
     (let bump = (xr_result x = XA_RETRY \<and> xr_int_error x \<noteq> 0);
          result = (if bump \<and> retries \<ge> TM_LINKRETRY_RETRIES then XAER_RMFAIL else xr_result x)
      in if result = XA_OK \<or> result = XA_RETRY then
           (if (result = XA_RETRY \<or> \<not> xr_end x) \<and> xr_resend x \<noteq> XA_OK then Some (FEBADREPLY, r)
            else do {
              r1 \<leftarrow> recover_xids_single e rmid (xr_xids x) r;
              if xr_end x then Some (0, r1)
              else single_loop e rmid (if bump then retries + 1 else retries) replies r1 })
         else Some (FEBADREPLY, r))"

definition send_xa_recover :: "recov_env \<Rightarrow> int \<Rightarrow> int \<Rightarrow> xa_reply list \<Rightarrow> tm_recov \<Rightarrow> (int \<times> tm_recov) option" where
  "send_xa_recover e rmid first_send replies r =
     (if first_send \<noteq> XA_OK then Some (FEBADREPLY, r) else single_loop e rmid 0 replies r)"

section \<open>Resolution\<close>

definition drop_forgotten :: "recov_state \<Rightarrow> bool" where
  "drop_forgotten s = (rs_state s = FORGOTTEN \<and> rs_rms_to_recover s = 0)"

text \<open>The walks fetch the next element before they erase the current one.\<close>

fun remove_forgotten_loop :: "nat \<Rightarrow> recov_state option \<Rightarrow> tm_recov \<Rightarrow> tm_recov option" where
  "remove_forgotten_loop fuel None r = Some r"
| "remove_forgotten_loop 0 (Some s) r = None"
| "remove_forgotten_loop (Suc n) (Some s) r =
     do { key \<leftarrow> map_curr_key (rv_txnStateList r);
          (p, l) \<leftarrow> map_get_next (rv_txnStateList r);
          let r1 = r\<lparr> rv_txnStateList := l \<rparr>;
          remove_forgotten_loop n p
            (if drop_forgotten s
             then (remove_txState key r1)\<lparr> rv_total_txs_to_recover := rv_total_txs_to_recover r1 - 1 \<rparr>
             else r1) }"

definition remove_forgotten_txs :: "tm_recov \<Rightarrow> tm_recov option" where
  "remove_forgotten_txs r =
     (case map_get_first (rv_txnStateList r) of
        (p, l) \<Rightarrow> remove_forgotten_loop (length (mp_map l)) p (r\<lparr> rv_txnStateList := l \<rparr>))"

text \<open>\<^verbatim>\<open>queueTxnObjects\<close>: the transaction object of one state, with the RMs that asked for it.\<close>

definition queue_tx :: "recov_env \<Rightarrow> bool \<Rightarrow> recov_state \<Rightarrow> tm_recov \<Rightarrow> tm_recov option" where
  "queue_tx e ignoreDup s r =
     do { r1 \<leftarrow> new_txinfo e (rs_transid s) r;
          rms \<leftarrow> map_walk (rs_rmList s);
          Some (change_tx (transid_key (rs_transid s))
            (\<lambda>x. x\<lparr> rt_tx_state := rs_state s, rt_abort_flags := rs_abort_flags s,
                   rt_all_partic := (ignoreDup \<and> re_AllRmParticRecov e), rt_recovering := True,
                   rt_partic := rms, rt_prepared_rms := rt_prepared_rms x + int (length rms) \<rparr>) r1) }"

fun queue_loop :: "recov_env \<Rightarrow> bool \<Rightarrow> nat \<Rightarrow> recov_state option \<Rightarrow> tm_recov \<Rightarrow> tm_recov option" where
  "queue_loop e ignoreDup fuel None r = Some r"
| "queue_loop e ignoreDup 0 (Some s) r = None"
| "queue_loop e ignoreDup (Suc n) (Some s) r =
     do { key \<leftarrow> map_curr_key (rv_txnStateList r);
          (hit, r1) \<leftarrow>
            (case map_get key (rv_pool r) of
               None \<Rightarrow>
                 if map_size (rv_txnList r) \<ge> re_maxRecoveringTxns e \<or> map_size (rv_pool r) \<ge> re_maxPoolSize e
                 then Some (True, r)
                 else map_option (Pair False) (queue_tx e ignoreDup s r)
             | Some _ \<Rightarrow> if ignoreDup then Some (False, r) else None);
          if hit then Some r1
          else do {
            (p, l) \<leftarrow> map_get_next (rv_txnStateList r1);
            queue_loop e ignoreDup n p (remove_txState key (r1\<lparr> rv_txnStateList := l \<rparr>)) } }"

definition queueTxnObjects :: "recov_env \<Rightarrow> bool \<Rightarrow> tm_recov \<Rightarrow> tm_recov option" where
  "queueTxnObjects e ignoreDup r =
     (case map_get_first (rv_txnStateList r) of
        (p, l) \<Rightarrow> queue_loop e ignoreDup (length (mp_map l)) p (r\<lparr> rv_txnStateList := l \<rparr>))"

abbreviation (input) MAX_OPEN_RMS :: int where "MAX_OPEN_RMS \<equiv> 1025"

text \<open>\<^verbatim>\<open>resolveTxn\<close>: the new state of the transaction object and what it is driven to.\<close>

definition resolveTxn :: "recov_tx \<Rightarrow> recov_tx \<times> RECOV_STATE_TYPE option" where
  "resolveTxn x =
     (if \<not> rt_in_use x then (x, None)
      else let st = (if rt_tx_state x = HUNGCOMMITTED then COMMITTED
                     else if rt_tx_state x = HUNGABORTED then ABORTING_PART2 else rt_tx_state x);
               x1 = x\<lparr> rt_tx_state := st \<rparr>
           in if st = FORGOTTEN \<or> st = COMMITTED
              then (if rt_prepared_rms x \<le> 0 then x1\<lparr> rt_tx_state := FORGETTING \<rparr> else x1, Some RECOV_REDRIVE_COMMIT)
              else if aborting_state st
              then (if rt_prepared_rms x \<le> 0 then x1\<lparr> rt_tx_state := ABORTED \<rparr> else x1, Some RECOV_REDRIVE_ROLLBACK)
              else if st = ACTIVE
              then (x1, Some (if rt_prepared_rms x \<le> 0 then RECOV_REDRIVE_ROLLBACK
                              else if rt_prepared_rms x = MAX_OPEN_RMS then RECOV_REDRIVE_COMMIT
                              else RECOV_REDRIVE_ROLLBACK))
              else (x1, None))"

definition resolve_key :: "int \<Rightarrow> tm_recov \<Rightarrow> tm_recov option" where
  "resolve_key key r =
     (case map_get key (rv_pool r) of
        None \<Rightarrow> None
      | Some x \<Rightarrow>
          (case resolveTxn x of
             (x', d) \<Rightarrow>
               Some (case d of
                       None \<Rightarrow> change_tx key (\<lambda>_. x') r
                     | Some k \<Rightarrow> recov_act (Recov_redrive key k) (change_tx key (\<lambda>_. x') r))))"

fun resolve_loop :: "nat \<Rightarrow> int option \<Rightarrow> tm_recov \<Rightarrow> tm_recov option" where
  "resolve_loop fuel None r = Some r"
| "resolve_loop 0 (Some k) r = None"
| "resolve_loop (Suc n) (Some k) r =
     do { r1 \<leftarrow> resolve_key k r;
          key \<leftarrow> map_curr_key (rv_txnList r1);
          (p, l) \<leftarrow> map_get_next (rv_txnList r1);
          resolve_loop n p (remove_txinfo key (r1\<lparr> rv_txnList := l \<rparr>)) }"

definition resolve_in_doubt_txs :: "int \<Rightarrow> int \<Rightarrow> tm_recov \<Rightarrow> tm_recov option" where
  "resolve_in_doubt_txs dtm delay r =
     (case map_get_first (rv_txnList r) of
        (p, l) \<Rightarrow> do {
          r1 \<leftarrow> resolve_loop (length (mp_map l)) p (r\<lparr> rv_txnList := l \<rparr>);
          Some (recov_act (Recov_wait dtm delay) r1) })"

section \<open>The three recoveries\<close>

text \<open>\<^verbatim>\<open>recover_system\<close>: \<open>sends\<close> and \<open>replies\<close> are those of the question to all TSEs.\<close>

definition recover_system ::
  "recov_env \<Rightarrow> audit_rec list \<Rightarrow> int list \<Rightarrow> xa_reply list \<Rightarrow> tm_recov \<Rightarrow> (int \<times> tm_recov) option" where
  "recover_system e trail sends replies r =
     (let r0 = recov_act (Recov_registry 0) r
      in if scantrail_cleanshutdown e trail = FETMRECOVERY_NOT_NEEDED
         then Some (0, recov_act Recov_sys_recov_end (recov_act Recov_control_point (recov_act Recov_control_point r0)))
         else do {
           (err, r1) \<leftarrow> send_xa_recover_toall_TSEs e sends replies r0;
           (err2, r2) \<leftarrow> scantrail_bldgtxlist e trail (- 1) (err \<noteq> 0) r1;
           let r3 = recov_act (Recov_registry (rv_total_txs_to_recover r2))
                      (r2\<lparr> rv_max_txs_to_recover := rv_total_txs_to_recover r2 \<rparr>);
           if err2 = 0
           then do { r4 \<leftarrow> remove_forgotten_txs r3;
                     r5 \<leftarrow> queueTxnObjects e False r4;
                     r6 \<leftarrow> resolve_in_doubt_txs (- 1) 0 r5;
                     Some (0, r6) }
           else Some (err2, recov_act (Recov_shutdown_abrupt err2) r3) })"

definition recover_dtm_death :: "recov_env \<Rightarrow> audit_rec list \<Rightarrow> int \<Rightarrow> tm_recov \<Rightarrow> (int \<times> tm_recov) option" where
  "recover_dtm_death e trail dtm r =
     (if \<not> re_lead_tm e then None
      else do {
        (err, r1) \<leftarrow> scantrail_bldgtxlist e trail dtm False (recov_act (Recov_nodeDown dtm) r);
        let r2 = (recov_act (Recov_listbuilt_sync dtm) (r1\<lparr> rv_listBuilt := True \<rparr>))
                   \<lparr> rv_max_txs_to_recover := rv_total_txs_to_recover r1 \<rparr>;
        r5 \<leftarrow> (if err = 0
               then do { r3 \<leftarrow> remove_forgotten_txs r2;
                         r4 \<leftarrow> queueTxnObjects e True r3;
                         resolve_in_doubt_txs dtm 0 r4 }
               else Some r2);
        Some (err, if err = 0 \<and> rv_total_txs_to_recover r5 = 0
                   then recov_act (Recov_registry 0) r5 else r5) })"

definition recover_tse_restart ::
  "recov_env \<Rightarrow> int \<Rightarrow> int \<Rightarrow> xa_reply list \<Rightarrow> tm_recov \<Rightarrow> (int \<times> tm_recov) option" where
  "recover_tse_restart e rmid first_send replies r =
     do { (err, r1) \<leftarrow> send_xa_recover e rmid first_send replies r;
          if err = 0
          then map_option (Pair 0) (resolve_in_doubt_txs (re_nid e) 0 r1)
          else Some (err, r1) }"

definition completeRecovery :: "tm_recov \<Rightarrow> tm_recov" where
  "completeRecovery r =
     recov_act Recov_sys_recov_end
       (recov_act Recov_control_point (recov_act Recov_control_point (recov_act (Recov_registry 0) r)))"

section \<open>What the scan sees of one transaction\<close>

lemma map_change_get:
  "map_get k' (map_change k f m) = (if k' = k then map_option f (map_get k m) else map_get k' m)"
proof -
  have "map_of (map (\<lambda>(k', v). (k', if k' = k then f v else v)) xs) k' =
      (if k' = k then map_option f (map_of xs k) else map_of xs k')" for xs
    by (induction xs) auto
  then show ?thesis by (simp add: map_get_def map_change_def)
qed

lemma map_change_ok [simp]: "map_ok (map_change k f m) = map_ok m"
  by (simp add: map_ok_def map_change_def comp_def case_prod_unfold)

lemma transid_key_inj [simp]: "transid_key t = transid_key t' \<longleftrightarrow> t = t'"
  by (cases t; cases t') (simp add: transid_key_def txkey_id_inj)

lemma get_change_txState:
  "get_txState t' (change_txState t f r) = (if t' = t then map_option f (get_txState t r) else get_txState t' r)"
  by (auto simp: get_txState_def change_txState_def map_change_get)

lemma add_txState_get:
  assumes "add_txState t st r = Some r'" and "map_ok (rv_txnStateList r)"
  shows "map_ok (rv_txnStateList r')"
    and "get_txState t' r' = (if t' = t then Some (recov_state_new t st) else get_txState t' r)"
proof -
  obtain l where l: "map_put (transid_key t) (recov_state_new t st) (rv_txnStateList r) = Some l"
      "rv_txnStateList r' = l"
    using assms(1) by (auto simp: add_txState_def bind_eq_Some_conv)
  show "map_ok (rv_txnStateList r')" using tmm.put_ok [OF assms(2) l(1)] l(2) by simp
  show "get_txState t' r' = (if t' = t then Some (recov_state_new t st) else get_txState t' r)"
    using tmm.put_get [OF assms(2) l(1), of "transid_key t'"] l(2) by (simp add: get_txState_def)
qed

text \<open>The records the scan reads: those before the second control point.\<close>

fun scan_window :: "bool \<Rightarrow> audit_rec list \<Rightarrow> (transid \<times> trans_state \<times> int) list" where
  "scan_window first_cp [] = []"
| "scan_window first_cp (TM_Control_Point # recs) = (if first_cp then [] else scan_window True recs)"
| "scan_window first_cp (TM_Transaction_State tid ts flags # recs) = (tid, ts, flags) # scan_window first_cp recs"
| "scan_window first_cp (rec # recs) = scan_window first_cp recs"

primrec scan_list ::
  "recov_env \<Rightarrow> int \<Rightarrow> bool \<Rightarrow> (transid \<times> trans_state \<times> int) list \<Rightarrow> tm_recov \<Rightarrow> tm_recov option" where
  "scan_list e dead scan_all [] r = Some r"
| "scan_list e dead scan_all (x # xs) r =
     scan_record e dead scan_all (fst x) (fst (snd x)) (snd (snd x)) r \<bind> scan_list e dead scan_all xs"

lemma scan_loop_window:
  "scan_loop e dead scan_all first_cp recs r = scan_list e dead scan_all (scan_window first_cp recs) r"
  by (induction e dead scan_all first_cp recs r rule: scan_loop.induct) (auto intro: Option.bind_cong)

text \<open>The same scan, for one transaction alone.\<close>

primrec tx_scan ::
  "bool \<Rightarrow> bool \<Rightarrow> transid \<Rightarrow> (trans_state \<times> int) list \<Rightarrow> recov_state option \<Rightarrow> recov_state option option" where
  "tx_scan ov scan_all tid [] p = Some p"
| "tx_scan ov scan_all tid (x # xs) p =
     (case p of
        Some s \<Rightarrow> scan_state ov False (fst x) (snd x) s \<bind> (\<lambda>s'. tx_scan ov scan_all tid xs (Some s'))
      | None \<Rightarrow>
          if scan_all
          then scan_state ov True (fst x) (snd x) (recov_state_new tid NOTX) \<bind>
                 (\<lambda>s'. tx_scan ov scan_all tid xs (Some s'))
          else tx_scan ov scan_all tid xs None)"

definition tx_records :: "transid \<Rightarrow> (transid \<times> trans_state \<times> int) list \<Rightarrow> (trans_state \<times> int) list" where
  "tx_records tid ws = map snd (filter (\<lambda>w. fst w = tid) ws)"

lemma scan_record_ok:
  assumes "scan_record e dead scan_all t ts flags r = Some r'" and "map_ok (rv_txnStateList r)"
  shows "map_ok (rv_txnStateList r')"
  using assms
  by (auto simp: scan_record_def bind_eq_Some_conv change_txState_def split: if_splits option.splits
      dest: add_txState_get(1))

lemma scan_record_other:
  assumes "scan_record e dead scan_all t ts flags r = Some r'" and "map_ok (rv_txnStateList r)" and "tid \<noteq> t"
  shows "get_txState tid r' = get_txState tid r"
  using assms
  by (auto simp: scan_record_def bind_eq_Some_conv get_change_txState split: if_splits option.splits
      dest: add_txState_get(2))

lemma scan_record_same:
  assumes "scan_record e dead scan_all tid ts flags r = Some r'" and "map_ok (rv_txnStateList r)"
    and "dead = - 1 \<or> sint (fst tid) = dead"
  shows "tx_scan (re_override e) scan_all tid [(ts, flags)] (get_txState tid r) = Some (get_txState tid r')"
  using assms
  by (auto simp: scan_record_def bind_eq_Some_conv get_change_txState split: if_splits option.splits
      dest: add_txState_get(2) [of tid NOTX r _ tid])

lemma tx_scan_Cons:
  "tx_scan ov scan_all tid (x # xs) p = tx_scan ov scan_all tid [x] p \<bind> tx_scan ov scan_all tid xs"
  by (auto split: option.splits simp: Option.bind_assoc)

lemma tx_scan_None: "tx_scan ov False tid xs None = Some None"
  by (induction xs) simp_all

lemma scan_list_tx:
  assumes "scan_list e dead scan_all ws r = Some r'" and "map_ok (rv_txnStateList r)"
    and "dead = - 1 \<or> sint (fst tid) = dead"
  shows "tx_scan (re_override e) scan_all tid (tx_records tid ws) (get_txState tid r) = Some (get_txState tid r')"
  using assms
proof (induction ws arbitrary: r)
  case (Cons w ws)
  obtain t ts fl where w: "w = (t, ts, fl)" by (cases w)
  obtain r1 where r1: "scan_record e dead scan_all t ts fl r = Some r1" "scan_list e dead scan_all ws r1 = Some r'"
    using Cons.prems(1) w by (auto simp: bind_eq_Some_conv)
  have ok1: "map_ok (rv_txnStateList r1)" by (rule scan_record_ok [OF r1(1) Cons.prems(2)])
  have ih: "tx_scan (re_override e) scan_all tid (tx_records tid ws) (get_txState tid r1) = Some (get_txState tid r')"
    by (rule Cons.IH [OF r1(2) ok1 Cons.prems(3)])
  show ?case
  proof (cases "t = tid")
    case True
    have "tx_scan (re_override e) scan_all tid [(ts, fl)] (get_txState tid r) = Some (get_txState tid r1)"
      using scan_record_same [OF r1(1) [unfolded True] Cons.prems(2,3)] .
    then show ?thesis
      using ih True w tx_scan_Cons [of _ _ _ "(ts, fl)" "tx_records tid ws"] by (simp add: tx_records_def)
  next
    case False
    then have "get_txState tid r1 = get_txState tid r"
      using scan_record_other [OF r1(1) Cons.prems(2), of tid] by simp
    then show ?thesis using ih False w by (simp add: tx_records_def)
  qed
qed (simp add: tx_records_def)

section \<open>The outcome\<close>

text \<open>A transaction is committed by recovery from these states, and by these records.\<close>

definition commit_state :: "TM_TX_STATE \<Rightarrow> bool" where
  "commit_state st = (st = COMMITTED \<or> st = FORGOTTEN)"

definition commit_log_record :: "trans_state \<Rightarrow> bool" where
  "commit_log_record ts = (ts = Committed_Trans_State \<or> ts = HungCommitted_Trans_State \<or> ts = Forgotten_Trans_State)"

definition plain_record :: "trans_state \<Rightarrow> bool" where
  "plain_record ts =
     (case ts of Prepared_Trans_State \<Rightarrow> False | Unknown_Trans_State _ \<Rightarrow> False | _ \<Rightarrow> True)"

lemma scan_state_commit:
  assumes "scan_state ov new ts fl s = Some s'"
  shows "commit_log_record ts \<Longrightarrow> commit_state (rs_state s')"
    and "\<not> new \<Longrightarrow> commit_state (rs_state s) \<Longrightarrow> commit_state (rs_state s')"
    and "\<not> commit_log_record ts \<Longrightarrow> \<not> commit_state (rs_state s) \<Longrightarrow> \<not> commit_state (rs_state s')"
  using assms
  by (auto simp: scan_state_def commit_log_record_def commit_state_def split: trans_state.splits if_splits)

definition settled_state :: "TM_TX_STATE \<Rightarrow> bool" where
  "settled_state st = (commit_state st \<or> aborting_state st \<or> st = ACTIVE)"

lemma scan_state_settled:
  assumes "scan_state ov new ts fl s = Some s'" and "plain_record ts" and "new \<or> settled_state (rs_state s)"
  shows "settled_state (rs_state s')"
  using assms
  by (auto simp: scan_state_def plain_record_def settled_state_def commit_state_def aborting_state_def
      split: trans_state.splits if_splits)

lemma tx_scan_outcome:
  assumes "tx_scan ov scan_all tid xs p = Some (Some s')"
    and "case p of None \<Rightarrow> True | Some s \<Rightarrow> settled_state (rs_state s)"
    and "\<forall>x \<in> set xs. plain_record (fst x)"
  shows "settled_state (rs_state s')
    \<and> (commit_state (rs_state s') \<longleftrightarrow>
        (\<exists>s. p = Some s \<and> commit_state (rs_state s)) \<or> (\<exists>x \<in> set xs. commit_log_record (fst x)))"
  using assms
proof (induction xs arbitrary: p)
  case (Cons x xs)
  have notx: "\<not> commit_state NOTX" by (simp add: commit_state_def)
  show ?case
  proof (cases p)
    case None
    with Cons.prems(1) have "scan_all"
      using Cons.prems(1) tx_scan_None [of ov tid] by (cases scan_all) auto
    then obtain s1 where 1: "scan_state ov True (fst x) (snd x) (recov_state_new tid NOTX) = Some s1"
        "tx_scan ov scan_all tid xs (Some s1) = Some (Some s')"
      using Cons.prems(1) None by (auto simp: bind_eq_Some_conv)
    have st: "settled_state (rs_state s1)" using scan_state_settled [OF 1(1)] Cons.prems(3) by simp
    have "commit_state (rs_state s1) \<longleftrightarrow> commit_log_record (fst x)"
      using scan_state_commit(1,3) [OF 1(1)] notx by (auto simp: recov_state_new_def)
    then show ?thesis using Cons.IH [OF 1(2)] st Cons.prems(3) None by auto
  next
    case (Some s)
    then obtain s1 where 1: "scan_state ov False (fst x) (snd x) s = Some s1"
        "tx_scan ov scan_all tid xs (Some s1) = Some (Some s')"
      using Cons.prems(1) by (auto simp: bind_eq_Some_conv)
    have st: "settled_state (rs_state s1)"
      using scan_state_settled [OF 1(1)] Cons.prems(2,3) Some by simp
    have "commit_state (rs_state s1) \<longleftrightarrow> commit_state (rs_state s) \<or> commit_log_record (fst x)"
      using scan_state_commit [OF 1(1)] by auto
    then show ?thesis using Cons.IH [OF 1(2)] st Cons.prems(3) Some by auto
  qed
qed auto

lemma resolve_settled:
  assumes "settled_state (rt_tx_state x)" and "rt_in_use x" and "rt_prepared_rms x < MAX_OPEN_RMS"
  shows "snd (resolveTxn x) =
    Some (if commit_state (rt_tx_state x) then RECOV_REDRIVE_COMMIT else RECOV_REDRIVE_ROLLBACK)"
  using assms
  by (auto simp: resolveTxn_def settled_state_def commit_state_def aborting_state_def Let_def)

section \<open>Walks that erase\<close>

lemma smap_after_split:
  assumes "sorted_wrt (<) (map fst (pre @ (k, v) # post))"
  shows "smap_after k (pre @ (k, v) # post) = (case post of [] \<Rightarrow> None | p # _ \<Rightarrow> Some p)"
  using smap_after_nth [OF assms, of "length pre"] by (auto simp: nth_append split: list.splits)

lemma map_next_split:
  assumes "map_ok m" and "mp_map m = pre @ (k, v) # post" and "mp_iterator m = Iter_at k"
  shows "map_get_next m =
    Some (case post of [] \<Rightarrow> (None, m\<lparr> mp_iterator := Iter_end \<rparr>)
                     | p # _ \<Rightarrow> (Some (snd p), m\<lparr> mp_iterator := Iter_at (fst p) \<rparr>))"
  using smap_after_split [of pre k v post] assms
  by (auto simp: map_get_next_def map_ok_def split: list.splits)

lemma smap_erase_split:
  assumes "sorted_wrt (<) (map fst (pre @ (k, v) # post))"
  shows "smap_erase k (pre @ (k, v) # post) = pre @ post"
proof -
  have "\<forall>p \<in> set pre. fst p \<noteq> k" "\<forall>p \<in> set post. fst p \<noteq> k"
    using assms by (auto simp: sorted_wrt_append)
  then show ?thesis by (simp add: smap_erase_def)
qed

lemma remove_forgotten_walk:
  assumes "map_ok (rv_txnStateList r)" and "mp_map (rv_txnStateList r) = pre @ (k, s) # post"
    and "mp_iterator (rv_txnStateList r) = Iter_at k" and "length post < fuel"
    and "\<forall>p \<in> set (pre @ (k, s) # post). fst p \<noteq> 0"
  shows "\<exists>r'. remove_forgotten_loop fuel (Some s) r = Some r'
    \<and> mp_map (rv_txnStateList r') = pre @ filter (\<lambda>p. \<not> drop_forgotten (snd p)) ((k, s) # post)
    \<and> rv_total_txs_to_recover r' =
        rv_total_txs_to_recover r - int (length (filter (\<lambda>p. drop_forgotten (snd p)) ((k, s) # post)))"
  using assms
proof (induction post arbitrary: r pre k s fuel)
  case Nil
  then obtain n where n: "fuel = Suc n" by (cases fuel) auto
  have sorted: "sorted_wrt (<) (map fst (pre @ (k, s) # []))" using Nil.prems(1,2) by (simp add: map_ok_def)
  show ?case
    using map_next_split [OF Nil.prems(1-3)] Nil.prems smap_erase_split [OF sorted]
    by (simp add: n map_curr_key_def remove_txState_def map_erase_def Let_def)
next
  case (Cons p post)
  obtain k1 s1 where p: "p = (k1, s1)" by (cases p)
  obtain n where n: "fuel = Suc n" using Cons.prems(4) by (cases fuel) auto
  have sorted: "sorted_wrt (<) (map fst (pre @ (k, s) # (k1, s1) # post))"
    using Cons.prems(1,2) p by (simp add: map_ok_def)
  have kk: "k < k1" using sorted by (simp add: sorted_wrt_append)
  define r1 where "r1 = r\<lparr> rv_txnStateList := (rv_txnStateList r)\<lparr> mp_iterator := Iter_at k1 \<rparr> \<rparr>"
  define r2 where "r2 = (if drop_forgotten s
      then (remove_txState k r1)\<lparr> rv_total_txs_to_recover := rv_total_txs_to_recover r1 - 1 \<rparr> else r1)"
  have step: "remove_forgotten_loop fuel (Some s) r = remove_forgotten_loop n (Some s1) r2"
    using map_next_split [OF Cons.prems(1-3)] Cons.prems(3)
    by (simp add: n p map_curr_key_def r1_def r2_def Let_def)
  let ?pre = "if drop_forgotten s then pre else pre @ [(k, s)]"
  have l2: "mp_map (rv_txnStateList r2) = ?pre @ (k1, s1) # post"
    using Cons.prems(2,5) p smap_erase_split [OF sorted]
    by (simp add: r2_def r1_def remove_txState_def map_erase_def)
  have it2: "mp_iterator (rv_txnStateList r2) = Iter_at k1"
    using Cons.prems(5) kk by (simp add: r2_def r1_def remove_txState_def map_erase_def)
  have ok2: "map_ok (rv_txnStateList r2)"
    using sorted l2 by (auto simp: map_ok_def sorted_wrt_append split: if_splits)
  have nz: "\<forall>q \<in> set (?pre @ (k1, s1) # post). fst q \<noteq> 0" using Cons.prems(5) p by auto
  have "rv_total_txs_to_recover r2 = rv_total_txs_to_recover r - (if drop_forgotten s then 1 else 0)"
    by (simp add: r2_def r1_def)
  moreover obtain r' where "remove_forgotten_loop n (Some s1) r2 = Some r'"
    "mp_map (rv_txnStateList r') = ?pre @ filter (\<lambda>p. \<not> drop_forgotten (snd p)) ((k1, s1) # post)"
    "rv_total_txs_to_recover r' =
        rv_total_txs_to_recover r2 - int (length (filter (\<lambda>p. drop_forgotten (snd p)) ((k1, s1) # post)))"
    using Cons.IH [OF ok2 l2 it2 _ nz, of n] Cons.prems(4) n by auto
  ultimately show ?case using step p by auto
qed

section \<open>Properties\<close>


definition recov_env_sample :: recov_env where
  "recov_env_sample =
     \<lparr> re_nid = 0, re_lead_tm = True, re_override = False, re_optimize = False, re_maxRecoveringTxns = 9,
       re_maxPoolSize = 20, re_AllRmParticRecov = True, re_has_slot = (\<lambda>_. True) \<rparr>"

text \<open>A log with a committed, a running and an old committed transaction; newest record first.\<close>

definition trail_sample :: "audit_rec list" where
  "trail_sample =
     [TM_Transaction_State (1, 7) Committed_Trans_State 0, TM_Control_Point,
      TM_Transaction_State (1, 8) Active_Trans_State 0, TM_Transaction_State (1, 7) Active_Trans_State 0,
      TM_Control_Point, TM_Transaction_State (1, 8) Committed_Trans_State 0]"


text \<open>
  C20: The pruning of the state list takes out exactly the forgotten transactions no TSE asked
  about, and counts them off, although it erases from the map it walks over.
\<close>

theorem remove_forgotten_exact:
  assumes "map_ok (rv_txnStateList r)" and "\<forall>p \<in> set (mp_map (rv_txnStateList r)). fst p \<noteq> 0"
  shows "\<exists>r'. remove_forgotten_txs r = Some r'
    \<and> mp_map (rv_txnStateList r') = filter (\<lambda>p. \<not> drop_forgotten (snd p)) (mp_map (rv_txnStateList r))
    \<and> rv_total_txs_to_recover r' = rv_total_txs_to_recover r
        - int (length (filter (\<lambda>p. drop_forgotten (snd p)) (mp_map (rv_txnStateList r))))"
proof (cases "mp_map (rv_txnStateList r)")
  case Nil
  then show ?thesis by (simp add: remove_forgotten_txs_def map_get_first_def)
next
  case (Cons p post)
  obtain k s where p: "p = (k, s)" by (cases p)
  let ?r = "r\<lparr> rv_txnStateList := (rv_txnStateList r)\<lparr> mp_iterator := Iter_at k \<rparr> \<rparr>"
  have "map_ok (rv_txnStateList ?r)" "mp_map (rv_txnStateList ?r) = [] @ (k, s) # post"
    using assms(1) Cons p by (simp_all add: map_ok_def)
  from remove_forgotten_walk [OF this, of "Suc (length post)"] show ?thesis
    using assms(2) Cons p by (simp add: remove_forgotten_txs_def map_get_first_def)
qed

theorem remove_forgotten_exact_witness:
  "\<exists>r r'. scan_loop recov_env_sample (- 1) True False
       [TM_Transaction_State (1, 6) Forgotten_Trans_State 0, TM_Transaction_State (1, 7) Committed_Trans_State 0]
       recov_new = Some r
     \<and> remove_forgotten_txs r = Some r' \<and> map fst (mp_map (rv_txnStateList r')) = [transid_key (1, 7)]
     \<and> rv_total_txs_to_recover r' = 1"
proof -
  let ?run = "scan_loop recov_env_sample (- 1) True False
       [TM_Transaction_State (1, 6) Forgotten_Trans_State 0, TM_Transaction_State (1, 7) Committed_Trans_State 0] recov_new"
  have "(case map_option (Pair True) ?run of None \<Rightarrow> False | Some (b, _) \<Rightarrow> b = True)" by code_simp
  then obtain r where r: "?run = Some r" by (auto split: option.splits)
  have "case ?run of None \<Rightarrow> False | Some r \<Rightarrow> map_ok (rv_txnStateList r)"
      "case ?run of None \<Rightarrow> False | Some r \<Rightarrow> (\<forall>p \<in> set (mp_map (rv_txnStateList r)). fst p \<noteq> 0)"
      "case ?run of None \<Rightarrow> False | Some r \<Rightarrow> rv_total_txs_to_recover r
         - int (length (filter (\<lambda>p. drop_forgotten (snd p)) (mp_map (rv_txnStateList r)))) = 1"
      "case ?run of None \<Rightarrow> False | Some r \<Rightarrow>
         map fst (filter (\<lambda>p. \<not> drop_forgotten (snd p)) (mp_map (rv_txnStateList r))) = [transid_key (1, 7)]"
    by code_simp+
  then show ?thesis using remove_forgotten_exact [of r] r by auto
qed

text \<open>
  C21: System recovery never recovers anything.  \<^verbatim>\<open>scantrail_cleanshutdown\<close> starts from the answer
  that no recovery is needed and has no branch that changes it, so whatever the log holds and
  the TSEs would report, recovery declares itself complete at once.
\<close>

theorem system_recovery_skipped:
  "recover_system e trail sends replies r =
     Some (0, r\<lparr> rv_acts := rv_acts r @
       [Recov_registry 0, Recov_control_point, Recov_control_point, Recov_sys_recov_end] \<rparr>)"
  by (simp add: recover_system_def scantrail_cleanshutdown_def recov_act_def Let_def)

lemma scan_unknown:
  assumes "mp_map (rv_txnStateList r) = []"
  shows "scan_loop e dead False first_cp trail r = Some r"
proof -
  have "scan_record e dead False t ts fl r = Some r" for t ts fl
    using assms by (simp add: scan_record_def get_txState_def map_get_def)
  then have "scan_list e dead False ws r = Some r" for ws by (induction ws) simp_all
  then show ?thesis by (simp add: scan_loop_window)
qed

lemma resolve_empty:
  assumes "mp_map (rv_txnList r) = []"
  shows "resolve_in_doubt_txs dtm delay r = Some (recov_act (Recov_wait dtm delay)
    (r\<lparr> rv_txnList := (rv_txnList r)\<lparr> mp_iterator := Iter_end \<rparr> \<rparr>))"
  using assms by (simp add: resolve_in_doubt_txs_def map_get_first_def)

text \<open>
  C23: The other two recoveries find nothing either.  After the death of a TM the state list is
  still empty when the log is scanned, since the TSEs are no longer asked, and the scan
  then ignores every record.  After the restart of a TSE every XID with a sequence number
  other than 0 is skipped, with the trace message of the opposite case.
\<close>

theorem node_and_tse_recovery_find_nothing:
  assumes "re_lead_tm e" and "mp_map (rv_txnStateList r) = []" and "mp_map (rv_txnList r) = []"
  shows "(\<exists>err r'. recover_dtm_death e trail dtm r = Some (err, r')
      \<and> (\<forall>k d. Recov_redrive k d \<notin> set (drop (length (rv_acts r)) (rv_acts r'))))
    \<and> (\<forall>rmid replies err r'.
        list_all (\<lambda>x. list_all (\<lambda>tid. snd tid \<noteq> 0) (xr_xids x)) replies \<longrightarrow>
        recover_tse_restart e rmid XA_OK replies r = Some (err, r') \<longrightarrow>
        (\<forall>k d. Recov_redrive k d \<notin> set (drop (length (rv_acts r)) (rv_acts r'))))"
proof -
  have dtm: "\<exists>err r'. recover_dtm_death e trail dtm r = Some (err, r')
      \<and> (\<forall>k d. Recov_redrive k d \<notin> set (drop (length (rv_acts r)) (rv_acts r')))"
    using assms scan_unknown [of "recov_act (Recov_nodeDown dtm) r" e dtm False trail]
    by (simp add: recover_dtm_death_def scantrail_bldgtxlist_def recov_act_def remove_forgotten_txs_def
        queueTxnObjects_def map_get_first_def resolve_in_doubt_txs_def Let_def)
  have xids: "list_all (\<lambda>tid. snd tid \<noteq> 0) tids \<Longrightarrow> recover_xids_single e rmid tids r = Some r" for tids rmid
    by (induction tids) (simp_all add: recover_xid_single_def)
  have single: "r1 = r" if "list_all (\<lambda>x. list_all (\<lambda>tid. snd tid \<noteq> 0) (xr_xids x)) replies"
      "single_loop e rmid n replies r = Some (err, r1)" for replies rmid n err r1
    using that by (induction replies arbitrary: n) (auto simp: Let_def xids split: if_splits)
  have "\<forall>k d. Recov_redrive k d \<notin> set (drop (length (rv_acts r)) (rv_acts r'))"
    if xs: "list_all (\<lambda>x. list_all (\<lambda>tid. snd tid \<noteq> 0) (xr_xids x)) replies"
      and run: "recover_tse_restart e rmid XA_OK replies r = Some (err, r')" for rmid replies err r'
  proof -
    obtain err1 r1 where 1: "single_loop e rmid 0 replies r = Some (err1, r1)"
        "(if err1 = 0 then map_option (Pair 0) (resolve_in_doubt_txs (re_nid e) 0 r1) else Some (err1, r1)) = Some (err, r')"
      using run by (auto simp: recover_tse_restart_def send_xa_recover_def bind_eq_Some_conv)
    have "r1 = r" by (rule single [OF xs 1(1)])
    then show ?thesis
      using 1(2) resolve_empty [OF assms(3)] by (auto simp: recov_act_def split: if_splits)
  qed
  with dtm show ?thesis by blast
qed

definition xa_reply_sample :: xa_reply where
  "xa_reply_sample =
     \<lparr> xr_result = XA_OK, xr_rmid = 3, xr_xids = [(1, 7)], xr_end = True, xr_int_error = 0, xr_resend = XA_OK \<rparr>"

theorem node_and_tse_recovery_find_nothing_witness:
  "\<exists>err r'. recover_dtm_death recov_env_sample trail_sample 1 recov_new = Some (err, r')
     \<and> (\<forall>k d. Recov_redrive k d \<notin> set (rv_acts r'))"
proof -
  have "re_lead_tm recov_env_sample" "mp_map (rv_txnStateList recov_new) = []" "mp_map (rv_txnList recov_new) = []"
      "rv_acts recov_new = []"
    by code_simp+
  then show ?thesis
    using node_and_tse_recovery_find_nothing [of recov_env_sample recov_new trail_sample 1] by auto
qed


definition asked_sample :: tm_recov where
  "asked_sample = the (recover_xids recov_env_sample 3 [(1, 7)] recov_new)"


end
