(* ===== verification/Sort_Prelude.thy ===== *)
theory Sort_Prelude
  imports Tm_Prelude "HOL-Library.Multiset" "HOL-Library.Word" "HOL-Library.List_Lexorder"
begin

text \<open>
  What the parts of the SQL sort library (\<^verbatim>\<open>sql/sort\<close>) share: keys and their comparison
  (\<^verbatim>\<open>SortAlgo.cpp\<close>, \<^verbatim>\<open>str_cmp\<close> of \<^verbatim>\<open>sql/common/str.h\<close>), the records (\<^verbatim>\<open>Record.cpp\<close>), and the array of
  keys that is sorted in place.  An index is a signed number as in the code; an access outside the array is
  \<^const>\<open>None\<close>.
\<close>

section \<open>Keys\<close>

type_synonym byte = "8 word"

abbreviation (input) KEYS_ARE_EQUAL :: int where "KEYS_ARE_EQUAL \<equiv> 0"
abbreviation (input) KEY1_IS_SMALLER :: int where "KEY1_IS_SMALLER \<equiv> - 1"
abbreviation (input) KEY1_IS_GREATER :: int where "KEY1_IS_GREATER \<equiv> 1"

text \<open>\<^verbatim>\<open>memcmp\<close>, of which the code uses the sign only.  Bytes beyond the end of a key are not looked at.\<close>

fun memcmp :: "byte list \<Rightarrow> byte list \<Rightarrow> nat \<Rightarrow> int" where
  "memcmp (x # l) (y # r) (Suc n) = (if x = y then memcmp l r n else if x < y then - 1 else 1)"
| "memcmp _ _ _ = 0"

definition str_cmp :: "byte list \<Rightarrow> byte list \<Rightarrow> nat \<Rightarrow> int" where
  "str_cmp l r n = (let result = memcmp l r n in if result = 0 then 0 else if result > 0 then 1 else - 1)"

text \<open>\<^verbatim>\<open>SortAlgo::compare\<close>; a NULL key is \<^const>\<open>None\<close>.\<close>

definition compare_key :: "nat \<Rightarrow> byte list option \<Rightarrow> byte list option \<Rightarrow> int" where
  "compare_key keySize key1 key2 =
     (case (key1, key2) of
        (Some k1, Some k2) \<Rightarrow> str_cmp k1 k2 keySize
      | (None, None) \<Rightarrow> KEYS_ARE_EQUAL
      | (None, Some _) \<Rightarrow> KEY1_IS_SMALLER
      | (Some _, None) \<Rightarrow> KEY1_IS_GREATER)"

lemma memcmp_refl: "memcmp k k n = 0"
proof (induction k arbitrary: n)
  case (Cons x k)
  then show ?case by (cases n) simp_all
qed simp

lemma compare_key_refl [simp]: "compare_key n k k = 0"
  by (simp add: compare_key_def str_cmp_def memcmp_refl split: option.splits)

lemma memcmp_sign: "memcmp l r n \<in> {- 1, 0, 1}"
  by (induction l r n rule: memcmp.induct) simp_all

lemma memcmp_lex:
  assumes "n \<le> length l" and "n \<le> length r"
  shows "memcmp l r n = (if take n l < take n r then - 1 else if take n r < take n l then 1 else 0)"
  using assms by (induction l r n rule: memcmp.induct) auto

text \<open>On keys with enough bytes the comparison is the lexicographic order of the key parts.\<close>

lemma compare_key_smaller:
  assumes "n \<le> length k1" and "n \<le> length k2"
  shows "compare_key n (Some k1) (Some k2) \<le> - 1 \<longleftrightarrow> take n k1 < take n k2"
  using assms by (auto simp: compare_key_def str_cmp_def memcmp_lex Let_def)

lemma compare_key_greater:
  assumes "n \<le> length k1" and "n \<le> length k2"
  shows "1 \<le> compare_key n (Some k1) (Some k2) \<longleftrightarrow> take n k2 < take n k1"
  using assms by (auto simp: compare_key_def str_cmp_def memcmp_lex Let_def)

section \<open>Records\<close>

text \<open>\<^verbatim>\<open>Record\<close>: the bytes, their number, and the tuple the bytes belong to.\<close>

record sort_rec =
  rc_rec :: "byte list"
  rc_recSize :: nat
  rc_tupp :: "nat option"

text \<open>\<^verbatim>\<open>extractKey\<close>; the key starts behind the bytes that hold the length of the record.\<close>

definition extractKey :: "nat \<Rightarrow> sort_rec \<Rightarrow> byte list" where
  "extractKey offset r = drop offset (rc_rec r)"

text \<open>\<^verbatim>\<open>RecKeyBuffer\<close>: the elements of the array that is sorted.\<close>

record RecKeyBuffer =
  rk_key :: "byte list"
  rk_rec :: sort_rec

section \<open>The array\<close>

definition in_array :: "'a list \<Rightarrow> int \<Rightarrow> bool" where
  "in_array xs i = (0 \<le> i \<and> i < int (length xs))"

definition array_get :: "'a list \<Rightarrow> int \<Rightarrow> 'a option" where
  "array_get xs i = (if in_array xs i then Some (xs ! nat i) else None)"

definition array_swap :: "'a list \<Rightarrow> int \<Rightarrow> int \<Rightarrow> 'a list option" where
  "array_swap xs i j =
     do { x \<leftarrow> array_get xs i; y \<leftarrow> array_get xs j; Some (xs[nat i := y, nat j := x]) }"

definition compare_at :: "nat \<Rightarrow> RecKeyBuffer list \<Rightarrow> int \<Rightarrow> int \<Rightarrow> int option" where
  "compare_at keySize xs i j =
     do { x \<leftarrow> array_get xs i; y \<leftarrow> array_get xs j;
          Some (compare_key keySize (Some (rk_key x)) (Some (rk_key y))) }"

text \<open>The key the order is about, of an element and of a place in the array.\<close>

definition kval :: "nat \<Rightarrow> RecKeyBuffer \<Rightarrow> byte list" where
  "kval keySize b = take keySize (rk_key b)"

definition kat :: "nat \<Rightarrow> RecKeyBuffer list \<Rightarrow> int \<Rightarrow> byte list" where
  "kat keySize xs i = kval keySize (xs ! nat i)"

definition keys_wf :: "nat \<Rightarrow> RecKeyBuffer list \<Rightarrow> bool" where
  "keys_wf keySize xs = (\<forall>b \<in> set xs. keySize \<le> length (rk_key b))"

lemma array_get_Some_iff [tm_run]: "array_get xs i = Some x \<longleftrightarrow> in_array xs i \<and> x = xs ! nat i"
  by (auto simp: array_get_def)

lemma array_get_in [simp]: "in_array xs i \<Longrightarrow> array_get xs i = Some (xs ! nat i)"
  by (simp add: array_get_def)

lemma compare_at_SomeD:
  "compare_at n xs i j = Some c \<Longrightarrow>
     in_array xs i \<and> in_array xs j \<and> c = compare_key n (Some (rk_key (xs ! nat i))) (Some (rk_key (xs ! nat j)))"
  by (auto simp: compare_at_def tm_run)

lemma compare_at_in:
  assumes "keys_wf n xs" and "in_array xs i" and "in_array xs j"
  obtains c where "compare_at n xs i j = Some c"
    and "c \<le> - 1 \<longleftrightarrow> kat n xs i < kat n xs j" and "1 \<le> c \<longleftrightarrow> kat n xs j < kat n xs i"
proof -
  have "nat i < length xs" "nat j < length xs" using assms(2,3) by (auto simp: in_array_def)
  then have "n \<le> length (rk_key (xs ! nat i))" "n \<le> length (rk_key (xs ! nat j))"
    using assms(1) by (auto simp: keys_wf_def)
  from compare_key_smaller [OF this] compare_key_greater [OF this] show ?thesis
    using assms(2,3) that by (simp add: compare_at_def kat_def kval_def)
qed

subsection \<open>Permutations of a part of the array\<close>

definition seg_perm :: "int \<Rightarrow> int \<Rightarrow> 'a list \<Rightarrow> 'a list \<Rightarrow> bool" where
  "seg_perm l r xs ys =
     (mset ys = mset xs \<and> (\<forall>k. in_array xs k \<longrightarrow> k < l \<or> r < k \<longrightarrow> ys ! nat k = xs ! nat k))"

lemma seg_perm_length: "seg_perm l r xs ys \<Longrightarrow> length ys = length xs"
  unfolding seg_perm_def by (metis size_mset)

lemma seg_perm_in [simp]: "seg_perm l r xs ys \<Longrightarrow> in_array ys k = in_array xs k"
  by (simp add: in_array_def seg_perm_length)

lemma seg_perm_refl [simp]: "seg_perm l r xs xs"
  by (simp add: seg_perm_def)

lemma seg_perm_trans [trans]: "seg_perm l r xs ys \<Longrightarrow> seg_perm l r ys zs \<Longrightarrow> seg_perm l r xs zs"
  using seg_perm_in [of l r xs ys] by (auto simp: seg_perm_def)

lemma seg_perm_mono: "seg_perm l r xs ys \<Longrightarrow> l' \<le> l \<Longrightarrow> r \<le> r' \<Longrightarrow> seg_perm l' r' xs ys"
  by (auto simp: seg_perm_def)

lemma seg_perm_outside: "seg_perm l r xs ys \<Longrightarrow> in_array xs k \<Longrightarrow> k < l \<or> r < k \<Longrightarrow> ys ! nat k = xs ! nat k"
  unfolding seg_perm_def by blast

lemma seg_perm_kat: "seg_perm l r xs ys \<Longrightarrow> in_array xs k \<Longrightarrow> k < l \<or> r < k \<Longrightarrow> kat n ys k = kat n xs k"
  by (simp add: kat_def seg_perm_outside)

lemma seg_perm_keys_wf: "seg_perm l r xs ys \<Longrightarrow> keys_wf n ys = keys_wf n xs"
  unfolding seg_perm_def keys_wf_def by (metis set_mset_mset)

lemma segment_set:
  assumes "0 \<le> l" and "l \<le> r" and "r < int (length zs)"
  shows "set (drop (nat l) (take (nat (r + 1)) zs)) = (\<lambda>k. zs ! nat k) ` {l..r}"
proof -
  have "drop (nat l) (take (nat (r + 1)) zs) = map ((!) zs) [nat l..<nat (r + 1)]"
    using assms by (intro nth_equalityI) auto
  moreover have "nat ` {l..r} = {nat l..<nat (r + 1)}"
  proof
    show "{nat l..<nat (r + 1)} \<subseteq> nat ` {l..r}"
    proof
      fix i assume "i \<in> {nat l..<nat (r + 1)}"
      then have "i = nat (int i)" "int i \<in> {l..r}" using assms by auto
      then show "i \<in> nat ` {l..r}" by blast
    qed
  qed (use assms in auto)
  ultimately show ?thesis by (metis image_image list.set_map set_upt)
qed

lemma seg_perm_set:
  assumes p: "seg_perm l r xs ys" and b: "0 \<le> l" "r < int (length xs)"
  shows "(\<lambda>k. ys ! nat k) ` {l..r} = (\<lambda>k. xs ! nat k) ` {l..r}"
proof (cases "l \<le> r")
  case True
  let ?a = "nat l" and ?b = "nat (r + 1)"
  have split: "mset zs = mset (take ?a zs) + mset (drop ?a (take ?b zs)) + mset (drop ?b zs)" for zs :: "'a list"
  proof -
    have "take ?a (take ?b zs) = take ?a zs" using True b by (simp add: min_def)
    moreover have "mset (take i ws) + mset (drop i ws) = mset ws" for i and ws :: "'a list"
      by (simp flip: mset_append)
    ultimately show ?thesis by metis
  qed
  have len: "length ys = length xs" by (rule seg_perm_length [OF p])
  have "take ?a ys = take ?a xs"
  proof (rule nth_equalityI)
    fix i assume "i < length (take ?a ys)"
    then show "take ?a ys ! i = take ?a xs ! i"
      using len seg_perm_outside [OF p, of "int i"] by (simp add: in_array_def zless_nat_eq_int_zless)
  qed (simp add: len)
  moreover have "drop ?b ys = drop ?b xs"
  proof (rule nth_equalityI)
    fix i assume i: "i < length (drop ?b ys)"
    then have "in_array xs (int (?b + i))" "r < int (?b + i)" using len b True by (auto simp: in_array_def)
    then show "drop ?b ys ! i = drop ?b xs ! i"
      using i len seg_perm_outside [OF p, of "int (?b + i)"] by (simp del: of_nat_add)
  qed (simp add: len)
  moreover have "mset ys = mset xs" using p by (simp add: seg_perm_def)
  ultimately have "mset (drop ?a (take ?b ys)) = mset (drop ?a (take ?b xs))"
    using split [of xs] split [of ys] by simp
  then have "set (drop ?a (take ?b ys)) = set (drop ?a (take ?b xs))" by (metis set_mset_mset)
  then show ?thesis using segment_set [OF b(1) True, of xs] segment_set [OF b(1) True, of ys] b len by simp
qed simp

text \<open>What holds of every element of the part holds of them after the permutation.\<close>

lemma seg_perm_all:
  assumes "seg_perm l r xs ys" and "0 \<le> l" "r < int (length xs)"
    and "\<And>k. l \<le> k \<Longrightarrow> k \<le> r \<Longrightarrow> P (xs ! nat k)" and "l \<le> k" "k \<le> r"
  shows "P (ys ! nat k)"
proof -
  have "ys ! nat k \<in> (\<lambda>k. xs ! nat k) ` {l..r}"
    using seg_perm_set [OF assms(1-3)] assms(5,6) by (metis atLeastAtMost_iff imageI)
  then show ?thesis using assms(4) by auto
qed

lemma array_swap_Some:
  assumes "in_array xs i" and "in_array xs j" and "l \<le> i" "i \<le> r" "l \<le> j" "j \<le> r"
  obtains ys where "array_swap xs i j = Some ys" and "seg_perm l r xs ys"
    and "\<And>k. 0 \<le> k \<Longrightarrow> ys ! nat k = (if k = i then xs ! nat j else if k = j then xs ! nat i else xs ! nat k)"
proof -
  let ?ys = "xs[nat i := xs ! nat j, nat j := xs ! nat i]"
  have b: "nat i < length xs" "nat j < length xs" "0 \<le> i" "0 \<le> j" using assms(1,2) by (auto simp: in_array_def)
  have nth: "?ys ! nat k = (if k = i then xs ! nat j else if k = j then xs ! nat i else xs ! nat k)" if "0 \<le> k" for k
    using b that by (auto simp: nth_list_update eq_nat_nat_iff)
  have "mset ?ys = mset xs" using b by (simp add: mset_swap)
  then have "seg_perm l r xs ?ys" using nth assms(3-6) by (auto simp: seg_perm_def in_array_def)
  then show ?thesis using that [of ?ys] nth assms(1,2) by (simp add: array_swap_def)
qed

lemma array_swap_SomeD:
  assumes "array_swap xs i j = Some ys"
  shows "in_array xs i" "in_array xs j" "length ys = length xs"
    and "0 \<le> k \<Longrightarrow> ys ! nat k = (if k = i then xs ! nat j else if k = j then xs ! nat i else xs ! nat k)"
proof -
  show *: "in_array xs i" "in_array xs j" using assms by (auto simp: array_swap_def tm_run)
  obtain zs where zs: "array_swap xs i j = Some zs" "seg_perm (min i j) (max i j) xs zs"
    "\<And>k. 0 \<le> k \<Longrightarrow> zs ! nat k = (if k = i then xs ! nat j else if k = j then xs ! nat i else xs ! nat k)"
    by (rule array_swap_Some [OF *, of "min i j" "max i j"]) simp_all
  have "ys = zs" using assms zs(1) by simp
  then show "length ys = length xs"
    and "0 \<le> k \<Longrightarrow> ys ! nat k = (if k = i then xs ! nat j else if k = j then xs ! nat i else xs ! nat k)"
    using seg_perm_length [OF zs(2)] zs(3) by blast+
qed

subsection \<open>Sorted parts\<close>

definition sorted_seg :: "nat \<Rightarrow> RecKeyBuffer list \<Rightarrow> int \<Rightarrow> int \<Rightarrow> bool" where
  "sorted_seg n xs l r = (\<forall>a b. l \<le> a \<longrightarrow> a \<le> b \<longrightarrow> b \<le> r \<longrightarrow> kat n xs a \<le> kat n xs b)"

lemma sorted_segI: "(\<And>a b. l \<le> a \<Longrightarrow> a \<le> b \<Longrightarrow> b \<le> r \<Longrightarrow> kat n xs a \<le> kat n xs b) \<Longrightarrow> sorted_seg n xs l r"
  by (simp add: sorted_seg_def)

lemma sorted_seg_trivial: "r \<le> l \<Longrightarrow> sorted_seg n xs l r"
proof (rule sorted_segI)
  fix a b assume "r \<le> l" "l \<le> a" "a \<le> b" "b \<le> r"
  then have "a = b" by simp
  then show "kat n xs a \<le> kat n xs b" by simp
qed

lemma sorted_seg_sort:
  assumes "sorted_seg n ys 0 (int (length xs) - 1)" and "mset ys = mset xs"
  shows "map (kval n) ys = sort (map (kval n) xs)"
proof (rule properties_for_sort [symmetric])
  have len: "length ys = length xs" using assms(2) by (metis size_mset)
  show "sorted (map (kval n) ys)"
  proof (rule sorted_iff_nth_mono [THEN iffD2], intro allI impI)
    fix i j assume "i \<le> j" "j < length (map (kval n) ys)"
    then show "map (kval n) ys ! i \<le> map (kval n) ys ! j"
      using assms(1) [unfolded sorted_seg_def, rule_format, of "int i" "int j"] len by (simp add: kat_def)
  qed
qed (simp add: assms(2))

end
