(* ===== verification/Sort_Scratch.thy ===== *)
theory Sort_Scratch
  imports Sort_Prelude
begin

text \<open>
  The scratch space of the sort (\<^verbatim>\<open>SortScratchSpace\<close> and \<^verbatim>\<open>SortMergeNode\<close> of \<^verbatim>\<open>ScratchSpace.cpp\<close>) and its
  directory of runs (\<^verbatim>\<open>RunDirectory.cpp\<close>).  Records are packed into blocks of a fixed size behind a
  header; the blocks of a run follow each other.  A merge node reads a run back: it keeps a queue
  of blocks whose reads were started ahead, taken from a pool of buffers that all nodes share.
  The file layer is the environment: whether a block could be written or read, and which reads have
  completed at the time of a call.  \<^const>\<open>None\<close> is a write behind the end of a block buffer.
\<close>

section \<open>Data\<close>

datatype RESULT = SCRATCH_SUCCESS | SCRATCH_FAILURE | IO_NOT_COMPLETE | END_OF_RUN

record ScrBlockHeader =
  bh_thisBlockNum :: int
  bh_nextBlockNum :: int
  bh_bytesUsed :: nat
  bh_runNum :: nat
  bh_numRecs :: nat

text \<open>
  The states of a read: not complete (\<^verbatim>\<open>QUEUED\<close>, \<^verbatim>\<open>READING\<close>), \<^verbatim>\<open>READCOMPLETE\<close> and \<^verbatim>\<open>BEING_CONSUMED\<close>.  The numbers
  \<^verbatim>\<open>numReadQBlocks_\<close> and \<^verbatim>\<open>numOutStandingIO_\<close> are the length of the queue and the reads in it that are not complete.
\<close>

datatype io_state = READING | READCOMPLETE | BEING_CONSUMED

record SortMergeNode =
  mn_readQ :: "(int \<times> io_state) list"
  mn_numRecsRead :: nat
  mn_nextReadPosition :: nat
  mn_scrBlock :: "byte list"
  mn_blockHead :: ScrBlockHeader
  mn_endBlockNum :: int
  mn_nextIOBlockNum :: int

text \<open>
  The bytes of a block are those behind the header up to \<^verbatim>\<open>bytesUsed_\<close>; what follows them is left over from
  earlier use.  The directory lists the first block of each run, run 1 first.
\<close>

record SortScratchSpace =
  sc_blockSize :: nat
  sc_disk :: "int \<Rightarrow> (ScrBlockHeader \<times> byte list) option"
  sc_totalNumOfScrBlocks :: int
  sc_currentBlock :: "byte list"
  sc_bytesUsed :: nat
  sc_numRecs :: nat
  sc_currentRun :: nat
  sc_runDirectory :: "int list"
  sc_sortMergeBlocksPerBuffer :: nat
  sc_freeSortMergeBufferPool :: nat
  sc_nodes :: "SortMergeNode list"
  sc_clock :: nat

record scratch_env =
  se_write_ok :: "int \<Rightarrow> bool"
  se_read_ok :: "int \<Rightarrow> bool"
  se_read_done :: "nat \<Rightarrow> int \<Rightarrow> bool"

abbreviation (input) OVERHEAD :: nat where "OVERHEAD \<equiv> 20"
abbreviation (input) DP2_CHECKSUM_BYTES :: nat where "DP2_CHECKSUM_BYTES \<equiv> 8"
abbreviation (input) EOF_BLOCK :: int where "EOF_BLOCK \<equiv> - 1"

section \<open>The run directory\<close>

definition startNewRun :: "SortScratchSpace \<Rightarrow> SortScratchSpace" where
  "startNewRun s = s\<lparr> sc_runDirectory := sc_runDirectory s @ [sc_totalNumOfScrBlocks s],
                      sc_currentRun := Suc (length (sc_runDirectory s)) \<rparr>"

definition getTotalNumOfRuns :: "SortScratchSpace \<Rightarrow> nat" where
  "getTotalNumOfRuns s = length (sc_runDirectory s)"

definition mapRunNumberToFirstSBN :: "nat \<Rightarrow> SortScratchSpace \<Rightarrow> int" where
  "mapRunNumberToFirstSBN run s =
     (if run > length (sc_runDirectory s) then EOF_BLOCK else sc_runDirectory s ! (run - 1))"

section \<open>Writing\<close>

text \<open>\<^verbatim>\<open>currentRun_\<close> starts with -99 in an unsigned field.\<close>

definition scratch_new :: "nat \<Rightarrow> nat \<Rightarrow> SortScratchSpace" where
  "scratch_new blockSize perBuffer =
     \<lparr> sc_blockSize = blockSize, sc_disk = (\<lambda>_. None), sc_totalNumOfScrBlocks = 1, sc_currentBlock = [],
       sc_bytesUsed = OVERHEAD, sc_numRecs = 0, sc_currentRun = 4294967197, sc_runDirectory = [],
       sc_sortMergeBlocksPerBuffer = perBuffer, sc_freeSortMergeBufferPool = 0, sc_nodes = [], sc_clock = 0 \<rparr>"

definition switchScratchBuffers :: "SortScratchSpace \<Rightarrow> SortScratchSpace" where
  "switchScratchBuffers s =
     s\<lparr> sc_currentBlock := [], sc_bytesUsed := OVERHEAD, sc_numRecs := 0,
        sc_totalNumOfScrBlocks := sc_totalNumOfScrBlocks s + 1 \<rparr>"

definition flushRun :: "scratch_env \<Rightarrow> bool \<Rightarrow> SortScratchSpace \<Rightarrow> RESULT \<times> SortScratchSpace" where
  "flushRun e endrun s =
     (let this = sc_totalNumOfScrBlocks s;
          head = \<lparr> bh_thisBlockNum = this, bh_nextBlockNum = (if endrun then - 1 else this + 1),
                   bh_bytesUsed = sc_bytesUsed s, bh_runNum = sc_currentRun s, bh_numRecs = sc_numRecs s \<rparr>
      in if se_write_ok e this
         then (SCRATCH_SUCCESS, switchScratchBuffers (s\<lparr> sc_disk := (sc_disk s)(this \<mapsto> (head, sc_currentBlock s)) \<rparr>))
         else (SCRATCH_FAILURE, s))"

definition block_put :: "byte list \<Rightarrow> SortScratchSpace \<Rightarrow> SortScratchSpace" where
  "block_put data s =
     s\<lparr> sc_currentBlock := sc_currentBlock s @ data, sc_bytesUsed := sc_bytesUsed s + length data,
        sc_numRecs := sc_numRecs s + 1 \<rparr>"

definition writeRunData ::
  "scratch_env \<Rightarrow> byte list \<Rightarrow> nat \<Rightarrow> SortScratchSpace \<Rightarrow> (RESULT \<times> SortScratchSpace) option" where
  "writeRunData e data run s =
     (let s1 = (if run \<noteq> sc_currentRun s then startNewRun s else s)
      in if sc_bytesUsed s1 + length data \<le> sc_blockSize s1 - DP2_CHECKSUM_BYTES
         then Some (SCRATCH_SUCCESS, block_put data s1)
         else case flushRun e False s1 of
                (SCRATCH_SUCCESS, s2) \<Rightarrow>
                  if OVERHEAD + length data \<le> sc_blockSize s2 then Some (SCRATCH_SUCCESS, block_put data s2) else None
              | (rc, s2) \<Rightarrow> Some (rc, s2))"

text \<open>The loop of the writers: all records of a run, then the end of the run.\<close>

fun write_records :: "scratch_env \<Rightarrow> nat \<Rightarrow> byte list list \<Rightarrow> SortScratchSpace \<Rightarrow> (RESULT \<times> SortScratchSpace) option" where
  "write_records e run [] s = Some (SCRATCH_SUCCESS, s)"
| "write_records e run (r # rs) s =
     (case writeRunData e r run s of
        Some (SCRATCH_SUCCESS, s1) \<Rightarrow> write_records e run rs s1
      | x \<Rightarrow> x)"

section \<open>Reading\<close>

definition setupSortMergeBufferPool :: "nat \<Rightarrow> SortScratchSpace \<Rightarrow> SortScratchSpace" where
  "setupSortMergeBufferPool numBuffers s =
     s\<lparr> sc_freeSortMergeBufferPool := sc_freeSortMergeBufferPool s + numBuffers \<rparr>"

definition num_outstanding :: "SortMergeNode \<Rightarrow> nat" where
  "num_outstanding nd = length (filter (\<lambda>p. snd p = READING) (mn_readQ nd))"

text \<open>The constructor of a merge node for a run.\<close>

definition merge_node_new :: "nat \<Rightarrow> SortScratchSpace \<Rightarrow> SortMergeNode" where
  "merge_node_new run s =
     (let end_of_run = mapRunNumberToFirstSBN (run + 1) s
      in \<lparr> mn_readQ = [], mn_numRecsRead = 0, mn_nextReadPosition = 0, mn_scrBlock = [],
           mn_blockHead = \<lparr> bh_thisBlockNum = 0, bh_nextBlockNum = 0, bh_bytesUsed = 0, bh_runNum = 0, bh_numRecs = 0 \<rparr>,
           mn_endBlockNum = (if end_of_run \<noteq> EOF_BLOCK then end_of_run - 1 else sc_totalNumOfScrBlocks s - 1),
           mn_nextIOBlockNum = mapRunNumberToFirstSBN run s \<rparr>)"

text \<open>The loop of \<^verbatim>\<open>initiateSortMergeNodeRead\<close>: each read takes a buffer from the pool; none left is an error.\<close>

fun queue_reads :: "nat \<Rightarrow> SortMergeNode \<Rightarrow> nat \<Rightarrow> RESULT \<times> SortMergeNode \<times> nat" where
  "queue_reads 0 nd free = (SCRATCH_SUCCESS, nd, free)"
| "queue_reads (Suc k) nd free =
     (if mn_nextIOBlockNum nd \<le> mn_endBlockNum nd then
        if free = 0 then (SCRATCH_FAILURE, nd, free)
        else queue_reads k
               (nd\<lparr> mn_readQ := mn_readQ nd @ [(mn_nextIOBlockNum nd, READING)],
                    mn_nextIOBlockNum := mn_nextIOBlockNum nd + 1 \<rparr>) (free - 1)
      else (SCRATCH_SUCCESS, nd, free))"

definition initiate_read :: "nat \<Rightarrow> SortMergeNode \<Rightarrow> nat \<Rightarrow> RESULT \<times> SortMergeNode \<times> nat" where
  "initiate_read perBuffer nd free =
     (if mn_nextIOBlockNum nd > mn_endBlockNum nd \<or> num_outstanding nd > 0 \<or> length (mn_readQ nd) > perBuffer
      then (SCRATCH_SUCCESS, nd, free)
      else queue_reads perBuffer nd free)"

text \<open>Reads complete in their own time, seen at the next call.\<close>

definition refresh :: "scratch_env \<Rightarrow> nat \<Rightarrow> SortMergeNode \<Rightarrow> SortMergeNode" where
  "refresh e clock nd =
     nd\<lparr> mn_readQ := map (\<lambda>(b, st). (b, if st = READING \<and> se_read_done e clock b then READCOMPLETE else st)) (mn_readQ nd) \<rparr>"

text \<open>The buffer that was consumed goes back to the pool.\<close>

definition release_consumed :: "SortMergeNode \<Rightarrow> nat \<Rightarrow> SortMergeNode \<times> nat" where
  "release_consumed nd free =
     (case mn_readQ nd of
        (b, BEING_CONSUMED) # q \<Rightarrow> (nd\<lparr> mn_readQ := q \<rparr>, free + 1)
      | _ \<Rightarrow> (nd, free))"

text \<open>\<^verbatim>\<open>SortMergeNode::checkIO\<close> on the head of the queue.\<close>

definition checkIO_node :: "scratch_env \<Rightarrow> bool \<Rightarrow> SortMergeNode \<Rightarrow> RESULT \<times> SortMergeNode" where
  "checkIO_node e waited nd =
     (case mn_readQ nd of
        [] \<Rightarrow> (SCRATCH_FAILURE, nd)
      | (b, st) # q \<Rightarrow>
          if st = READING \<and> \<not> waited then (IO_NOT_COMPLETE, nd)
          else if st = BEING_CONSUMED \<or> \<not> se_read_ok e b then (SCRATCH_FAILURE, nd)
          else (SCRATCH_SUCCESS, nd\<lparr> mn_readQ := (b, BEING_CONSUMED) # q \<rparr>))"

text \<open>A little-endian \<^verbatim>\<open>UInt32\<close>, the length that precedes a record of varying length.\<close>

fun le32 :: "byte list \<Rightarrow> nat" where
  "le32 [] = 0"
| "le32 (b # bs) = unat b + 256 * le32 bs"

definition rec_len :: "nat \<Rightarrow> nat \<Rightarrow> byte list \<Rightarrow> nat" where
  "rec_len nbytes reclen bs = (if nbytes > 0 then le32 (take 4 bs) else reclen)"

text \<open>The record at the read position.\<close>

definition take_record :: "nat \<Rightarrow> nat \<Rightarrow> SortMergeNode \<Rightarrow> byte list \<times> SortMergeNode" where
  "take_record nbytes reclen nd =
     (let bs = drop (mn_nextReadPosition nd) (mn_scrBlock nd); len = rec_len nbytes reclen bs
      in (take len bs, nd\<lparr> mn_nextReadPosition := mn_nextReadPosition nd + len,
                           mn_numRecsRead := mn_numRecsRead nd + 1 \<rparr>))"

text \<open>
  \<^verbatim>\<open>readSortMergeNode\<close> on the node with index \<open>i\<close>; the answer is the result and the record.  A block that
  is not on the disk cannot be read.
\<close>

definition readSortMergeNode ::
  "scratch_env \<Rightarrow> nat \<Rightarrow> nat \<Rightarrow> bool \<Rightarrow> nat \<Rightarrow> SortScratchSpace \<Rightarrow> (RESULT \<times> byte list) \<times> SortScratchSpace" where
  "readSortMergeNode e nbytes reclen waited i s =
     (let nd = refresh e (sc_clock s) (sc_nodes s ! i);
          s0 = s\<lparr> sc_clock := sc_clock s + 1 \<rparr>;
          put = (\<lambda>nd free. s0\<lparr> sc_nodes := (sc_nodes s0)[i := nd], sc_freeSortMergeBufferPool := free \<rparr>);
          free0 = sc_freeSortMergeBufferPool s
      in if mn_numRecsRead nd = bh_numRecs (mn_blockHead nd) then
           if bh_nextBlockNum (mn_blockHead nd) = - 1 then ((END_OF_RUN, []), put nd free0)
           else case release_consumed nd free0 of (nd1, free1) \<Rightarrow>
             (case checkIO_node e waited nd1 of
                (SCRATCH_SUCCESS, nd2) \<Rightarrow>
                  (case sc_disk s (fst (hd (mn_readQ nd2))) of
                     None \<Rightarrow> ((SCRATCH_FAILURE, []), put nd2 free1)
                   | Some (head, bytes) \<Rightarrow>
                       (case take_record nbytes reclen
                               (nd2\<lparr> mn_blockHead := head, mn_scrBlock := bytes, mn_nextReadPosition := 0, mn_numRecsRead := 0 \<rparr>) of
                          (rec, nd3) \<Rightarrow>
                            (case initiate_read (sc_sortMergeBlocksPerBuffer s) nd3 free1 of
                               (rc, nd4, free2) \<Rightarrow> ((rc, rec), put nd4 free2))))
              | (rc, nd2) \<Rightarrow> ((rc, []), put nd2 free1))
         else case take_record nbytes reclen nd of (rec, nd1) \<Rightarrow> ((SCRATCH_SUCCESS, rec), put nd1 free0))"

text \<open>
  The part of \<^verbatim>\<open>TreeNode::initialize\<close> that opens the merge node of a run and starts its first reads, the loop of the
  constructor of the tree over the runs from \<open>run\<close> on, and the end of the nodes, which gives their buffers back.
\<close>

definition node_open :: "nat \<Rightarrow> SortScratchSpace \<Rightarrow> RESULT \<times> SortScratchSpace" where
  "node_open run s =
     (case initiate_read (sc_sortMergeBlocksPerBuffer s) (merge_node_new run s) (sc_freeSortMergeBufferPool s) of
        (rc, nd, free) \<Rightarrow> (rc, s\<lparr> sc_nodes := sc_nodes s @ [nd], sc_freeSortMergeBufferPool := free \<rparr>))"

fun open_nodes :: "nat \<Rightarrow> nat \<Rightarrow> SortScratchSpace \<Rightarrow> bool \<times> SortScratchSpace" where
  "open_nodes 0 run s = (True, s)"
| "open_nodes (Suc k) run s =
     (case node_open run s of (rc, s1) \<Rightarrow>
        (case open_nodes k (run + 1) s1 of (ok, s2) \<Rightarrow> (rc \<noteq> SCRATCH_FAILURE \<and> ok, s2)))"

definition close_nodes :: "SortScratchSpace \<Rightarrow> SortScratchSpace" where
  "close_nodes s =
     s\<lparr> sc_freeSortMergeBufferPool := sc_freeSortMergeBufferPool s + sum_list (map (length \<circ> mn_readQ) (sc_nodes s)),
        sc_nodes := [] \<rparr>"

section \<open>What a run holds\<close>

text \<open>Records can be told apart in a block when they have the fixed length or carry their own.\<close>

definition rec_ok :: "nat \<Rightarrow> nat \<Rightarrow> byte list \<Rightarrow> bool" where
  "rec_ok nbytes reclen r = (if nbytes > 0 then 4 \<le> length r \<and> le32 (take 4 r) = length r else length r = reclen)"

lemma rec_len_ok: "rec_ok nbytes reclen r \<Longrightarrow> rec_len nbytes reclen (r @ bs) = length r"
  by (auto simp: rec_ok_def rec_len_def split: if_splits)

lemma take_record_ok:
  assumes "rec_ok nbytes reclen r" and "drop (mn_nextReadPosition nd) (mn_scrBlock nd) = r @ bs"
  shows "take_record nbytes reclen nd =
    (r, nd\<lparr> mn_nextReadPosition := mn_nextReadPosition nd + length r, mn_numRecsRead := mn_numRecsRead nd + 1 \<rparr>)"
  using assms by (simp add: take_record_def rec_len_ok)

text \<open>A block with the records \<open>g\<close>, the last of its run or not.\<close>

definition block_holds :: "(int \<Rightarrow> (ScrBlockHeader \<times> byte list) option) \<Rightarrow> int \<Rightarrow> byte list list \<Rightarrow> bool \<Rightarrow> bool" where
  "block_holds disk b g final =
     (g \<noteq> [] \<and> (case disk b of None \<Rightarrow> False
                 | Some (h, bytes) \<Rightarrow> bytes = concat g \<and> bh_numRecs h = length g \<and> (bh_nextBlockNum h = - 1 \<longleftrightarrow> final)))"

fun run_stored :: "(int \<Rightarrow> (ScrBlockHeader \<times> byte list) option) \<Rightarrow> int \<Rightarrow> byte list list list \<Rightarrow> bool" where
  "run_stored disk b [] = False"
| "run_stored disk b (g # gs) = (block_holds disk b g (gs = []) \<and> (gs \<noteq> [] \<longrightarrow> run_stored disk (b + 1) gs))"

text \<open>The queue of a node: perhaps the block that is being consumed, then the blocks from \<open>b\<close> on.\<close>

definition queue_ok :: "int \<Rightarrow> SortMergeNode \<Rightarrow> bool" where
  "queue_ok b nd =
     (\<exists>q. (mn_readQ nd = q \<or> (\<exists>c. mn_readQ nd = (c, BEING_CONSUMED) # q))
        \<and> map fst q = [b..mn_nextIOBlockNum nd - 1] \<and> (\<forall>p \<in> set q. snd p \<noteq> BEING_CONSUMED))"

text \<open>A node that still has to deliver the records \<open>rs\<close>: those left in its block, then those of the next blocks.\<close>

definition node_base ::
  "scratch_env \<Rightarrow> SortScratchSpace \<Rightarrow> SortMergeNode \<Rightarrow> byte list list \<Rightarrow> byte list list list \<Rightarrow> int \<Rightarrow> bool" where
  "node_base e s nd g gs b =
     (drop (mn_nextReadPosition nd) (mn_scrBlock nd) = concat g
      \<and> bh_numRecs (mn_blockHead nd) = mn_numRecsRead nd + length g
      \<and> (bh_nextBlockNum (mn_blockHead nd) = - 1 \<longleftrightarrow> gs = [])
      \<and> (gs \<noteq> [] \<longrightarrow> run_stored (sc_disk s) b gs \<and> b + int (length gs) \<le> mn_endBlockNum nd + 1)
      \<and> queue_ok b nd \<and> b \<le> mn_nextIOBlockNum nd \<and> mn_nextIOBlockNum nd \<le> mn_endBlockNum nd + 1
      \<and> mn_endBlockNum nd < sc_totalNumOfScrBlocks s
      \<and> (\<forall>k. b \<le> k \<longrightarrow> k \<le> mn_endBlockNum nd \<longrightarrow> se_read_ok e k))"

text \<open>Between two calls the read of the next block has been started.\<close>

definition node_at ::
  "scratch_env \<Rightarrow> SortScratchSpace \<Rightarrow> SortMergeNode \<Rightarrow> byte list list \<Rightarrow> byte list list list \<Rightarrow> int \<Rightarrow> bool" where
  "node_at e s nd g gs b = (node_base e s nd g gs b \<and> (gs \<noteq> [] \<longrightarrow> b < mn_nextIOBlockNum nd))"

definition node_ok :: "scratch_env \<Rightarrow> nat \<Rightarrow> nat \<Rightarrow> SortScratchSpace \<Rightarrow> SortMergeNode \<Rightarrow> byte list list \<Rightarrow> bool" where
  "node_ok e nbytes reclen s nd rs =
     ((\<forall>r \<in> set rs. rec_ok nbytes reclen r) \<and> (\<exists>g gs b. rs = g @ concat gs \<and> node_at e s nd g gs b))"

text \<open>All nodes, and enough buffers for each of them to have its double buffer.\<close>

definition scratch_inv :: "scratch_env \<Rightarrow> nat \<Rightarrow> nat \<Rightarrow> SortScratchSpace \<Rightarrow> byte list list list \<Rightarrow> bool" where
  "scratch_inv e nbytes reclen s rss =
     (length (sc_nodes s) = length rss \<and> 1 \<le> sc_sortMergeBlocksPerBuffer s
      \<and> (\<forall>i < length rss. node_ok e nbytes reclen s (sc_nodes s ! i) (rss ! i)
            \<and> length (mn_readQ (sc_nodes s ! i)) \<le> 2 * sc_sortMergeBlocksPerBuffer s)
      \<and> 2 * sc_sortMergeBlocksPerBuffer s * length rss
          \<le> sc_freeSortMergeBufferPool s + sum_list (map (length \<circ> mn_readQ) (sc_nodes s)))"

subsection \<open>The steps of a read\<close>

lemma refresh_simps [simp]:
  "mn_numRecsRead (refresh e c nd) = mn_numRecsRead nd" "mn_nextReadPosition (refresh e c nd) = mn_nextReadPosition nd"
  "mn_scrBlock (refresh e c nd) = mn_scrBlock nd" "mn_blockHead (refresh e c nd) = mn_blockHead nd"
  "mn_endBlockNum (refresh e c nd) = mn_endBlockNum nd" "mn_nextIOBlockNum (refresh e c nd) = mn_nextIOBlockNum nd"
  "length (mn_readQ (refresh e c nd)) = length (mn_readQ nd)"
  by (simp_all add: refresh_def)

lemma refresh_queue_ok:
  assumes "queue_ok b nd"
  shows "queue_ok b (refresh e c nd)"
proof -
  let ?f = "\<lambda>(b, st). (b, if st = READING \<and> se_read_done e c b then READCOMPLETE else st)"
  obtain q where q: "mn_readQ nd = q \<or> (\<exists>c. mn_readQ nd = (c, BEING_CONSUMED) # q)"
    "map fst q = [b..mn_nextIOBlockNum nd - 1]" "\<forall>p \<in> set q. snd p \<noteq> BEING_CONSUMED"
    using assms by (auto simp: queue_ok_def)
  have "map fst (map ?f q) = map fst q" by (simp add: case_prod_unfold)
  moreover have "\<forall>p \<in> set (map ?f q). snd p \<noteq> BEING_CONSUMED" using q(3) by (auto split: if_splits)
  ultimately show ?thesis
    using q(1,2) unfolding queue_ok_def by (intro exI [of _ "map ?f q"]) (auto simp: refresh_def)
qed

lemma refresh_node_at: "node_at e s nd g gs b \<Longrightarrow> node_at e s (refresh e c nd) g gs b"
  by (simp add: node_at_def node_base_def refresh_queue_ok)

text \<open>Within the rest of a block a read needs no I/O.\<close>

lemma take_record_node:
  assumes "node_base e s nd (r # g) gs b" and "rec_ok nbytes reclen r"
  shows "\<exists>nd'. take_record nbytes reclen nd = (r, nd') \<and> node_base e s nd' g gs b
    \<and> mn_readQ nd' = mn_readQ nd \<and> mn_nextIOBlockNum nd' = mn_nextIOBlockNum nd"
proof -
  have d: "drop (mn_nextReadPosition nd) (mn_scrBlock nd) = r @ concat g" using assms(1) by (simp add: node_base_def)
  then have "drop (mn_nextReadPosition nd + length r) (mn_scrBlock nd) = concat g"
    by (metis add.commute append_eq_conv_conj drop_drop)
  then show ?thesis
    using take_record_ok [OF assms(2) d] assms(1) by (auto simp: node_base_def queue_ok_def)
qed

text \<open>Reads are started for the blocks that follow, as far as the run goes.\<close>

definition queued :: "(int \<times> io_state) list \<Rightarrow> nat \<Rightarrow> SortMergeNode \<Rightarrow> SortMergeNode" where
  "queued q m nd = nd\<lparr> mn_readQ := q, mn_nextIOBlockNum := mn_nextIOBlockNum nd + int m \<rparr>"

lemma queue_reads_works:
  assumes "queue_ok b nd" and "b \<le> mn_nextIOBlockNum nd" and "mn_nextIOBlockNum nd \<le> mn_endBlockNum nd + 1" and "k \<le> free"
  shows "\<exists>q m. queue_reads k nd free = (SCRATCH_SUCCESS, queued q m nd, free - m) \<and> m \<le> k
    \<and> (k > 0 \<longrightarrow> mn_nextIOBlockNum nd \<le> mn_endBlockNum nd \<longrightarrow> m > 0) \<and> length q = length (mn_readQ nd) + m
    \<and> queue_ok b (queued q m nd) \<and> mn_nextIOBlockNum nd + int m \<le> mn_endBlockNum nd + 1"
  using assms
proof (induction k arbitrary: nd free)
  case 0
  then show ?case by (auto intro!: exI [of _ 0] exI [of _ "mn_readQ nd"] simp: queued_def)
next
  case (Suc k)
  let ?p = "(mn_nextIOBlockNum nd, READING)"
  let ?nd = "nd\<lparr> mn_readQ := mn_readQ nd @ [?p], mn_nextIOBlockNum := mn_nextIOBlockNum nd + 1 \<rparr>"
  show ?case
  proof (cases "mn_nextIOBlockNum nd \<le> mn_endBlockNum nd")
    case True
    obtain q where q: "mn_readQ nd = q \<or> (\<exists>c. mn_readQ nd = (c, BEING_CONSUMED) # q)"
      "map fst q = [b..mn_nextIOBlockNum nd - 1]" "\<forall>p \<in> set q. snd p \<noteq> BEING_CONSUMED"
      using Suc.prems(1) by (auto simp: queue_ok_def)
    have ok: "queue_ok b ?nd"
      using q Suc.prems(2) unfolding queue_ok_def
      by (intro exI [of _ "q @ [?p]"]) (auto simp: upto_rec2 [of b "mn_nextIOBlockNum nd"])
    have "k \<le> free - 1" "free \<noteq> 0" using Suc.prems(4) by auto
    then obtain q m where m: "queue_reads k ?nd (free - 1) = (SCRATCH_SUCCESS, queued q m ?nd, free - 1 - m)" "m \<le> k"
        "length q = length (mn_readQ ?nd) + m" "queue_ok b (queued q m ?nd)"
        "mn_nextIOBlockNum ?nd + int m \<le> mn_endBlockNum nd + 1"
      using Suc.IH [OF ok, of "free - 1"] Suc.prems(2) True by auto
    have "queued q m ?nd = queued q (Suc m) nd" by (simp add: queued_def)
    then show ?thesis
      using m True \<open>free \<noteq> 0\<close> by (intro exI [of _ q] exI [of _ "Suc m"]) auto
  next
    case False
    then show ?thesis using Suc.prems by (auto intro!: exI [of _ 0] exI [of _ "mn_readQ nd"] simp: queued_def)
  qed
qed

lemma queue_ok_ahead:
  assumes "queue_ok b nd" and "num_outstanding nd > 0 \<or> length (mn_readQ nd) > 1"
  shows "b < mn_nextIOBlockNum nd"
proof -
  obtain q where q: "mn_readQ nd = q \<or> (\<exists>c. mn_readQ nd = (c, BEING_CONSUMED) # q)"
    "map fst q = [b..mn_nextIOBlockNum nd - 1]"
    using assms(1) by (auto simp: queue_ok_def)
  then have "q \<noteq> []" using assms(2) by (auto simp: num_outstanding_def)
  then have "[b..mn_nextIOBlockNum nd - 1] \<noteq> []" using q(2) by (metis map_is_Nil_conv)
  then show ?thesis by simp
qed

lemma initiate_read_works:
  assumes "node_base e s nd g gs b" and "perBuffer \<ge> 1" and "length (mn_readQ nd) \<le> perBuffer \<Longrightarrow> perBuffer \<le> free"
    and "length (mn_readQ nd) \<le> 2 * perBuffer"
  shows "\<exists>q m. initiate_read perBuffer nd free = (SCRATCH_SUCCESS, queued q m nd, free - m) \<and> m \<le> free
    \<and> length q = length (mn_readQ nd) + m \<and> length q \<le> 2 * perBuffer
    \<and> node_at e s (queued q m nd) g gs b"
proof (cases "mn_nextIOBlockNum nd > mn_endBlockNum nd \<or> num_outstanding nd > 0 \<or> length (mn_readQ nd) > perBuffer")
  case True
  have "queued (mn_readQ nd) 0 nd = nd" by (simp add: queued_def)
  moreover have "b < mn_nextIOBlockNum nd" if "gs \<noteq> []"
  proof (cases "mn_nextIOBlockNum nd > mn_endBlockNum nd")
    case True
    have "1 \<le> length gs" using that by (cases gs) auto
    then show ?thesis using True assms(1) that by (simp add: node_base_def)
  next
    case False
    then show ?thesis
      using queue_ok_ahead [of b nd] \<open>_ \<or> _ \<or> _\<close> assms(1,2) by (auto simp: node_base_def)
  qed
  ultimately show ?thesis
    using True assms by (auto simp: initiate_read_def node_at_def intro!: exI [of _ 0] exI [of _ "mn_readQ nd"])
next
  case False
  then have "perBuffer \<le> free" using assms(3) by simp
  moreover have base: "queue_ok b nd" "b \<le> mn_nextIOBlockNum nd" "mn_nextIOBlockNum nd \<le> mn_endBlockNum nd + 1"
    using assms(1) by (auto simp: node_base_def)
  ultimately obtain q m where m: "queue_reads perBuffer nd free = (SCRATCH_SUCCESS, queued q m nd, free - m)" "m \<le> perBuffer"
      "m > 0" "length q = length (mn_readQ nd) + m" "queue_ok b (queued q m nd)"
      "mn_nextIOBlockNum nd + int m \<le> mn_endBlockNum nd + 1"
    using queue_reads_works [of b nd perBuffer free] False assms(2) by auto
  then have "node_at e s (queued q m nd) g gs b"
    using assms(1) base(2) by (auto simp: node_at_def node_base_def queued_def)
  moreover have "initiate_read perBuffer nd free = queue_reads perBuffer nd free"
    using False by (simp add: initiate_read_def)
  ultimately show ?thesis using m False \<open>perBuffer \<le> free\<close> by (intro exI [of _ q] exI [of _ m]) auto
qed

text \<open>The next block is taken from the queue, unless its read is still running and the caller does not wait.\<close>

lemma next_block_works:
  assumes "node_at e s nd [] (g # gs) b"
  shows "\<exists>nd1 free1. release_consumed nd free = (nd1, free1) \<and> length (mn_readQ nd1) + free1 = length (mn_readQ nd) + free
    \<and> free \<le> free1
    \<and> ((checkIO_node e waited nd1 = (IO_NOT_COMPLETE, nd1) \<and> \<not> waited \<and> node_at e s nd1 [] (g # gs) b)
      \<or> (\<exists>nd2 head. checkIO_node e waited nd1 = (SCRATCH_SUCCESS, nd2) \<and> length (mn_readQ nd2) = length (mn_readQ nd1)
          \<and> fst (hd (mn_readQ nd2)) = b \<and> sc_disk s b = Some (head, concat g)
          \<and> node_base e s (nd2\<lparr> mn_blockHead := head, mn_scrBlock := concat g, mn_nextReadPosition := 0, mn_numRecsRead := 0 \<rparr>)
              g gs (b + 1)))"
proof -
  have base: "node_base e s nd [] (g # gs) b" and ahead: "b < mn_nextIOBlockNum nd" using assms by (auto simp: node_at_def)
  obtain q where q: "mn_readQ nd = q \<or> (\<exists>c. mn_readQ nd = (c, BEING_CONSUMED) # q)"
    "map fst q = [b..mn_nextIOBlockNum nd - 1]" "\<forall>p \<in> set q. snd p \<noteq> BEING_CONSUMED"
    using base by (auto simp: node_base_def queue_ok_def)
  have up: "[b..mn_nextIOBlockNum nd - 1] = b # [b + 1..mn_nextIOBlockNum nd - 1]" using ahead by (simp add: upto_rec1)
  then obtain st q' where q': "q = (b, st) # q'" "st \<noteq> BEING_CONSUMED" "map fst q' = [b + 1..mn_nextIOBlockNum nd - 1]"
    using q(2,3) by (cases q) auto
  define nd1 where "nd1 = nd\<lparr> mn_readQ := q \<rparr>"
  define free1 where "free1 = (if mn_readQ nd = q then free else free + 1)"
  have "release_consumed nd free = (nd1, free1)"
    using q(1) q' by (cases st) (auto simp: release_consumed_def nd1_def free1_def)
  moreover have "length (mn_readQ nd1) + free1 = length (mn_readQ nd) + free" "free \<le> free1"
    using q(1) by (auto simp: nd1_def free1_def)
  moreover have "node_at e s nd1 [] (g # gs) b"
    using base ahead q(2,3) by (auto simp: nd1_def node_at_def node_base_def queue_ok_def)
  moreover
  obtain head where h: "sc_disk s b = Some (head, concat g)" "bh_numRecs head = length g"
      "bh_nextBlockNum head = - 1 \<longleftrightarrow> gs = []" "gs \<noteq> [] \<longrightarrow> run_stored (sc_disk s) (b + 1) gs"
    using base by (auto simp: node_base_def block_holds_def split: option.splits)
  define nd2 where "nd2 = nd1\<lparr> mn_readQ := (b, BEING_CONSUMED) # q' \<rparr>"
  have "se_read_ok e b" using base ahead by (auto simp: node_base_def)
  then have "checkIO_node e waited nd1 = (if st = READING \<and> \<not> waited then (IO_NOT_COMPLETE, nd1) else (SCRATCH_SUCCESS, nd2))"
    using q' by (auto simp: checkIO_node_def nd1_def nd2_def)
  moreover have "node_base e s (nd2\<lparr> mn_blockHead := head, mn_scrBlock := concat g, mn_nextReadPosition := 0, mn_numRecsRead := 0 \<rparr>)
      g gs (b + 1)"
    using base ahead h q' q(3) by (auto simp: nd2_def nd1_def node_base_def queue_ok_def)
  moreover have "length (mn_readQ nd2) = length (mn_readQ nd1)" "fst (hd (mn_readQ nd2)) = b"
    using q' by (auto simp: nd2_def nd1_def)
  ultimately show ?thesis using h(1) by (auto split: if_splits)
qed

subsection \<open>A read delivers the next record of its run\<close>

lemma node_okI:
  assumes "\<forall>r \<in> set rs. rec_ok nbytes reclen r" and "rs = g @ concat gs" and "node_at e s nd g gs b"
  shows "node_ok e nbytes reclen s nd rs"
  using assms unfolding node_ok_def by blast

lemma node_ok_cong:
  assumes "sc_disk s' = sc_disk s" and "sc_totalNumOfScrBlocks s' = sc_totalNumOfScrBlocks s"
  shows "node_ok e nbytes reclen s' nd rs = node_ok e nbytes reclen s nd rs"
  using assms by (simp add: node_ok_def node_at_def node_base_def)

lemma pool_bound:
  assumes "\<forall>j < length xs. xs ! j \<le> (m :: nat)" and "i < length xs" and "m * length xs \<le> free + sum_list xs"
  shows "m \<le> free + xs ! i"
proof -
  have "sum_list xs = xs ! i + sum_list (take i xs @ drop (Suc i) xs)"
    using assms(2) by (subst id_take_nth_drop [of i xs]) auto
  moreover have "sum_list ys \<le> m * length ys" if "\<forall>y \<in> set ys. y \<le> m" for ys :: "nat list"
    using that by (induction ys) auto
  then have "sum_list (take i xs @ drop (Suc i) xs) \<le> m * length (take i xs @ drop (Suc i) xs)"
    using assms(1) by (metis (no_types, lifting) Un_iff in_set_conv_nth in_set_dropD in_set_takeD set_append)
  moreover have "length (take i xs @ drop (Suc i) xs) = length xs - 1" using assms(2) by auto
  moreover have "m * length xs = m + m * (length xs - 1)" using assms(2) by (cases xs) auto
  ultimately show ?thesis using assms(3) by simp
qed

lemma scratch_inv_pool:
  assumes "scratch_inv e nbytes reclen s rss" and "i < length rss"
  shows "2 * sc_sortMergeBlocksPerBuffer s \<le> sc_freeSortMergeBufferPool s + length (mn_readQ (sc_nodes s ! i))"
  using pool_bound [of "map (length \<circ> mn_readQ) (sc_nodes s)" "2 * sc_sortMergeBlocksPerBuffer s" i] assms
  by (auto simp: scratch_inv_def)

lemma scratch_inv_put:
  assumes "scratch_inv e nbytes reclen s rss" and "i < length rss" and "node_ok e nbytes reclen s nd rs"
    and "length (mn_readQ nd) \<le> 2 * sc_sortMergeBlocksPerBuffer s"
    and "length (mn_readQ nd) + free = length (mn_readQ (sc_nodes s ! i)) + sc_freeSortMergeBufferPool s"
  shows "scratch_inv e nbytes reclen
    (s\<lparr> sc_clock := c, sc_nodes := (sc_nodes s)[i := nd], sc_freeSortMergeBufferPool := free \<rparr>) (rss[i := rs])"
proof -
  let ?s = "s\<lparr> sc_clock := c, sc_nodes := (sc_nodes s)[i := nd], sc_freeSortMergeBufferPool := free \<rparr>"
  have len: "length (sc_nodes s) = length rss" using assms(1) by (simp add: scratch_inv_def)
  have "sum_list (map (length \<circ> mn_readQ) ((sc_nodes s)[i := nd])) + length (mn_readQ (sc_nodes s ! i))
      = sum_list (map (length \<circ> mn_readQ) (sc_nodes s)) + length (mn_readQ nd)"
    using assms(2) len member_le_sum_list [of "length (mn_readQ (sc_nodes s ! i))" "map (length \<circ> mn_readQ) (sc_nodes s)"]
    by (simp add: map_update sum_list_update)
  moreover have "node_ok e nbytes reclen ?s = node_ok e nbytes reclen s"
    by (intro ext node_ok_cong) simp_all
  ultimately show ?thesis
    using assms len by (auto simp: scratch_inv_def nth_list_update)
qed

text \<open>What one call answers, and the records the runs have left after it.\<close>

definition read_answers :: "bool \<Rightarrow> byte list list list \<Rightarrow> nat \<Rightarrow> RESULT \<times> byte list \<Rightarrow> byte list list list \<Rightarrow> bool" where
  "read_answers waited rss i a rss' =
     (case rss ! i of
        [] \<Rightarrow> fst a = END_OF_RUN \<and> rss' = rss
      | r # rs \<Rightarrow> (a = (SCRATCH_SUCCESS, r) \<and> rss' = rss[i := rs])
          \<or> (fst a = IO_NOT_COMPLETE \<and> \<not> waited \<and> rss' = rss))"

text \<open>The three ways a call goes: the block has records left, the run is at its end, a block has to be taken.\<close>

lemma read_within_block:
  assumes "scratch_inv e nbytes reclen s rss" and "i < length rss" and "rss ! i = r # rs" and "\<forall>x \<in> set (r # rs). rec_ok nbytes reclen x"
    and "rs = g @ concat gs" and "node_at e s (refresh e (sc_clock s) (sc_nodes s ! i)) (r # g) gs b"
  shows "\<exists>s'. readSortMergeNode e nbytes reclen waited i s = ((SCRATCH_SUCCESS, r), s') \<and> scratch_inv e nbytes reclen s' (rss[i := rs])"
proof -
  define nd where "nd = refresh e (sc_clock s) (sc_nodes s ! i)"
  have base: "node_base e s nd (r # g) gs b" "gs \<noteq> [] \<longrightarrow> b < mn_nextIOBlockNum nd" using assms(6) by (auto simp: nd_def node_at_def)
  then obtain nd' where nd': "take_record nbytes reclen nd = (r, nd')" "node_base e s nd' g gs b"
      "mn_readQ nd' = mn_readQ nd" "mn_nextIOBlockNum nd' = mn_nextIOBlockNum nd"
    using take_record_node assms(4) by (metis list.set_intros(1))
  then have ok: "node_ok e nbytes reclen s nd' rs"
    using assms(4,5) base(2) by (intro node_okI [where g = g and gs = gs and b = b]) (simp_all add: node_at_def)
  have "length (mn_readQ nd') = length (mn_readQ (sc_nodes s ! i))" by (simp add: nd' nd_def)
  moreover have "length (mn_readQ (sc_nodes s ! i)) \<le> 2 * sc_sortMergeBlocksPerBuffer s"
    using assms(1,2) by (simp add: scratch_inv_def)
  ultimately have "scratch_inv e nbytes reclen (s\<lparr> sc_clock := sc_clock s + 1, sc_nodes := (sc_nodes s)[i := nd'],
      sc_freeSortMergeBufferPool := sc_freeSortMergeBufferPool s \<rparr>) (rss[i := rs])"
    by (intro scratch_inv_put assms(1,2) ok) simp_all
  moreover have "mn_numRecsRead nd \<noteq> bh_numRecs (mn_blockHead nd)" using base(1) by (simp add: node_base_def)
  ultimately show ?thesis using nd'(1) by (simp add: readSortMergeNode_def Let_def nd_def [symmetric])
qed

lemma read_at_end:
  assumes "scratch_inv e nbytes reclen s rss" and "i < length rss" and "rss ! i = []"
    and "node_at e s (refresh e (sc_clock s) (sc_nodes s ! i)) [] [] b"
  shows "\<exists>s'. readSortMergeNode e nbytes reclen waited i s = ((END_OF_RUN, []), s') \<and> scratch_inv e nbytes reclen s' rss"
proof -
  define nd where "nd = refresh e (sc_clock s) (sc_nodes s ! i)"
  have ok: "node_ok e nbytes reclen s nd []"
    using assms(4) by (intro node_okI [where g = "[]" and gs = "[]" and b = b]) (simp_all add: nd_def)
  have "length (mn_readQ (sc_nodes s ! i)) \<le> 2 * sc_sortMergeBlocksPerBuffer s" using assms(1,2) by (simp add: scratch_inv_def)
  then have "scratch_inv e nbytes reclen (s\<lparr> sc_clock := sc_clock s + 1, sc_nodes := (sc_nodes s)[i := nd],
      sc_freeSortMergeBufferPool := sc_freeSortMergeBufferPool s \<rparr>) (rss[i := []])"
    by (intro scratch_inv_put assms(1,2) ok) (simp_all add: nd_def)
  moreover have "rss[i := []] = rss" using assms(3) by (metis list_update_id)
  moreover have "mn_numRecsRead nd = bh_numRecs (mn_blockHead nd)" "bh_nextBlockNum (mn_blockHead nd) = - 1"
    using assms(4) by (simp_all add: node_at_def node_base_def nd_def)
  ultimately show ?thesis by (simp add: readSortMergeNode_def Let_def nd_def [symmetric])
qed

lemma read_next_block:
  assumes inv: "scratch_inv e nbytes reclen s rss" and i: "i < length rss" and rs: "rss ! i = r # rs"
    and ok: "\<forall>x \<in> set (r # rs). rec_ok nbytes reclen x"
    and gs: "rs = g @ concat gs" and nd: "node_at e s (refresh e (sc_clock s) (sc_nodes s ! i)) [] ((r # g) # gs) b"
  shows "\<exists>a s' rss'. readSortMergeNode e nbytes reclen waited i s = (a, s') \<and> read_answers waited rss i a rss'
    \<and> scratch_inv e nbytes reclen s' rss'"
proof -
  define nd where "nd = refresh e (sc_clock s) (sc_nodes s ! i)"
  let ?free = "sc_freeSortMergeBufferPool s" and ?pb = "sc_sortMergeBlocksPerBuffer s"
  have cond: "mn_numRecsRead nd = bh_numRecs (mn_blockHead nd)" "bh_nextBlockNum (mn_blockHead nd) \<noteq> - 1"
    using nd by (simp_all add: node_at_def node_base_def nd_def)
  have len: "length (mn_readQ nd) = length (mn_readQ (sc_nodes s ! i))" by (simp add: nd_def)
  have pool: "2 * ?pb \<le> ?free + length (mn_readQ nd)" and pb: "?pb \<ge> 1" and q: "length (mn_readQ nd) \<le> 2 * ?pb"
    using scratch_inv_pool [OF inv i] inv i by (auto simp: scratch_inv_def len)
  obtain nd1 free1 where 1: "release_consumed nd ?free = (nd1, free1)" "length (mn_readQ nd1) + free1 = length (mn_readQ nd) + ?free"
      "?free \<le> free1"
      "(checkIO_node e waited nd1 = (IO_NOT_COMPLETE, nd1) \<and> \<not> waited \<and> node_at e s nd1 [] ((r # g) # gs) b)
      \<or> (\<exists>nd2 head. checkIO_node e waited nd1 = (SCRATCH_SUCCESS, nd2) \<and> length (mn_readQ nd2) = length (mn_readQ nd1)
          \<and> fst (hd (mn_readQ nd2)) = b \<and> sc_disk s b = Some (head, concat (r # g))
          \<and> node_base e s (nd2\<lparr> mn_blockHead := head, mn_scrBlock := concat (r # g), mn_nextReadPosition := 0, mn_numRecsRead := 0 \<rparr>)
              (r # g) gs (b + 1))"
    using next_block_works [OF nd [folded nd_def], of ?free waited] by blast
  consider (wait) "checkIO_node e waited nd1 = (IO_NOT_COMPLETE, nd1)" "\<not> waited" "node_at e s nd1 [] ((r # g) # gs) b"
    | (load) nd2 head where "checkIO_node e waited nd1 = (SCRATCH_SUCCESS, nd2)" "length (mn_readQ nd2) = length (mn_readQ nd1)"
        "fst (hd (mn_readQ nd2)) = b" "sc_disk s b = Some (head, concat (r # g))"
        "node_base e s (nd2\<lparr> mn_blockHead := head, mn_scrBlock := concat (r # g), mn_nextReadPosition := 0, mn_numRecsRead := 0 \<rparr>)
              (r # g) gs (b + 1)"
    using 1(4) by blast
  then show ?thesis
  proof cases
    case wait
    then have "node_ok e nbytes reclen s nd1 (r # rs)"
      using ok gs by (intro node_okI [where g = "[]" and gs = "(r # g) # gs" and b = b]) simp_all
    then have "scratch_inv e nbytes reclen (s\<lparr> sc_clock := sc_clock s + 1, sc_nodes := (sc_nodes s)[i := nd1],
        sc_freeSortMergeBufferPool := free1 \<rparr>) (rss[i := r # rs])"
      using 1 q len by (intro scratch_inv_put inv i) auto
    moreover have "rss[i := r # rs] = rss" using rs by (metis list_update_id)
    ultimately show ?thesis
      using wait(1,2) 1(1) cond rs by (auto simp: readSortMergeNode_def Let_def nd_def [symmetric] read_answers_def)
  next
    case load
    let ?nd2 = "nd2\<lparr> mn_blockHead := head, mn_scrBlock := concat (r # g), mn_nextReadPosition := 0, mn_numRecsRead := 0 \<rparr>"
    obtain nd3 where 3: "take_record nbytes reclen ?nd2 = (r, nd3)" "node_base e s nd3 g gs (b + 1)" "mn_readQ nd3 = mn_readQ nd2"
      using take_record_node [OF load(5), of nbytes reclen] ok by auto
    have "length (mn_readQ nd3) \<le> ?pb \<Longrightarrow> ?pb \<le> free1" using 1(2,3) pool load(2) 3(3) by simp
    moreover have "length (mn_readQ nd3) \<le> 2 * ?pb" using 1(2,3) q load(2) 3(3) by simp
    ultimately obtain q m where 4: "initiate_read ?pb nd3 free1 = (SCRATCH_SUCCESS, queued q m nd3, free1 - m)" "m \<le> free1"
        "length q = length (mn_readQ nd3) + m" "length q \<le> 2 * ?pb" "node_at e s (queued q m nd3) g gs (b + 1)"
      using initiate_read_works [OF 3(2) pb] by blast
    have "node_ok e nbytes reclen s (queued q m nd3) rs"
      using 4(5) ok gs by (intro node_okI [where g = g and gs = gs and b = "b + 1"]) simp_all
    then have "scratch_inv e nbytes reclen (s\<lparr> sc_clock := sc_clock s + 1, sc_nodes := (sc_nodes s)[i := queued q m nd3],
        sc_freeSortMergeBufferPool := free1 - m \<rparr>) (rss[i := rs])"
      using 4(2-4) 1(2) 3(3) load(2) len by (intro scratch_inv_put inv i) (auto simp: queued_def)
    then show ?thesis
      using load(1,3,4) 1(1) 3(1) 4(1) cond rs
      by (auto simp: readSortMergeNode_def Let_def nd_def [symmetric] read_answers_def)
  qed
qed

theorem readSortMergeNode_works:
  assumes inv: "scratch_inv e nbytes reclen s rss" and i: "i < length rss"
  shows "\<exists>a s' rss'. readSortMergeNode e nbytes reclen waited i s = (a, s') \<and> read_answers waited rss i a rss'
    \<and> scratch_inv e nbytes reclen s' rss'"
proof -
  have "node_ok e nbytes reclen s (sc_nodes s ! i) (rss ! i)" using inv i by (simp add: scratch_inv_def)
  then obtain g gs b where rs: "rss ! i = g @ concat gs" and ok: "\<forall>x \<in> set (rss ! i). rec_ok nbytes reclen x"
      and nd0: "node_at e s (sc_nodes s ! i) g gs b"
    unfolding node_ok_def by blast
  note nd = refresh_node_at [OF nd0, of "sc_clock s"]
  consider (within) r g' where "g = r # g'" | (eor) "g = []" "gs = []" | (next_block) g1 gs' where "g = []" "gs = g1 # gs'"
    by (cases g; cases gs) auto
  then show ?thesis
  proof cases
    case within
    then show ?thesis
      using read_within_block [OF inv i, of r "g' @ concat gs" g' gs b waited] rs ok nd by (auto simp: read_answers_def)
  next
    case eor
    then show ?thesis using read_at_end [OF inv i, of b waited] rs nd by (auto simp: read_answers_def)
  next
    case next_block
    have "g1 \<noteq> []" using nd next_block by (auto simp: node_at_def node_base_def block_holds_def)
    then obtain r g' where "g1 = r # g'" by (cases g1) auto
    then show ?thesis using read_next_block [OF inv i, of r "g' @ concat gs'" g' gs' b waited] rs ok nd next_block by auto
  qed
qed

text \<open>A call has to wait only for a read that is still running.\<close>

definition prompt :: "scratch_env \<Rightarrow> bool" where
  "prompt e = (\<forall>clock b. se_read_done e clock b)"

lemma queue_reads_result: "fst (queue_reads k nd free) \<noteq> IO_NOT_COMPLETE"
  by (induction k arbitrary: nd free) simp_all

lemma initiate_read_result: "fst (initiate_read k nd free) \<noteq> IO_NOT_COMPLETE"
  by (simp add: initiate_read_def queue_reads_result)

lemma refresh_prompt:
  assumes "prompt e" and "p \<in> set (mn_readQ (refresh e c nd))"
  shows "snd p \<noteq> READING"
  using assms by (auto simp: refresh_def prompt_def split: if_splits)

lemma checkIO_no_wait:
  assumes "\<forall>p \<in> set (mn_readQ nd). snd p \<noteq> READING"
  shows "fst (checkIO_node e waited nd) \<noteq> IO_NOT_COMPLETE"
  using assms by (auto simp: checkIO_node_def split: list.splits)

lemma read_prompt:
  assumes "prompt e"
  shows "fst (fst (readSortMergeNode e nbytes reclen waited i s)) \<noteq> IO_NOT_COMPLETE"
proof -
  let ?nd = "refresh e (sc_clock s) (sc_nodes s ! i)"
  obtain nd1 free1 where r: "release_consumed ?nd (sc_freeSortMergeBufferPool s) = (nd1, free1)" by fastforce
  have "set (mn_readQ nd1) \<subseteq> set (mn_readQ ?nd)"
    using r by (auto simp: release_consumed_def split: list.splits prod.splits io_state.splits)
  then have "fst (checkIO_node e waited nd1) \<noteq> IO_NOT_COMPLETE"
    using refresh_prompt [OF assms] by (intro checkIO_no_wait) blast
  then show ?thesis
    using initiate_read_result
    by (auto simp: readSortMergeNode_def Let_def r split: prod.splits option.splits RESULT.splits)
      (metis fst_conv)+
qed

end
