(* ===== verification/Sort_Tree.thy ===== *)
theory Sort_Tree
  imports Sort_Scratch "HOL-Library.Option_ord" "HOL-Library.Product_Lexorder"
begin

text \<open>
  The tournament tree that merges runs (\<^verbatim>\<open>TourTree.cpp\<close>, \<^verbatim>\<open>TreeNode.cpp\<close>).  Node \<open>i\<close> is at the same time the
  player that reads run \<open>i\<close> and, for \<open>i > 0\<close>, the inner node of the tree that remembers a loser.  A pointer to a node
  is its index.  The scratch space is the state \<^verbatim>\<open>'s\<close>, used through the operations given as arguments: \<open>rd\<close> reads the
  next record of a player (\<^verbatim>\<open>readSortMergeNode\<close>), \<open>put\<close> and \<open>flush\<close> write to a run (\<^verbatim>\<open>writeRunData\<close>, \<^verbatim>\<open>flushRun\<close>).
\<close>

section \<open>Data\<close>

record tree_node =
  tn_key :: "byte list option"
  tn_rec :: "byte list"
  tn_recSize :: nat
  tn_loser :: nat
  tn_run :: nat

record 's tree =
  tr_nodes :: "tree_node list"
  tr_winner :: nat
  tr_winnerRun :: nat
  tr_currentRun :: nat
  tr_maxRuns :: nat
  tr_keyOfLastWinner :: "byte list"
  tr_scratch :: 's

record sort_config =
  cf_recSize :: nat
  cf_keySize :: nat
  cf_numberOfBytesForRecordSize :: nat
  cf_resizeCifRecord :: bool

text \<open>The constructor; the players are opened on their runs by \<^const>\<open>open_nodes\<close>.\<close>

definition treenode_initialize :: "sort_config \<Rightarrow> nat \<Rightarrow> tree_node" where
  "treenode_initialize c i = \<lparr> tn_key = None, tn_rec = [], tn_recSize = cf_recSize c, tn_loser = i, tn_run = 0 \<rparr>"

definition tree_new :: "sort_config \<Rightarrow> nat \<Rightarrow> 's \<Rightarrow> 's tree" where
  "tree_new c numRuns s =
     \<lparr> tr_nodes = map (treenode_initialize c) [0..<numRuns], tr_winner = 0, tr_winnerRun = 0, tr_currentRun = 0,
       tr_maxRuns = 0, tr_keyOfLastWinner = replicate (cf_keySize c) 255, tr_scratch = s \<rparr>"

section \<open>The tournament\<close>

definition getFe :: "nat \<Rightarrow> 's tree \<Rightarrow> nat" where
  "getFe i t = (i + length (tr_nodes t)) div 2"

definition getFi :: "nat \<Rightarrow> nat" where
  "getFi i = i div 2"

abbreviation (input) node_key :: "'s tree \<Rightarrow> nat \<Rightarrow> byte list option" where
  "node_key t i \<equiv> tn_key (tr_nodes t ! i)"

text \<open>One turn of the loop in \<^verbatim>\<open>determineNewWinner\<close>: the winner against the loser kept at node \<open>j\<close>.\<close>

definition challenge :: "nat \<Rightarrow> nat \<Rightarrow> 's tree \<Rightarrow> 's tree" where
  "challenge n j t =
     (let nd = tr_nodes t ! j; r = compare_key n (node_key t (tn_loser nd)) (node_key t (tr_winner t))
      in if tn_run nd < tr_winnerRun t \<or> tn_run nd = tr_winnerRun t \<and> r < KEY1_IS_GREATER
         then t\<lparr> tr_nodes := (tr_nodes t)[j := nd\<lparr> tn_loser := tr_winner t, tn_run := tr_winnerRun t \<rparr>],
                 tr_winner := tn_loser nd, tr_winnerRun := tn_run nd \<rparr>
         else t)"

text \<open>From node 0, its own parent, the loop would not come back: \<^const>\<open>None\<close>.\<close>

function replay :: "nat \<Rightarrow> nat \<Rightarrow> 's tree \<Rightarrow> 's tree option" where
  "replay n j t =
     (if j = 0 then None
      else let t' = challenge n j t in if j = 1 then Some t' else replay n (getFi j) t')"
  by pat_completeness auto
termination by (relation "measure (\<lambda>(n, j, t). j)") (auto simp: getFi_def)

declare replay.simps [simp del]

definition determineNewWinner :: "nat \<Rightarrow> 's tree \<Rightarrow> 's tree option" where
  "determineNewWinner n t = replay n (getFe (tr_winner t) t) t"

section \<open>Reading and writing a record\<close>

text \<open>
  \<^verbatim>\<open>TreeNode::inputScr\<close> with \<^verbatim>\<open>Record::getFromScr\<close>: the size of the record is set on every call, to the largest size
  when no record is delivered.
\<close>

type_synonym 's reader = "bool \<Rightarrow> nat \<Rightarrow> 's \<Rightarrow> (RESULT \<times> byte list) \<times> 's"

definition inputScr :: "sort_config \<Rightarrow> 's reader \<Rightarrow> bool \<Rightarrow> 's tree \<Rightarrow> RESULT \<times> 's tree" where
  "inputScr c rd waited t =
     (let w = tr_winner t; nd = tr_nodes t ! w
      in case rd waited w (tr_scratch t) of ((rc, rec), s) \<Rightarrow>
           (rc, t\<lparr> tr_nodes := (tr_nodes t)[w :=
                     (if rc = SCRATCH_SUCCESS
                      then nd\<lparr> tn_key := Some (drop (cf_numberOfBytesForRecordSize c) rec), tn_rec := rec,
                               tn_recSize := length rec \<rparr>
                      else nd\<lparr> tn_recSize := cf_recSize c \<rparr>)],
                   tr_scratch := s \<rparr>))"

definition set_keyOfLastWinner :: "nat \<Rightarrow> 's tree \<Rightarrow> 's tree option" where
  "set_keyOfLastWinner n t =
     map_option (\<lambda>k. t\<lparr> tr_keyOfLastWinner := take n k \<rparr>) (node_key t (tr_winner t))"

definition bump_run :: "'s tree \<Rightarrow> 's tree" where
  "bump_run t =
     (let r = tr_winnerRun t + 1
      in t\<lparr> tr_winnerRun := r, tr_maxRuns := (if r > tr_maxRuns t then r else tr_maxRuns t) \<rparr>)"

definition out_of_order :: "nat \<Rightarrow> 's tree \<Rightarrow> bool" where
  "out_of_order n t = (compare_key n (Some (tr_keyOfLastWinner t)) (node_key t (tr_winner t)) \<ge> KEY1_IS_GREATER)"

section \<open>The final merge\<close>

text \<open>What a call of \<^verbatim>\<open>sortReceive\<close> answers: a record with its length, the end (length 0), a pending read, an error.\<close>

datatype receive_answer = Received "byte list" nat | NoMore | SORT_IO_IN_PROGRESS | SORT_FAILED RESULT

text \<open>One turn of the loop: it returns with an answer or goes on.\<close>

definition receive_turn ::
  "sort_config \<Rightarrow> 's reader \<Rightarrow> 's tree \<Rightarrow> (receive_answer option \<times> 's tree) option" where
  "receive_turn c rd t =
     (if tr_winnerRun t \<noteq> tr_currentRun t \<and> tr_winnerRun t > tr_maxRuns t then Some (Some NoMore, t)
      else
        let t1 = (if tr_winnerRun t \<noteq> tr_currentRun t then t\<lparr> tr_currentRun := tr_winnerRun t \<rparr> else t);
            nd = tr_nodes t1 ! tr_winner t1
        in do {
          t2 \<leftarrow> (if tr_winnerRun t1 \<noteq> 0 then set_keyOfLastWinner (cf_keySize c) t1 else Some t1);
          (case inputScr c rd False t2 of
             (END_OF_RUN, t3) \<Rightarrow> do {
               t4 \<leftarrow> determineNewWinner (cf_keySize c) (t3\<lparr> tr_winnerRun := tr_maxRuns t3 + 1 \<rparr>);
               Some (if tr_currentRun t4 \<noteq> 0 then Some (Received (tn_rec nd) (tn_recSize nd)) else None, t4) }
           | (SCRATCH_SUCCESS, t3) \<Rightarrow> do {
               t4 \<leftarrow> determineNewWinner (cf_keySize c)
                       (if tr_winnerRun t3 = 0 \<or> out_of_order (cf_keySize c) t3 then bump_run t3 else t3);
               Some (if tr_currentRun t4 \<noteq> 0 then Some (Received (tn_rec nd) (tn_recSize nd)) else None, t4) }
           | (IO_NOT_COMPLETE, t3) \<Rightarrow> Some (Some SORT_IO_IN_PROGRESS, t3)
           | (rc, t3) \<Rightarrow> Some (Some (SORT_FAILED rc), t3)) })"

partial_function (option) receive_loop ::
  "sort_config \<Rightarrow> 's reader \<Rightarrow> 's tree \<Rightarrow> (receive_answer \<times> 's tree) option" where
  "receive_loop c rd t =
     (case receive_turn c rd t of
        None \<Rightarrow> None
      | Some (Some a, t') \<Rightarrow> Some (a, t')
      | Some (None, t') \<Rightarrow> receive_loop c rd t')"

declare receive_loop.simps [code]

definition sortReceive :: "sort_config \<Rightarrow> 's reader \<Rightarrow> 's tree \<Rightarrow> (receive_answer \<times> 's tree) option" where
  "sortReceive c rd t =
     (if length (tr_nodes t) = 0 then Some (NoMore, t)
      else if length (tr_nodes t) = 1 then
        (case inputScr c rd False t of
           (SCRATCH_SUCCESS, t') \<Rightarrow>
             (let nd = tr_nodes t' ! tr_winner t' in Some (Received (tn_rec nd) (tn_recSize nd), t'))
         | (IO_NOT_COMPLETE, t') \<Rightarrow> Some (SORT_IO_IN_PROGRESS, t')
         | (_, t') \<Rightarrow> Some (NoMore, t'))
      else receive_loop c rd t)"

section \<open>The intermediate merge\<close>

text \<open>
  \<^verbatim>\<open>TreeNode::outputScr\<close>: the record of the winner is written and its key forgotten.  A size beyond the record would
  copy bytes that are not the record's: \<^const>\<open>None\<close>.
\<close>

type_synonym 's writer = "nat \<Rightarrow> byte list \<Rightarrow> 's \<Rightarrow> (RESULT \<times> 's) option"

definition outputScr :: "'s writer \<Rightarrow> nat \<Rightarrow> nat \<Rightarrow> 's tree \<Rightarrow> (RESULT \<times> 's tree) option" where
  "outputScr put run reclen t =
     (let w = tr_winner t; nd = tr_nodes t ! w
      in if reclen \<le> length (tn_rec nd) then
           do { (rc, s) \<leftarrow> put run (take reclen (tn_rec nd)) (tr_scratch t);
                Some (rc, if rc = SCRATCH_SUCCESS
                          then t\<lparr> tr_nodes := (tr_nodes t)[w := nd\<lparr> tn_key := None \<rparr>], tr_scratch := s \<rparr>
                          else t\<lparr> tr_scratch := s \<rparr>) }
         else None)"

text \<open>The head of the loop: the end of a run is flushed; all is done when the winner is behind the last run.\<close>

definition inter_head :: "('s \<Rightarrow> RESULT \<times> 's) \<Rightarrow> 's tree \<Rightarrow> RESULT option \<times> 's tree" where
  "inter_head flush t =
     (if tr_winnerRun t = tr_currentRun t then (None, t)
      else case (if tr_currentRun t \<noteq> 0 then flush (tr_scratch t) else (SCRATCH_SUCCESS, tr_scratch t)) of (rc, s) \<Rightarrow>
        let t1 = t\<lparr> tr_scratch := s \<rparr>
        in if rc \<noteq> SCRATCH_SUCCESS then (Some rc, t1)
           else if tr_winnerRun t1 > tr_maxRuns t1 then (Some SCRATCH_SUCCESS, t1)
           else (None, t1\<lparr> tr_currentRun := tr_winnerRun t1 \<rparr>))"

definition inter_output ::
  "sort_config \<Rightarrow> 's writer \<Rightarrow> nat \<Rightarrow> 's tree \<Rightarrow> (RESULT \<times> 's tree) option" where
  "inter_output c put numRuns t =
     (if tr_winnerRun t = 0 then Some (SCRATCH_SUCCESS, t)
      else do {
        t1 \<leftarrow> set_keyOfLastWinner (cf_keySize c) t;
        outputScr put (tr_currentRun t1 + numRuns)
          (if cf_resizeCifRecord c then tn_recSize (tr_nodes t1 ! tr_winner t1) else cf_recSize c) t1 })"

definition inter_input :: "sort_config \<Rightarrow> 's reader \<Rightarrow> 's tree \<Rightarrow> (RESULT option \<times> 's tree) option" where
  "inter_input c rd t =
     (case inputScr c rd True t of
        (END_OF_RUN, t1) \<Rightarrow>
          do { t2 \<leftarrow> determineNewWinner (cf_keySize c) (t1\<lparr> tr_winnerRun := tr_maxRuns t1 + 1 \<rparr>); Some (None, t2) }
      | (SCRATCH_SUCCESS, t1) \<Rightarrow>
          do { t2 \<leftarrow> determineNewWinner (cf_keySize c) (if out_of_order (cf_keySize c) t1 then bump_run t1 else t1);
               Some (None, t2) }
      | (rc, t1) \<Rightarrow> Some (Some rc, t1))"

definition inter_turn ::
  "sort_config \<Rightarrow> 's reader \<Rightarrow> 's writer \<Rightarrow> ('s \<Rightarrow> RESULT \<times> 's) \<Rightarrow> nat \<Rightarrow> 's tree \<Rightarrow> (RESULT option \<times> 's tree) option" where
  "inter_turn c rd put flush numRuns t =
     (case inter_head flush t of
        (Some rc, t1) \<Rightarrow> Some (Some rc, t1)
      | (None, t1) \<Rightarrow>
          (case inter_output c put numRuns t1 of
             None \<Rightarrow> None
           | Some (rc, t2) \<Rightarrow> if rc \<noteq> SCRATCH_SUCCESS then Some (Some rc, t2) else inter_input c rd t2))"

partial_function (option) inter_loop ::
  "sort_config \<Rightarrow> 's reader \<Rightarrow> 's writer \<Rightarrow> ('s \<Rightarrow> RESULT \<times> 's) \<Rightarrow> nat \<Rightarrow> 's tree \<Rightarrow> (RESULT \<times> 's tree) option" where
  "inter_loop c rd put flush numRuns t =
     (case inter_turn c rd put flush numRuns t of
        None \<Rightarrow> None
      | Some (Some rc, t') \<Rightarrow> Some (rc, t')
      | Some (None, t') \<Rightarrow> inter_loop c rd put flush numRuns t')"

declare inter_loop.simps [code]

definition generateInterRuns ::
  "sort_config \<Rightarrow> 's reader \<Rightarrow> 's writer \<Rightarrow> ('s \<Rightarrow> RESULT \<times> 's) \<Rightarrow> ('s \<Rightarrow> nat) \<Rightarrow> 's tree \<Rightarrow> (RESULT \<times> 's tree) option" where
  "generateInterRuns c rd put flush numOfRuns t = inter_loop c rd put flush (numOfRuns (tr_scratch t)) t"

section \<open>The order of the players\<close>

text \<open>A player counts with its run and the part of its key that is compared; a missing key comes first.\<close>

type_synonym standing = "nat \<times> byte list option"

definition key_part :: "nat \<Rightarrow> byte list option \<Rightarrow> byte list option" where
  "key_part n k = map_option (take n) k"

definition key_wf :: "nat \<Rightarrow> byte list option \<Rightarrow> bool" where
  "key_wf n k = (case k of None \<Rightarrow> True | Some b \<Rightarrow> n \<le> length b)"

lemma compare_key_le:
  assumes "key_wf n k1" and "key_wf n k2"
  shows "compare_key n k1 k2 < 1 \<longleftrightarrow> key_part n k1 \<le> key_part n k2"
proof (cases "k1 = None \<or> k2 = None")
  case True
  then show ?thesis by (auto simp: compare_key_def key_part_def split: option.splits)
next
  case False
  then obtain b1 b2 where "k1 = Some b1" "k2 = Some b2" by auto
  then show ?thesis
    using compare_key_greater [of n b1 b2] assms by (auto simp: key_part_def key_wf_def not_le [symmetric])
qed

definition winner_standing :: "nat \<Rightarrow> 's tree \<Rightarrow> standing" where
  "winner_standing n t = (tr_winnerRun t, key_part n (node_key t (tr_winner t)))"

definition loser_standing :: "nat \<Rightarrow> 's tree \<Rightarrow> nat \<Rightarrow> standing" where
  "loser_standing n t j = (tn_run (tr_nodes t ! j), key_part n (node_key t (tn_loser (tr_nodes t ! j))))"

text \<open>Every player has one place, as the winner or as a loser.\<close>

definition places :: "'s tree \<Rightarrow> nat list" where
  "places t = tr_winner t # map (\<lambda>j. tn_loser (tr_nodes t ! j)) [1..<length (tr_nodes t)]"

definition seated :: "nat \<Rightarrow> 's tree \<Rightarrow> (nat \<Rightarrow> standing) \<Rightarrow> bool" where
  "seated n t pv =
     (distinct (places t) \<and> set (places t) \<subseteq> {..<length (tr_nodes t)}
      \<and> pv (tr_winner t) = winner_standing n t
      \<and> (\<forall>j. 1 \<le> j \<longrightarrow> j < length (tr_nodes t) \<longrightarrow> pv (tn_loser (tr_nodes t ! j)) = loser_standing n t j)
      \<and> (\<forall>p < length (tr_nodes t). key_wf n (node_key t p)))"

text \<open>What a challenge does.\<close>

definition same_players :: "tree_node list \<Rightarrow> tree_node list \<Rightarrow> bool" where
  "same_players ns ns' =
     (map tn_key ns' = map tn_key ns \<and> map tn_rec ns' = map tn_rec ns \<and> map tn_recSize ns' = map tn_recSize ns)"

lemma same_players_nth:
  assumes "same_players ns ns'" and "i < length ns"
  shows "tn_key (ns' ! i) = tn_key (ns ! i)" "tn_rec (ns' ! i) = tn_rec (ns ! i)" "tn_recSize (ns' ! i) = tn_recSize (ns ! i)"
proof -
  have len: "length ns' = length ns" using assms(1) by (metis same_players_def length_map)
  have "map tn_key ns' ! i = map tn_key ns ! i" "map tn_rec ns' ! i = map tn_rec ns ! i"
      "map tn_recSize ns' ! i = map tn_recSize ns ! i"
    using assms(1) by (simp_all add: same_players_def)
  then show "tn_key (ns' ! i) = tn_key (ns ! i)" "tn_rec (ns' ! i) = tn_rec (ns ! i)" "tn_recSize (ns' ! i) = tn_recSize (ns ! i)"
    using len assms(2) by simp_all
qed

lemma same_players_length: "same_players ns ns' \<Longrightarrow> length ns' = length ns"
  by (metis same_players_def length_map)

lemma swap_places:
  assumes "k < length xs"
  shows "mset (xs ! k # xs[k := w]) = mset (w # xs)"
  using assms by (simp add: mset_update)

lemma challenge_cases:
  assumes "seated n t pv" and "1 \<le> j" and "j < length (tr_nodes t)"
  shows "challenge n j t =
    (if loser_standing n t j \<le> winner_standing n t
     then t\<lparr> tr_nodes := (tr_nodes t)[j := (tr_nodes t ! j)\<lparr> tn_loser := tr_winner t, tn_run := tr_winnerRun t \<rparr>],
             tr_winner := tn_loser (tr_nodes t ! j), tr_winnerRun := tn_run (tr_nodes t ! j) \<rparr>
     else t)"
proof -
  have "tn_loser (tr_nodes t ! j) \<in> set (places t)" "tr_winner t \<in> set (places t)"
    using assms(2,3) by (auto simp: places_def)
  then have "tn_loser (tr_nodes t ! j) < length (tr_nodes t)" "tr_winner t < length (tr_nodes t)"
    using assms(1) by (auto simp: seated_def)
  then have wf: "key_wf n (node_key t (tn_loser (tr_nodes t ! j)))" "key_wf n (node_key t (tr_winner t))"
    using assms(1) by (simp_all add: seated_def)
  have "(tn_run (tr_nodes t ! j) < tr_winnerRun t \<or> tn_run (tr_nodes t ! j) = tr_winnerRun t
      \<and> compare_key n (node_key t (tn_loser (tr_nodes t ! j))) (node_key t (tr_winner t)) < 1)
    \<longleftrightarrow> loser_standing n t j \<le> winner_standing n t"
    by (auto simp: loser_standing_def winner_standing_def less_eq_prod_def compare_key_le [OF wf])
  then show ?thesis by (simp only: challenge_def Let_def)
qed

lemma challenge_works:
  assumes seated: "seated n t pv" and j: "1 \<le> j" "j < length (tr_nodes t)"
  shows "seated n (challenge n j t) pv"
    "winner_standing n (challenge n j t) = min (winner_standing n t) (loser_standing n t j)"
    "loser_standing n (challenge n j t) i
       = (if i = j then max (winner_standing n t) (loser_standing n t j) else loser_standing n t i)"
    "\<exists>ns w r. challenge n j t = t\<lparr> tr_nodes := ns, tr_winner := w, tr_winnerRun := r \<rparr> \<and> same_players (tr_nodes t) ns"
proof -
  let ?nd = "tr_nodes t ! j" and ?P = "length (tr_nodes t)"
  define ns where "ns = (tr_nodes t)[j := ?nd\<lparr> tn_loser := tr_winner t, tn_run := tr_winnerRun t \<rparr>]"
  define t' where "t' = t\<lparr> tr_nodes := ns, tr_winner := tn_loser ?nd, tr_winnerRun := tn_run ?nd \<rparr>"
  have key: "tn_key (ns ! k) = tn_key (tr_nodes t ! k)" for k
    using j(2) by (cases "k = j") (simp_all add: ns_def)
  have lo: "tn_loser (ns ! k) = (if k = j then tr_winner t else tn_loser (tr_nodes t ! k))"
      "tn_run (ns ! k) = (if k = j then tr_winnerRun t else tn_run (tr_nodes t ! k))" for k
    using j(2) by (simp_all add: ns_def)
  have same: "same_players (tr_nodes t) ns"
    using j(2) by (auto simp: same_players_def ns_def map_update intro!: list_update_same_conv [THEN iffD2])
  have ws: "winner_standing n t' = loser_standing n t j"
    by (simp add: winner_standing_def loser_standing_def t'_def key)
  have ls: "loser_standing n t' k = (if k = j then winner_standing n t else loser_standing n t k)" for k
    by (simp add: winner_standing_def loser_standing_def t'_def key lo)
  have "seated n t' pv"
  proof -
    let ?L = "map (\<lambda>j. tn_loser (tr_nodes t ! j)) [1..<?P]"
    have "map (\<lambda>i. tn_loser (ns ! i)) [1..<?P] = ?L[j - 1 := tr_winner t]"
      using j by (intro nth_equalityI) (auto simp: ns_def nth_list_update)
    moreover have "?L ! (j - 1) = tn_loser ?nd" using j by (cases j) auto
    ultimately have "places t' = ?L ! (j - 1) # ?L[j - 1 := tr_winner t]"
      using j by (simp add: places_def t'_def ns_def)
    moreover have "places t = tr_winner t # ?L" by (simp add: places_def)
    ultimately have "mset (places t') = mset (places t)" using swap_places [of "j - 1" ?L "tr_winner t"] j by simp
    then have "distinct (places t')" "set (places t') = set (places t)"
      using seated by (auto simp: seated_def dest: mset_eq_imp_distinct_iff mset_eq_setD)
    moreover have "pv (tn_loser (ns ! k)) = loser_standing n t' k" if "1 \<le> k" "k < ?P" for k
      using seated that j(2) by (cases "k = j") (auto simp: seated_def ls ns_def)
    moreover have "tr_nodes t' = ns" "length ns = ?P" "tr_winner t' = tn_loser ?nd" by (simp_all add: t'_def ns_def)
    moreover have "pv (tn_loser ?nd) = winner_standing n t'" using seated j ws by (simp add: seated_def)
    ultimately show ?thesis using seated by (simp add: seated_def key)
  qed
  then show "seated n (challenge n j t) pv"
    "winner_standing n (challenge n j t) = min (winner_standing n t) (loser_standing n t j)"
    "loser_standing n (challenge n j t) i
       = (if i = j then max (winner_standing n t) (loser_standing n t j) else loser_standing n t i)"
    using seated challenge_cases [OF seated j, folded ns_def, folded t'_def]
    by (auto simp: ws ls min_def max_def)
  show "\<exists>ns w r. challenge n j t = t\<lparr> tr_nodes := ns, tr_winner := w, tr_winnerRun := r \<rparr> \<and> same_players (tr_nodes t) ns"
  proof (cases "loser_standing n t j \<le> winner_standing n t")
    case True
    then show ?thesis using challenge_cases [OF seated j] same unfolding ns_def by auto
  next
    case False
    then show ?thesis
      using challenge_cases [OF seated j]
      by (intro exI [of _ "tr_nodes t"] exI [of _ "tr_winner t"] exI [of _ "tr_winnerRun t"]) (simp add: same_players_def)
  qed
qed

section \<open>The tree\<close>

text \<open>
  The inner nodes are 1 to \<open>P - 1\<close>, the leaf of player \<open>p\<close> is \<open>P + p\<close>, the parent of \<open>i\<close> is \<open>i div 2\<close>.  With \<open>w i\<close> the standing
  that won below \<open>i\<close>, an inner node is settled when it kept the loser of the two that came up to it.
\<close>

definition settled :: "nat \<Rightarrow> 's tree \<Rightarrow> (nat \<Rightarrow> standing) \<Rightarrow> nat \<Rightarrow> bool" where
  "settled n t w i = (w i = min (w (2 * i)) (w (2 * i + 1)) \<and> loser_standing n t i = max (w (2 * i)) (w (2 * i + 1)))"

definition tournament :: "nat \<Rightarrow> 's tree \<Rightarrow> (nat \<Rightarrow> standing) \<Rightarrow> (nat \<Rightarrow> standing) \<Rightarrow> bool" where
  "tournament n t pv w =
     (seated n t pv \<and> (\<forall>p < length (tr_nodes t). w (length (tr_nodes t) + p) = pv p)
      \<and> (\<forall>i. 1 \<le> i \<longrightarrow> i < length (tr_nodes t) \<longrightarrow> settled n t w i) \<and> w 1 = winner_standing n t)"

text \<open>The nodes on the way from a node to the root, and the other child of a node's parent.\<close>

definition on_path :: "nat \<Rightarrow> nat \<Rightarrow> bool" where
  "on_path c d = (\<exists>k. d = c div 2 ^ k)"

definition sibling :: "nat \<Rightarrow> nat" where
  "sibling d = (if even d then d + 1 else d - 1)"

lemma on_path_refl: "on_path c c"
  unfolding on_path_def by (rule exI [of _ 0]) simp

lemma on_path_parent: "on_path c d \<Longrightarrow> on_path c (d div 2)"
  unfolding on_path_def by (metis div_mult2_eq power_Suc2)

lemma on_path_cases: "on_path c d \<longleftrightarrow> d = c \<or> on_path (c div 2) d"
proof
  assume "on_path c d"
  then obtain k where "d = c div 2 ^ k" by (auto simp: on_path_def)
  then show "d = c \<or> on_path (c div 2) d"
    by (cases k) (auto simp: on_path_def div_mult2_eq)
next
  assume "d = c \<or> on_path (c div 2) d"
  then show "on_path c d"
    using on_path_refl unfolding on_path_def by (metis div_mult2_eq power_Suc)
qed

lemma on_path_below:
  assumes "on_path c d" and "d \<noteq> c"
  shows "2 * d \<le> c"
proof -
  obtain k where "d = c div 2 div 2 ^ k" using assms on_path_cases by (metis on_path_def)
  then have "d \<le> c div 2" by simp
  then show ?thesis by simp
qed

lemma sibling_off_path:
  assumes "on_path c d" and "2 \<le> d"
  shows "sibling d \<noteq> c"
proof (cases "d = c")
  case False
  then have "2 * d \<le> c" using assms(1) by (rule on_path_below [rotated])
  then show ?thesis using assms(2) by (auto simp: sibling_def)
qed (use assms(2) in \<open>auto simp: sibling_def\<close>)

lemma children:
  assumes "2 \<le> d"
  shows "{2 * (d div 2), 2 * (d div 2) + 1} = {d, sibling d}"
    "f (2 * (d div 2)) = f d \<and> f (2 * (d div 2) + 1) = f (sibling d) \<or> f (2 * (d div 2)) = f (sibling d) \<and> f (2 * (d div 2) + 1) = f d"
  using assms by (auto simp: sibling_def elim!: evenE oddE)

text \<open>While a new standing goes up from \<open>c\<close>, the nodes above still keep what came up from their other child.\<close>

definition climbing :: "nat \<Rightarrow> 's tree \<Rightarrow> (nat \<Rightarrow> standing) \<Rightarrow> nat \<Rightarrow> bool" where
  "climbing n t w c =
     ((\<forall>d. on_path c d \<longrightarrow> 2 \<le> d \<longrightarrow> loser_standing n t (d div 2) = w (sibling d))
      \<and> (\<forall>i. 1 \<le> i \<longrightarrow> i < length (tr_nodes t) \<longrightarrow> \<not> on_path (c div 2) i \<longrightarrow> settled n t w i)
      \<and> w c = winner_standing n t)"

lemma settled_cong:
  assumes "settled n t w i" and "loser_standing n t' i = loser_standing n t i" and "w' i = w i" and "w' (2 * i) = w (2 * i)"
    and "w' (2 * i + 1) = w (2 * i + 1)"
  shows "settled n t' w' i"
  using assms by (simp add: settled_def)

lemma climbing_step:
  assumes seated: "seated n t pv" and cl: "climbing n t w c" and c: "2 \<le> c" "c div 2 < length (tr_nodes t)"
  shows "climbing n (challenge n (c div 2) t) (w(c div 2 := min (w c) (w (sibling c)))) (c div 2)"
proof -
  let ?i = "c div 2" and ?t = "challenge n (c div 2) t"
  let ?w = "w(?i := min (w c) (w (sibling c)))"
  have i: "1 \<le> ?i" using c by simp
  note ch = challenge_works [OF seated i c(2)]
  have lc: "loser_standing n t ?i = w (sibling c)" and wc: "w c = winner_standing n t"
    using cl c(1) on_path_refl by (auto simp: climbing_def)
  have len: "length (tr_nodes ?t) = length (tr_nodes t)" using ch(4) same_players_length by fastforce
  have "loser_standing n ?t (d div 2) = ?w (sibling d)" if d: "on_path ?i d" "2 \<le> d" for d
  proof -
    have "on_path c d" using d(1) on_path_cases by blast
    then have "loser_standing n t (d div 2) = w (sibling d)" using cl d(2) by (simp add: climbing_def)
    moreover have "d \<le> ?i" using d(1) on_path_below by (metis le_add1 le_trans mult_2 order_refl)
    then have "d div 2 \<noteq> ?i" using d(2) by auto
    moreover have "sibling d \<noteq> ?i" using sibling_off_path [OF d] .
    ultimately show ?thesis by (simp add: ch(3))
  qed
  moreover have "settled n ?t ?w i'" if i': "1 \<le> i'" "i' < length (tr_nodes t)" "\<not> on_path (?i div 2) i'" for i'
  proof (cases "i' = ?i")
    case True
    have "c \<noteq> ?i" "sibling c \<noteq> ?i" using c(1) unfolding sibling_def by presburger+
    then show ?thesis
      using children(2) [OF c(1), of w] wc lc i by (auto simp: settled_def True ch(3) min.commute max.commute)
  next
    case False
    then have "\<not> on_path ?i i'" using i'(3) on_path_cases [of ?i i'] by blast
    then have s: "settled n t w i'" using cl i'(1,2) unfolding climbing_def by blast
    have "i' \<noteq> ?i div 2" using i'(3) on_path_refl by metis
    then have "2 * i' \<noteq> ?i" "2 * i' + 1 \<noteq> ?i" by presburger+
    then show ?thesis using False by (intro settled_cong [OF s]) (simp_all only: ch(3) fun_upd_apply if_False)
  qed
  moreover have "?w ?i = winner_standing n ?t" using wc lc by (simp add: ch(2))
  ultimately show ?thesis by (simp add: climbing_def len)
qed

text \<open>The rest of the tree is untouched.\<close>

definition replayed :: "'s tree \<Rightarrow> 's tree \<Rightarrow> bool" where
  "replayed t t' =
     (\<exists>ns x r. t' = t\<lparr> tr_nodes := ns, tr_winner := x, tr_winnerRun := r \<rparr> \<and> same_players (tr_nodes t) ns)"

lemma replayed_trans:
  assumes "replayed t t'" and "replayed t' t''"
  shows "replayed t t''"
proof -
  obtain ns x r where 1: "t' = t\<lparr> tr_nodes := ns, tr_winner := x, tr_winnerRun := r \<rparr>" "same_players (tr_nodes t) ns"
    using assms(1) unfolding replayed_def by blast
  obtain ns' x' r' where 2: "t'' = t'\<lparr> tr_nodes := ns', tr_winner := x', tr_winnerRun := r' \<rparr>" "same_players (tr_nodes t') ns'"
    using assms(2) unfolding replayed_def by blast
  have "t'' = t\<lparr> tr_nodes := ns', tr_winner := x', tr_winnerRun := r' \<rparr>" "same_players (tr_nodes t) ns'"
    using 1 2 by (simp_all add: same_players_def)
  then show ?thesis unfolding replayed_def by blast
qed

lemma climbing_done:
  assumes "climbing n t w c" and "c = 1" and "seated n t pv" and "\<forall>p < length (tr_nodes t). w (length (tr_nodes t) + p) = pv p"
  shows "tournament n t pv w"
proof -
  have "\<not> on_path (c div 2) i" if "1 \<le> i" for i using that assms(2) by (auto simp: on_path_def)
  then show ?thesis using assms by (simp add: tournament_def climbing_def)
qed

lemma replayed_fields:
  assumes "replayed t t'"
  shows "tr_currentRun t' = tr_currentRun t" "tr_maxRuns t' = tr_maxRuns t" "tr_keyOfLastWinner t' = tr_keyOfLastWinner t"
    "tr_scratch t' = tr_scratch t" "same_players (tr_nodes t) (tr_nodes t')" "length (tr_nodes t') = length (tr_nodes t)"
proof -
  obtain ns x r where t: "t' = t\<lparr> tr_nodes := ns, tr_winner := x, tr_winnerRun := r \<rparr>" "same_players (tr_nodes t) ns"
    using assms unfolding replayed_def by blast
  then show "tr_currentRun t' = tr_currentRun t" "tr_maxRuns t' = tr_maxRuns t" "tr_keyOfLastWinner t' = tr_keyOfLastWinner t"
    "tr_scratch t' = tr_scratch t" "same_players (tr_nodes t) (tr_nodes t')" "length (tr_nodes t') = length (tr_nodes t)"
    using same_players_length [OF t(2)] by simp_all
qed

lemma replay_works:
  assumes "seated n t pv" and "climbing n t w c" and "2 \<le> c" and "c div 2 < length (tr_nodes t)"
    and "\<forall>p < length (tr_nodes t). w (length (tr_nodes t) + p) = pv p"
  shows "\<exists>t' w'. replay n (c div 2) t = Some t' \<and> tournament n t' pv w' \<and> replayed t t'"
  using assms
proof (induction c arbitrary: t w rule: less_induct)
  case (less c)
  let ?i = "c div 2" and ?t = "challenge n (c div 2) t" and ?w = "w(c div 2 := min (w c) (w (sibling c)))"
  have i: "1 \<le> ?i" using less.prems(3) by simp
  have seated: "seated n ?t pv" and fr: "replayed t ?t"
    using challenge_works [OF less.prems(1) i less.prems(4)] by (auto simp: replayed_def)
  have len: "length (tr_nodes ?t) = length (tr_nodes t)" using replayed_fields [OF fr] by simp
  have cl: "climbing n ?t ?w ?i" using climbing_step less.prems(1-4) by blast
  have leaves: "\<forall>p < length (tr_nodes ?t). ?w (length (tr_nodes ?t) + p) = pv p"
    using less.prems(4,5) len by auto
  show ?case
  proof (cases "?i = 1")
    case True
    have "tournament n ?t pv ?w" by (rule climbing_done [OF cl True seated leaves])
    moreover have "replay n ?i t = Some ?t" using True by (simp add: replay.simps Let_def)
    ultimately show ?thesis using fr by blast
  next
    case False
    then have "2 \<le> ?i" "?i < c" "?i div 2 < length (tr_nodes ?t)" using i less.prems(3,4) len by auto
    then obtain t' w' where "replay n (?i div 2) ?t = Some t'" "tournament n t' pv w'" "replayed ?t t'"
      using less.IH [OF _ seated cl _ _ leaves] by blast
    moreover have "replay n ?i t = replay n (?i div 2) ?t" using False i by (simp add: replay.simps [of n ?i] Let_def getFi_def)
    ultimately show ?thesis using replayed_trans [OF fr] by auto
  qed
qed

text \<open>In a settled tree no player stands before the winner, and the winner's standing came up from its leaf.\<close>

lemma tournament_up:
  assumes "tournament n t pv w" and "2 \<le> i" and "i < 2 * length (tr_nodes t)"
  shows "w (i div 2) \<le> w i"
proof -
  have "settled n t w (i div 2)" using assms by (simp add: tournament_def)
  then show ?thesis using children(2) [OF assms(2), of w] by (auto simp: settled_def)
qed

lemma tournament_root:
  assumes "tournament n t pv w" and "1 \<le> i" and "i < 2 * length (tr_nodes t)"
  shows "w 1 \<le> w i"
  using assms(2,3)
proof (induction i rule: less_induct)
  case (less i)
  show ?case
  proof (cases "i = 1")
    case False
    then have "w 1 \<le> w (i div 2)" using less by simp
    also have "\<dots> \<le> w i" using tournament_up [OF assms(1)] less.prems False by simp
    finally show ?thesis .
  qed simp
qed

lemma winner_minimal:
  assumes "tournament n t pv w" and "p < length (tr_nodes t)"
  shows "pv (tr_winner t) \<le> pv p"
proof -
  have "w 1 \<le> w (length (tr_nodes t) + p)" using assms tournament_root [OF assms(1)] by simp
  then show ?thesis using assms by (simp add: tournament_def seated_def)
qed

lemma tournament_path:
  assumes "tournament n t pv w" and "on_path (length (tr_nodes t) + tr_winner t) d" and "1 \<le> d"
    and "tr_winner t < length (tr_nodes t)"
  shows "w d = winner_standing n t"
proof -
  let ?c = "length (tr_nodes t) + tr_winner t"
  have wc: "w ?c = winner_standing n t" using assms(1,4) by (simp add: tournament_def seated_def)
  have "1 \<le> ?c div 2 ^ k \<Longrightarrow> w (?c div 2 ^ k) \<le> w ?c" for k
  proof (induction k)
    case (Suc k)
    have s: "?c div 2 ^ Suc k = ?c div 2 ^ k div 2" unfolding power_Suc2 div_mult2_eq ..
    have two: "2 \<le> ?c div 2 ^ k" using Suc.prems s by simp
    have "?c div 2 ^ k \<le> ?c" by simp
    then have "?c div 2 ^ k < 2 * length (tr_nodes t)" using assms(4) by linarith
    then have "w (?c div 2 ^ k div 2) \<le> w (?c div 2 ^ k)" using tournament_up [OF assms(1) two] by blast
    then show ?case using Suc.IH two s by simp
  qed simp
  then have "w d \<le> winner_standing n t" "d \<le> ?c" using assms(2,3) wc by (auto simp: on_path_def)
  moreover have "winner_standing n t \<le> w d"
    using tournament_root [OF assms(1,3)] \<open>d \<le> ?c\<close> assms(1,4) by (simp add: tournament_def)
  ultimately show ?thesis by simp
qed

text \<open>The player that won gets a new standing: the tree is settled again with the new winner.\<close>

definition same_seats :: "'s tree \<Rightarrow> 's tree \<Rightarrow> bool" where
  "same_seats t t' =
     (tr_winner t' = tr_winner t \<and> length (tr_nodes t') = length (tr_nodes t)
      \<and> (\<forall>i. tn_loser (tr_nodes t' ! i) = tn_loser (tr_nodes t ! i) \<and> tn_run (tr_nodes t' ! i) = tn_run (tr_nodes t ! i))
      \<and> (\<forall>i. i \<noteq> tr_winner t \<longrightarrow> node_key t' i = node_key t i))"

lemma same_seats_seated:
  assumes "seated n t pv" and "same_seats t t'" and "key_wf n (node_key t' (tr_winner t))"
  shows "seated n t' (pv(tr_winner t := winner_standing n t'))"
    "1 \<le> j \<Longrightarrow> j < length (tr_nodes t) \<Longrightarrow> loser_standing n t' j = loser_standing n t j"
proof -
  have pl: "places t' = places t" using assms(2) by (simp add: places_def same_seats_def)
  have ne: "tn_loser (tr_nodes t ! j) \<noteq> tr_winner t" if "1 \<le> j" "j < length (tr_nodes t)" for j
    using assms(1) that by (force simp: seated_def places_def)
  show ls: "loser_standing n t' j = loser_standing n t j" if "1 \<le> j" "j < length (tr_nodes t)" for j
    using ne [OF that] assms(2) by (simp add: loser_standing_def same_seats_def)
  have "key_wf n (node_key t' p)" if "p < length (tr_nodes t)" for p
    using assms that by (cases "p = tr_winner t") (auto simp: seated_def same_seats_def)
  then show "seated n t' (pv(tr_winner t := winner_standing n t'))"
    using assms(1,2) ne ls by (simp add: seated_def pl same_seats_def)
qed

lemma determineNewWinner_works:
  assumes "tournament n t pv w" and "same_seats t t'" and "key_wf n (node_key t' (tr_winner t))" and "2 \<le> length (tr_nodes t)"
  shows "\<exists>t'' w'. determineNewWinner n t' = Some t'' \<and> tournament n t'' (pv(tr_winner t := winner_standing n t')) w'
    \<and> replayed t' t''"
proof -
  let ?P = "length (tr_nodes t)" and ?c = "length (tr_nodes t) + tr_winner t"
  let ?pv = "pv(tr_winner t := winner_standing n t')" and ?w = "w(?c := winner_standing n t')"
  have seated: "seated n t pv" using assms(1) by (simp add: tournament_def)
  then have win: "tr_winner t < ?P" by (auto simp: seated_def places_def)
  note st = same_seats_seated [OF seated assms(2,3)]
  have len: "length (tr_nodes t') = ?P" and wt: "tr_winner t' = tr_winner t" using assms(2) by (simp_all add: same_seats_def)
  have "loser_standing n t' (d div 2) = ?w (sibling d)" if d: "on_path ?c d" "2 \<le> d" for d
  proof -
    have "d \<le> ?c" using d(1) by (auto simp: on_path_def)
    then have i: "1 \<le> d div 2" "d div 2 < ?P" using d(2) win by auto
    have "w d = winner_standing n t" "w (d div 2) = winner_standing n t"
      using tournament_path [OF assms(1) _ _ win] d on_path_parent i(1) by auto
    moreover have "settled n t w (d div 2)" using assms(1) i by (simp add: tournament_def)
    ultimately have "min (w d) (w (sibling d)) = w d" "loser_standing n t (d div 2) = max (w d) (w (sibling d))"
      using children(2) [OF d(2), of w] by (auto simp: settled_def min.commute max.commute)
    then have "loser_standing n t (d div 2) = w (sibling d)" by (metis max.absorb2 min.absorb_iff1)
    then show ?thesis using sibling_off_path [OF d] st(2) [OF i] by simp
  qed
  moreover have "settled n t' ?w i" if i: "1 \<le> i" "i < ?P" "\<not> on_path (?c div 2) i" for i
  proof -
    have s: "settled n t w i" using assms(1) i by (simp add: tournament_def)
    have "i \<noteq> ?c div 2" using i(3) on_path_refl by metis
    then have "2 * i \<noteq> ?c" "2 * i + 1 \<noteq> ?c" by presburger+
    moreover have "i \<noteq> ?c" using i(2) by simp
    ultimately show ?thesis by (intro settled_cong [OF s]) (simp_all only: st(2) [OF i(1,2)] fun_upd_apply if_False)
  qed
  ultimately have cl: "climbing n t' ?w ?c" by (simp add: climbing_def len)
  have leaves: "\<forall>p < length (tr_nodes t'). ?w (length (tr_nodes t') + p) = ?pv p"
    using assms(1) by (simp add: tournament_def len)
  have "2 \<le> ?c" "?c div 2 < length (tr_nodes t')" using assms(4) win len by auto
  then obtain t'' w' where "replay n (?c div 2) t' = Some t''" "tournament n t'' ?pv w'" "replayed t' t''"
    using replay_works [OF st(1) cl _ _ leaves] by blast
  then show ?thesis by (auto simp: determineNewWinner_def getFe_def wt len add.commute)
qed

text \<open>The new tree is settled: all standings are the same.\<close>

lemma tree_new_tournament:
  assumes "1 \<le> P"
  shows "tournament n (tree_new c P s) (\<lambda>_. (0, None)) (\<lambda>_. (0, None))"
proof -
  let ?t = "tree_new c P s"
  have "map (\<lambda>j. tn_loser (tr_nodes ?t ! j)) [1..<P] = [1..<P]"
    by (intro map_idI) (simp add: tree_new_def treenode_initialize_def)
  moreover have f: "tr_winner ?t = 0" "tr_winnerRun ?t = 0" "length (tr_nodes ?t) = P" by (simp_all add: tree_new_def)
  ultimately have "places ?t = [0..<P]" using assms by (simp add: places_def upt_conv_Cons)
  moreover have "tr_nodes ?t ! i = treenode_initialize c i" if "i < P" for i using that by (simp add: tree_new_def)
  ultimately show ?thesis
    using assms by (auto simp: tournament_def seated_def settled_def winner_standing_def loser_standing_def f
        treenode_initialize_def key_part_def key_wf_def)
qed

end
