(* ===== verification/Sort_Runs.thy ===== *)
theory Sort_Runs
  imports Sort_Scratch
begin

text \<open>
  The scratch space over whole runs: a run that is written record by record is stored in consecutive blocks and
  entered in the directory, merge nodes can be opened on it, and reading and writing do not disturb each
  other.  The record layout of a block, and the round trip from the writer to the reader.
\<close>

section \<open>Writing a run\<close>

text \<open>Between two runs the block buffer is empty; within a run it holds the records since the last full block.\<close>

definition idle :: "SortScratchSpace \<Rightarrow> bool" where
  "idle s = (sc_currentBlock s = [] \<and> sc_numRecs s = 0 \<and> sc_bytesUsed s = OVERHEAD)"

definition writing :: "SortScratchSpace \<Rightarrow> int \<Rightarrow> byte list list \<Rightarrow> bool" where
  "writing s first out =
     (\<exists>gs g. out = concat gs @ g \<and> g \<noteq> [] \<and> sc_currentBlock s = concat g \<and> sc_numRecs s = length g
        \<and> sc_bytesUsed s = OVERHEAD + length (concat g) \<and> sc_totalNumOfScrBlocks s = first + int (length gs)
        \<and> (\<forall>k < length gs. block_holds (sc_disk s) (first + int k) (gs ! k) False))"

lemma run_stored_snoc:
  assumes "\<forall>k < length gs. block_holds disk (b + int k) (gs ! k) False" and "block_holds disk (b + int (length gs)) g True"
  shows "run_stored disk b (gs @ [g])"
  using assms
proof (induction gs arbitrary: b)
  case (Cons h gs)
  have "block_holds disk (b + 1 + int k) (gs ! k) False" if "k < length gs" for k
    using Cons.prems(1) that by (auto dest!: spec [of _ "Suc k"] simp: algebra_simps)
  moreover have "block_holds disk (b + 1 + int (length gs)) g True"
    using Cons.prems(2) by (simp add: algebra_simps)
  moreover have "block_holds disk b h False" using Cons.prems(1) by (auto dest!: spec [of _ 0])
  ultimately show ?case using Cons.IH [of "b + 1"] by simp
qed simp

text \<open>Writing leaves the blocks that were written and the merge nodes alone.\<close>

definition write_frame :: "SortScratchSpace \<Rightarrow> SortScratchSpace \<Rightarrow> bool" where
  "write_frame s s' =
     (sc_blockSize s' = sc_blockSize s \<and> sc_sortMergeBlocksPerBuffer s' = sc_sortMergeBlocksPerBuffer s
      \<and> sc_freeSortMergeBufferPool s' = sc_freeSortMergeBufferPool s \<and> sc_nodes s' = sc_nodes s \<and> sc_clock s' = sc_clock s
      \<and> sc_totalNumOfScrBlocks s \<le> sc_totalNumOfScrBlocks s'
      \<and> (\<forall>b < sc_totalNumOfScrBlocks s. sc_disk s' b = sc_disk s b))"

lemma write_frame_refl: "write_frame s s"
  by (simp add: write_frame_def)

lemma write_frame_trans: "write_frame s s' \<Longrightarrow> write_frame s' s'' \<Longrightarrow> write_frame s s''"
  by (auto simp: write_frame_def)

definition writable :: "scratch_env \<Rightarrow> bool" where
  "writable e = (\<forall>b. se_write_ok e b)"

lemma flushRun_writing:
  assumes "writing s first out" and "writable e"
  shows "\<exists>s' gs. flushRun e True s = (SCRATCH_SUCCESS, s') \<and> idle s' \<and> run_stored (sc_disk s') first gs \<and> concat gs = out
    \<and> sc_totalNumOfScrBlocks s' = first + int (length gs) \<and> sc_runDirectory s' = sc_runDirectory s
    \<and> sc_currentRun s' = sc_currentRun s \<and> write_frame s s'"
proof -
  obtain gs g where w: "out = concat gs @ g" "g \<noteq> []" "sc_currentBlock s = concat g" "sc_numRecs s = length g"
      "sc_totalNumOfScrBlocks s = first + int (length gs)"
      "\<forall>k < length gs. block_holds (sc_disk s) (first + int k) (gs ! k) False"
    using assms(1) by (auto simp: writing_def)
  have ok: "se_write_ok e b" for b using assms(2) by (simp add: writable_def)
  define s' where "s' = snd (flushRun e True s)"
  note fl = s'_def flushRun_def Let_def switchScratchBuffers_def
  have s': "flushRun e True s = (SCRATCH_SUCCESS, s')" using ok by (simp add: fl)
  have "\<forall>k < length gs. block_holds (sc_disk s') (first + int k) (gs ! k) False"
    using w(5,6) ok by (auto simp: fl block_holds_def)
  moreover have "block_holds (sc_disk s') (first + int (length gs)) g True"
    using w(2-5) ok by (auto simp: fl block_holds_def)
  ultimately have "run_stored (sc_disk s') first (gs @ [g])" by (rule run_stored_snoc)
  moreover have "idle s'" "sc_totalNumOfScrBlocks s' = first + int (length (gs @ [g]))"
      "sc_runDirectory s' = sc_runDirectory s" "sc_currentRun s' = sc_currentRun s" "write_frame s s'"
    using ok w(5) by (auto simp: idle_def fl write_frame_def)
  moreover have "concat (gs @ [g]) = out" using w(1) by simp
  ultimately show ?thesis using s' by blast
qed

text \<open>A record that fits into a block is appended, behind a full block when there is no room in the present one.\<close>

definition fits :: "SortScratchSpace \<Rightarrow> byte list \<Rightarrow> bool" where
  "fits s r = (OVERHEAD + length r + DP2_CHECKSUM_BYTES \<le> sc_blockSize s)"

lemma writeRunData_next:
  assumes "writing s first out" and "writable e" and "fits s r" and "0 \<le> first"
  shows "\<exists>s'. writeRunData e r (sc_currentRun s) s = Some (SCRATCH_SUCCESS, s') \<and> writing s' first (out @ [r])
    \<and> sc_runDirectory s' = sc_runDirectory s \<and> sc_currentRun s' = sc_currentRun s \<and> write_frame s s'"
proof -
  obtain gs g where w: "out = concat gs @ g" "g \<noteq> []" "sc_currentBlock s = concat g" "sc_numRecs s = length g"
      "sc_bytesUsed s = OVERHEAD + length (concat g)" "sc_totalNumOfScrBlocks s = first + int (length gs)"
      "\<forall>k < length gs. block_holds (sc_disk s) (first + int k) (gs ! k) False"
    using assms(1) by (auto simp: writing_def)
  have ok: "se_write_ok e b" for b using assms(2) by (simp add: writable_def)
  show ?thesis
  proof (cases "sc_bytesUsed s + length r \<le> sc_blockSize s - DP2_CHECKSUM_BYTES")
    case True
    then show ?thesis
      using w by (auto simp: writeRunData_def block_put_def write_frame_def writing_def intro!: exI [of _ gs] exI [of _ "g @ [r]"])
  next
    case False
    define s1 where "s1 = snd (flushRun e False s)"
    note fl = s1_def flushRun_def Let_def switchScratchBuffers_def
    have s1: "flushRun e False s = (SCRATCH_SUCCESS, s1)" using ok by (simp add: fl)
    have "block_holds (sc_disk s1) (first + int k) ((gs @ [g]) ! k) False" if "k < length (gs @ [g])" for k
      using w(2-7) ok assms(4) that by (auto simp: fl block_holds_def nth_append)
    moreover have "sc_totalNumOfScrBlocks s1 = first + int (length (gs @ [g]))" using w(6) ok by (simp add: fl)
    ultimately have "writing (block_put r s1) first (out @ [r])"
      using w(1) ok unfolding writing_def
      by (intro exI [of _ "gs @ [g]"] exI [of _ "[r]"]) (auto simp: block_put_def fl)
    moreover have "writeRunData e r (sc_currentRun s) s = Some (SCRATCH_SUCCESS, block_put r s1)"
      using False assms(3) s1 ok by (simp add: writeRunData_def fits_def fl)
    moreover have "write_frame s (block_put r s1)" using ok by (auto simp: fl block_put_def write_frame_def)
    ultimately show ?thesis using ok by (auto simp: block_put_def fl)
  qed
qed

lemma writeRunData_first:
  assumes "idle s" and "fits s r" and "run \<noteq> sc_currentRun s"
  shows "\<exists>s'. writeRunData e r run s = Some (SCRATCH_SUCCESS, s') \<and> writing s' (sc_totalNumOfScrBlocks s) [r]
    \<and> sc_runDirectory s' = sc_runDirectory s @ [sc_totalNumOfScrBlocks s] \<and> sc_currentRun s' = Suc (length (sc_runDirectory s))
    \<and> write_frame s s'"
proof -
  define s' where "s' = block_put r (startNewRun s)"
  note fl = s'_def startNewRun_def block_put_def
  have "20 + length r \<le> sc_blockSize s - 8" using assms(2) by (simp add: fits_def)
  then have "writeRunData e r run s = Some (SCRATCH_SUCCESS, s')"
    using assms by (simp add: writeRunData_def Let_def fl idle_def)
  moreover have "writing s' (sc_totalNumOfScrBlocks s) [r]"
    unfolding writing_def using assms(1) by (intro exI [of _ "[]"] exI [of _ "[r]"]) (simp add: fl idle_def)
  ultimately show ?thesis by (simp add: fl write_frame_def)
qed

subsection \<open>The runs of the directory\<close>

text \<open>The block behind the last one of the run with index \<open>k\<close>, as a merge node computes it.\<close>

definition run_end :: "SortScratchSpace \<Rightarrow> nat \<Rightarrow> int" where
  "run_end s k = (if Suc k < length (sc_runDirectory s) then sc_runDirectory s ! Suc k else sc_totalNumOfScrBlocks s)"

definition run_at :: "SortScratchSpace \<Rightarrow> nat \<Rightarrow> byte list list \<Rightarrow> bool" where
  "run_at s k rs =
     (\<exists>gs. run_stored (sc_disk s) (sc_runDirectory s ! k) gs \<and> concat gs = rs
        \<and> sc_runDirectory s ! k + int (length gs) \<le> run_end s k)"

definition runs_stored :: "SortScratchSpace \<Rightarrow> byte list list list \<Rightarrow> bool" where
  "runs_stored s rss =
     (length (sc_runDirectory s) = length rss \<and> 1 \<le> sc_totalNumOfScrBlocks s
      \<and> (\<forall>k < length rss. run_at s k (rss ! k) \<and> 1 \<le> sc_runDirectory s ! k \<and> run_end s k \<le> sc_totalNumOfScrBlocks s))"

lemma run_stored_cong:
  assumes "run_stored disk b gs" and "\<forall>x. b \<le> x \<longrightarrow> x < b + int (length gs) \<longrightarrow> disk' x = disk x"
  shows "run_stored disk' b gs"
  using assms
proof (induction disk b gs rule: run_stored.induct)
  case (2 disk b g gs)
  have "disk' b = disk b" using "2.prems"(2) by simp
  then have "block_holds disk' b g (gs = [])" using "2.prems"(1) by (simp add: block_holds_def)
  moreover have "run_stored disk' (b + 1) gs" if "gs \<noteq> []"
    using "2.IH" [OF that] "2.prems" that by simp
  ultimately show ?case by simp
qed simp

text \<open>A run that is written goes behind those that are there.\<close>

lemma runs_stored_snoc:
  assumes "runs_stored s rss" and "\<forall>b < sc_totalNumOfScrBlocks s. sc_disk s' b = sc_disk s b"
    and "sc_runDirectory s' = sc_runDirectory s @ [sc_totalNumOfScrBlocks s]"
    and "run_stored (sc_disk s') (sc_totalNumOfScrBlocks s) gs"
    and "sc_totalNumOfScrBlocks s' = sc_totalNumOfScrBlocks s + int (length gs)"
  shows "runs_stored s' (rss @ [concat gs])"
proof -
  have len: "length (sc_runDirectory s) = length rss" and one: "1 \<le> sc_totalNumOfScrBlocks s"
    using assms(1) by (auto simp: runs_stored_def)
  have "run_at s' k (rss ! k) \<and> 1 \<le> sc_runDirectory s' ! k \<and> run_end s' k \<le> sc_totalNumOfScrBlocks s'"
    if k: "k < length rss" for k
  proof -
    have e: "run_end s' k = run_end s k" using assms(3) k len by (auto simp: run_end_def nth_append)
    have d: "sc_runDirectory s' ! k = sc_runDirectory s ! k" using assms(3) k len by (simp add: nth_append)
    obtain gs' where g: "run_stored (sc_disk s) (sc_runDirectory s ! k) gs'" "concat gs' = rss ! k"
        "sc_runDirectory s ! k + int (length gs') \<le> run_end s k" "1 \<le> sc_runDirectory s ! k" "run_end s k \<le> sc_totalNumOfScrBlocks s"
      using assms(1) k by (auto simp: runs_stored_def run_at_def)
    have "run_stored (sc_disk s') (sc_runDirectory s ! k) gs'"
      using assms(2) g(3,5) by (intro run_stored_cong [OF g(1)]) auto
    then show ?thesis using g e d assms(5) by (auto simp: run_at_def)
  qed
  moreover have "run_at s' (length rss) (concat gs)" "run_end s' (length rss) = sc_totalNumOfScrBlocks s'"
      "sc_runDirectory s' ! length rss = sc_totalNumOfScrBlocks s"
    using assms(3-5) len by (auto simp: run_at_def run_end_def nth_append)
  ultimately show ?thesis
    using len one assms(3,5) by (auto simp: runs_stored_def nth_append less_Suc_eq)
qed

lemma write_records_works:
  assumes "writing s first out" and "writable e" and "\<forall>r \<in> set rs. fits s r" and "0 \<le> first"
  shows "\<exists>s'. write_records e (sc_currentRun s) rs s = Some (SCRATCH_SUCCESS, s') \<and> writing s' first (out @ rs)
    \<and> sc_runDirectory s' = sc_runDirectory s \<and> sc_currentRun s' = sc_currentRun s \<and> write_frame s s'"
  using assms
proof (induction rs arbitrary: s out)
  case (Cons r rs)
  obtain s1 where 1: "writeRunData e r (sc_currentRun s) s = Some (SCRATCH_SUCCESS, s1)" "writing s1 first (out @ [r])"
      "sc_runDirectory s1 = sc_runDirectory s" "sc_currentRun s1 = sc_currentRun s" "write_frame s s1"
    using writeRunData_next [OF Cons.prems(1,2) _ Cons.prems(4), of r] Cons.prems(3) by auto
  have "\<forall>r \<in> set rs. fits s1 r" using Cons.prems(3) 1(5) by (simp add: fits_def write_frame_def)
  then obtain s2 where "write_records e (sc_currentRun s1) rs s1 = Some (SCRATCH_SUCCESS, s2)" "writing s2 first ((out @ [r]) @ rs)"
      "sc_runDirectory s2 = sc_runDirectory s1" "sc_currentRun s2 = sc_currentRun s1" "write_frame s1 s2"
    using Cons.IH [OF 1(2) Cons.prems(2) _ Cons.prems(4)] by blast
  then show ?case using 1 write_frame_trans by auto
qed (auto simp: write_frame_refl)

lemma write_run_works:
  assumes "idle s" and "runs_stored s rss" and "writable e" and "rs \<noteq> []" and "\<forall>r \<in> set rs. fits s r"
    and "run \<noteq> sc_currentRun s" and "run = Suc (length rss)"
  shows "\<exists>s1 s2. write_records e run rs s = Some (SCRATCH_SUCCESS, s1) \<and> flushRun e True s1 = (SCRATCH_SUCCESS, s2)
    \<and> idle s2 \<and> runs_stored s2 (rss @ [rs]) \<and> sc_currentRun s2 = run \<and> write_frame s s2"
proof -
  obtain r rs' where rs: "rs = r # rs'" using assms(4) by (cases rs) auto
  have len: "length (sc_runDirectory s) = length rss" and one: "0 \<le> sc_totalNumOfScrBlocks s"
    using assms(2) by (auto simp: runs_stored_def)
  obtain s0 where 0: "writeRunData e r run s = Some (SCRATCH_SUCCESS, s0)" "writing s0 (sc_totalNumOfScrBlocks s) [r]"
      "sc_runDirectory s0 = sc_runDirectory s @ [sc_totalNumOfScrBlocks s]" "sc_currentRun s0 = run" "write_frame s s0"
    using writeRunData_first [OF assms(1) _ assms(6), of r e] assms(5,7) rs len by auto
  have "\<forall>r \<in> set rs'. fits s0 r" using assms(5) rs 0(5) by (simp add: fits_def write_frame_def)
  then obtain s1 where 1: "write_records e run rs' s0 = Some (SCRATCH_SUCCESS, s1)" "writing s1 (sc_totalNumOfScrBlocks s) ([r] @ rs')"
      "sc_runDirectory s1 = sc_runDirectory s0" "sc_currentRun s1 = sc_currentRun s0" "write_frame s0 s1"
    using write_records_works [OF 0(2) assms(3) _ one] 0(4) by blast
  obtain s2 gs where 2: "flushRun e True s1 = (SCRATCH_SUCCESS, s2)" "idle s2" "run_stored (sc_disk s2) (sc_totalNumOfScrBlocks s) gs"
      "concat gs = [r] @ rs'" "sc_totalNumOfScrBlocks s2 = sc_totalNumOfScrBlocks s + int (length gs)"
      "sc_runDirectory s2 = sc_runDirectory s1" "sc_currentRun s2 = sc_currentRun s1" "write_frame s1 s2"
    using flushRun_writing [OF 1(2) assms(3)] by blast
  have fr: "write_frame s s2" using 0(5) 1(5) 2(8) by (blast intro: write_frame_trans)
  then have "\<forall>b < sc_totalNumOfScrBlocks s. sc_disk s2 b = sc_disk s b" by (simp add: write_frame_def)
  then have "runs_stored s2 (rss @ [concat gs])"
    using runs_stored_snoc [OF assms(2) _ _ 2(3,5)] 0(3) 1(3) 2(6) by simp
  then show ?thesis using 0 1 2 fr rs by auto
qed

text \<open>A run without records leaves an empty block behind and is not entered in the directory.\<close>

lemma flush_empty_run:
  assumes "idle s" and "runs_stored s rss" and "writable e"
  shows "\<exists>s'. flushRun e True s = (SCRATCH_SUCCESS, s') \<and> idle s' \<and> runs_stored s' rss
    \<and> sc_currentRun s' = sc_currentRun s \<and> write_frame s s'"
proof -
  define s' where "s' = snd (flushRun e True s)"
  note fl = s'_def flushRun_def Let_def switchScratchBuffers_def
  have ok: "se_write_ok e b" for b using assms(3) by (simp add: writable_def)
  have s': "flushRun e True s = (SCRATCH_SUCCESS, s')" "idle s'" "sc_currentRun s' = sc_currentRun s"
      "sc_runDirectory s' = sc_runDirectory s" "sc_totalNumOfScrBlocks s' = sc_totalNumOfScrBlocks s + 1" "write_frame s s'"
    using ok by (auto simp: fl idle_def write_frame_def)
  have "run_at s' k rs" if r: "run_at s k rs" "run_end s k \<le> sc_totalNumOfScrBlocks s" for k rs
  proof -
    obtain gs where g: "run_stored (sc_disk s) (sc_runDirectory s ! k) gs" "concat gs = rs"
        "sc_runDirectory s ! k + int (length gs) \<le> run_end s k"
      using r(1) by (auto simp: run_at_def)
    have "run_stored (sc_disk s') (sc_runDirectory s ! k) gs"
      using s'(6) g(3) r(2) by (intro run_stored_cong [OF g(1)]) (auto simp: write_frame_def)
    then show ?thesis using g s'(4,5) by (auto simp: run_at_def run_end_def)
  qed
  then have "runs_stored s' rss"
    using assms(2) s'(4,5) unfolding runs_stored_def by (fastforce simp: run_end_def)
  then show ?thesis using s' by blast
qed

subsection \<open>Opening the merge nodes\<close>

definition readable :: "scratch_env \<Rightarrow> bool" where
  "readable e = (\<forall>b. se_read_ok e b)"

lemma merge_node_base:
  assumes "runs_stored s rss" and "k < length rss" and "readable e"
  shows "\<exists>gs. concat gs = rss ! k \<and> node_base e s (merge_node_new (Suc k) s) [] gs (sc_runDirectory s ! k)"
proof -
  have len: "length (sc_runDirectory s) = length rss" using assms(1) by (simp add: runs_stored_def)
  obtain gs where g: "run_stored (sc_disk s) (sc_runDirectory s ! k) gs" "concat gs = rss ! k"
      "sc_runDirectory s ! k + int (length gs) \<le> run_end s k" "1 \<le> sc_runDirectory s ! k" "run_end s k \<le> sc_totalNumOfScrBlocks s"
    using assms(1,2) by (auto simp: runs_stored_def run_at_def)
  have "gs \<noteq> []" using g(1) by auto
  have next1: "1 \<le> sc_runDirectory s ! Suc k" if "Suc k < length rss" using assms(1) that by (simp add: runs_stored_def)
  have "mn_endBlockNum (merge_node_new (Suc k) s) = run_end s k - 1"
    using next1 len assms(2) by (auto simp: merge_node_new_def mapRunNumberToFirstSBN_def run_end_def Let_def)
  moreover have "mn_nextIOBlockNum (merge_node_new (Suc k) s) = sc_runDirectory s ! k"
    using len assms(2) by (simp add: merge_node_new_def mapRunNumberToFirstSBN_def Let_def)
  ultimately have "node_base e s (merge_node_new (Suc k) s) [] gs (sc_runDirectory s ! k)"
    using g \<open>gs \<noteq> []\<close> assms(3)
    by (simp add: node_base_def queue_ok_def readable_def) (simp add: merge_node_new_def Let_def)
  then show ?thesis using g(2) by blast
qed

lemma node_open_works:
  assumes "scratch_inv e nbytes reclen s rss" and "runs_stored s all" and "k < length all" and "readable e"
    and "\<forall>r \<in> set (all ! k). rec_ok nbytes reclen r"
    and "2 * sc_sortMergeBlocksPerBuffer s * Suc (length rss + m)
      \<le> sc_freeSortMergeBufferPool s + sum_list (map (length \<circ> mn_readQ) (sc_nodes s))"
  shows "\<exists>s'. node_open (Suc k) s = (SCRATCH_SUCCESS, s') \<and> scratch_inv e nbytes reclen s' (rss @ [all ! k])
    \<and> sc_sortMergeBlocksPerBuffer s' = sc_sortMergeBlocksPerBuffer s
    \<and> 2 * sc_sortMergeBlocksPerBuffer s * Suc (length rss + m)
      \<le> sc_freeSortMergeBufferPool s' + sum_list (map (length \<circ> mn_readQ) (sc_nodes s'))
    \<and> (\<exists>n f. s' = s\<lparr> sc_nodes := n, sc_freeSortMergeBufferPool := f \<rparr>)"
proof -
  let ?pb = "sc_sortMergeBlocksPerBuffer s" and ?free = "sc_freeSortMergeBufferPool s" and ?nd = "merge_node_new (Suc k) s"
  obtain gs where gs: "concat gs = all ! k" "node_base e s ?nd [] gs (sc_runDirectory s ! k)"
    using merge_node_base [OF assms(2-4)] by blast
  have q: "mn_readQ ?nd = []" by (simp add: merge_node_new_def Let_def)
  have len: "length (sc_nodes s) = length rss" and pb: "?pb \<ge> 1"
      and le: "\<forall>x \<in> set (map (length \<circ> mn_readQ) (sc_nodes s)). x \<le> 2 * ?pb"
    using assms(1) by (auto simp: scratch_inv_def in_set_conv_nth)
  have "sum_list xs \<le> n * length xs" if "\<forall>x \<in> set xs. x \<le> n" for xs and n :: nat
    using that by (induction xs) auto
  then have "sum_list (map (length \<circ> mn_readQ) (sc_nodes s)) \<le> 2 * ?pb * length rss" using le len by fastforce
  then have "?pb \<le> ?free" using assms(6) by (simp add: algebra_simps)
  then obtain q' m' where 1: "initiate_read ?pb ?nd ?free = (SCRATCH_SUCCESS, queued q' m' ?nd, ?free - m')" "m' \<le> ?free"
      "length q' = m'" "length q' \<le> 2 * ?pb" "node_at e s (queued q' m' ?nd) [] gs (sc_runDirectory s ! k)"
    using initiate_read_works [OF gs(2) pb, of ?free] q by auto
  define s' where "s' = s\<lparr> sc_nodes := sc_nodes s @ [queued q' m' ?nd], sc_freeSortMergeBufferPool := ?free - m' \<rparr>"
  have "node_ok e nbytes reclen s (queued q' m' ?nd) (all ! k)"
    using 1(5) gs(1) assms(5) by (intro node_okI [where g = "[]" and gs = gs and b = "sc_runDirectory s ! k"]) simp_all
  moreover have "node_ok e nbytes reclen s' = node_ok e nbytes reclen s"
    by (intro ext node_ok_cong) (simp_all add: s'_def)
  ultimately have "scratch_inv e nbytes reclen s' (rss @ [all ! k])"
    using assms(1,6) len 1(2-4) by (auto simp: scratch_inv_def nth_append less_Suc_eq s'_def queued_def algebra_simps)
  moreover have "2 * ?pb * Suc (length rss + m)
      \<le> sc_freeSortMergeBufferPool s' + sum_list (map (length \<circ> mn_readQ) (sc_nodes s'))"
    using assms(6) 1(2,3) by (simp add: s'_def queued_def)
  moreover have "node_open (Suc k) s = (SCRATCH_SUCCESS, s')" using 1(1) by (simp add: node_open_def s'_def)
  moreover have "\<exists>n f. s' = s\<lparr> sc_nodes := n, sc_freeSortMergeBufferPool := f \<rparr>" unfolding s'_def by blast
  ultimately show ?thesis by (simp add: s'_def)
qed

lemma runs_stored_cong:
  assumes "sc_runDirectory s' = sc_runDirectory s" and "sc_disk s' = sc_disk s" and "sc_totalNumOfScrBlocks s' = sc_totalNumOfScrBlocks s"
  shows "runs_stored s' rss = runs_stored s rss"
  using assms by (simp add: runs_stored_def run_at_def run_end_def)

lemma open_nodes_works:
  assumes "scratch_inv e nbytes reclen s rss" and "runs_stored s all" and "j + k \<le> length all" and "readable e"
    and "\<forall>rs \<in> set all. \<forall>r \<in> set rs. rec_ok nbytes reclen r"
    and "2 * sc_sortMergeBlocksPerBuffer s * (length rss + k)
      \<le> sc_freeSortMergeBufferPool s + sum_list (map (length \<circ> mn_readQ) (sc_nodes s))"
  shows "\<exists>s'. open_nodes k (Suc j) s = (True, s') \<and> scratch_inv e nbytes reclen s' (rss @ take k (drop j all))
    \<and> (\<exists>n f. s' = s\<lparr> sc_nodes := n, sc_freeSortMergeBufferPool := f \<rparr>)"
  using assms
proof (induction k arbitrary: s j rss)
  case 0
  have "s = s\<lparr> sc_nodes := sc_nodes s, sc_freeSortMergeBufferPool := sc_freeSortMergeBufferPool s \<rparr>" by simp
  then show ?case using 0 unfolding open_nodes.simps by (metis append_Nil2 take0)
next
  case (Suc k)
  have j: "j < length all" using Suc.prems(3) by simp
  have rec: "\<forall>r \<in> set (all ! j). rec_ok nbytes reclen r" using Suc.prems(5) nth_mem [OF j] by blast
  have "2 * sc_sortMergeBlocksPerBuffer s * Suc (length rss + k)
      \<le> sc_freeSortMergeBufferPool s + sum_list (map (length \<circ> mn_readQ) (sc_nodes s))"
    using Suc.prems(6) by (simp only: add_Suc_right)
  then obtain s1 n f where 1: "node_open (Suc j) s = (SCRATCH_SUCCESS, s1)" "scratch_inv e nbytes reclen s1 (rss @ [all ! j])"
      "sc_sortMergeBlocksPerBuffer s1 = sc_sortMergeBlocksPerBuffer s"
      "2 * sc_sortMergeBlocksPerBuffer s * Suc (length rss + k)
        \<le> sc_freeSortMergeBufferPool s1 + sum_list (map (length \<circ> mn_readQ) (sc_nodes s1))"
      "s1 = s\<lparr> sc_nodes := n, sc_freeSortMergeBufferPool := f \<rparr>"
    using node_open_works [OF Suc.prems(1,2) j Suc.prems(4) rec] by blast
  have rs: "runs_stored s1 all" using Suc.prems(2) runs_stored_cong [of s1 s] 1(5) by simp
  have pool: "2 * sc_sortMergeBlocksPerBuffer s1 * (length (rss @ [all ! j]) + k)
      \<le> sc_freeSortMergeBufferPool s1 + sum_list (map (length \<circ> mn_readQ) (sc_nodes s1))"
    using 1(3,4) by simp
  have "Suc j + k \<le> length all" using Suc.prems(3) by simp
  then obtain s2 n' f' where 2: "open_nodes k (Suc (Suc j)) s1 = (True, s2)"
      "scratch_inv e nbytes reclen s2 ((rss @ [all ! j]) @ take k (drop (Suc j) all))"
      "s2 = s1\<lparr> sc_nodes := n', sc_freeSortMergeBufferPool := f' \<rparr>"
    using Suc.IH [OF 1(2) rs _ Suc.prems(4,5) pool] by blast
  have "\<exists>n f. s2 = s\<lparr> sc_nodes := n, sc_freeSortMergeBufferPool := f \<rparr>"
    using 1(5) 2(3) by auto
  moreover have "take (Suc k) (drop j all) = all ! j # take k (drop (Suc j) all)"
    using j by (simp add: Cons_nth_drop_Suc [symmetric])
  ultimately show ?case using 1(1) 2(1,2) by simp
qed

subsection \<open>Reading and writing side by side\<close>

text \<open>What a read touches, and that a write does not disturb the nodes that are read.\<close>

definition read_frame :: "SortScratchSpace \<Rightarrow> SortScratchSpace \<Rightarrow> bool" where
  "read_frame s s' =
     (s' = s\<lparr> sc_clock := sc_clock s', sc_nodes := sc_nodes s', sc_freeSortMergeBufferPool := sc_freeSortMergeBufferPool s' \<rparr>
      \<and> length (sc_nodes s') = length (sc_nodes s))"

lemma readSortMergeNode_frame: "read_frame s (snd (readSortMergeNode e nbytes reclen waited i s))"
  by (auto simp: read_frame_def readSortMergeNode_def Let_def split: prod.splits option.splits RESULT.splits)

lemma read_frame_fields:
  assumes "read_frame s s'"
  shows "sc_blockSize s' = sc_blockSize s" "sc_disk s' = sc_disk s" "sc_totalNumOfScrBlocks s' = sc_totalNumOfScrBlocks s"
    "sc_currentBlock s' = sc_currentBlock s" "sc_bytesUsed s' = sc_bytesUsed s" "sc_numRecs s' = sc_numRecs s"
    "sc_currentRun s' = sc_currentRun s" "sc_runDirectory s' = sc_runDirectory s"
    "sc_sortMergeBlocksPerBuffer s' = sc_sortMergeBlocksPerBuffer s"
proof -
  obtain c n f where "s' = s\<lparr> sc_clock := c, sc_nodes := n, sc_freeSortMergeBufferPool := f \<rparr>"
    using assms unfolding read_frame_def by blast
  then show "sc_blockSize s' = sc_blockSize s" "sc_disk s' = sc_disk s" "sc_totalNumOfScrBlocks s' = sc_totalNumOfScrBlocks s"
    "sc_currentBlock s' = sc_currentBlock s" "sc_bytesUsed s' = sc_bytesUsed s" "sc_numRecs s' = sc_numRecs s"
    "sc_currentRun s' = sc_currentRun s" "sc_runDirectory s' = sc_runDirectory s"
    "sc_sortMergeBlocksPerBuffer s' = sc_sortMergeBlocksPerBuffer s"
    by simp_all
qed

lemma write_keeps_node_base:
  assumes "node_base e s nd g gs b" and "write_frame s s'"
  shows "node_base e s' nd g gs b"
proof -
  have t: "sc_totalNumOfScrBlocks s \<le> sc_totalNumOfScrBlocks s'" "\<forall>b < sc_totalNumOfScrBlocks s. sc_disk s' b = sc_disk s b"
    using assms(2) by (simp_all add: write_frame_def)
  have e: "mn_endBlockNum nd < sc_totalNumOfScrBlocks s" using assms(1) by (simp add: node_base_def)
  have "run_stored (sc_disk s') b gs" if "gs \<noteq> []"
  proof (rule run_stored_cong)
    show "run_stored (sc_disk s) b gs" using assms(1) that by (simp add: node_base_def)
    have "b + int (length gs) \<le> mn_endBlockNum nd + 1" using assms(1) that by (simp add: node_base_def)
    then show "\<forall>x. b \<le> x \<longrightarrow> x < b + int (length gs) \<longrightarrow> sc_disk s' x = sc_disk s x" using t(2) e by simp
  qed
  then show ?thesis using assms(1) t(1) e by (simp add: node_base_def)
qed

lemma write_keeps_nodes:
  assumes "scratch_inv e nbytes reclen s rss" and "write_frame s s'"
  shows "scratch_inv e nbytes reclen s' rss"
proof -
  have "node_ok e nbytes reclen s' nd rs" if "node_ok e nbytes reclen s nd rs" for nd rs
    using that write_keeps_node_base [OF _ assms(2)] unfolding node_ok_def node_at_def by blast
  then show ?thesis using assms unfolding scratch_inv_def write_frame_def by simp
qed

text \<open>The buffers of the pool are either free or in the queue of a node.\<close>

definition pool_total :: "SortScratchSpace \<Rightarrow> nat" where
  "pool_total s = sc_freeSortMergeBufferPool s + sum_list (map (length \<circ> mn_readQ) (sc_nodes s))"

lemma queue_reads_total:
  "(case queue_reads k nd free of (rc, nd', free') \<Rightarrow> length (mn_readQ nd') + free') = length (mn_readQ nd) + free"
  by (induction k arbitrary: nd free) auto

lemma initiate_read_total:
  "initiate_read k nd free = (rc, nd', free') \<Longrightarrow> length (mn_readQ nd') + free' = length (mn_readQ nd) + free"
  using queue_reads_total [of k nd free] by (auto simp: initiate_read_def split: if_splits)

lemma release_consumed_total:
  "release_consumed nd free = (nd', free') \<Longrightarrow> length (mn_readQ nd') + free' = length (mn_readQ nd) + free"
  by (auto simp: release_consumed_def split: list.splits prod.splits io_state.splits)

lemma checkIO_total: "checkIO_node e w nd = (rc, nd') \<Longrightarrow> length (mn_readQ nd') = length (mn_readQ nd)"
  by (auto simp: checkIO_node_def split: list.splits prod.splits if_splits)

lemma take_record_queue: "take_record n r nd = (rec, nd') \<Longrightarrow> mn_readQ nd' = mn_readQ nd"
  by (auto simp: take_record_def Let_def)

lemma pool_total_put:
  assumes "i < length (sc_nodes s)" and "length (mn_readQ nd) + free = length (mn_readQ (sc_nodes s ! i)) + sc_freeSortMergeBufferPool s"
  shows "pool_total (s\<lparr> sc_clock := c, sc_nodes := (sc_nodes s)[i := nd], sc_freeSortMergeBufferPool := free \<rparr>) = pool_total s"
proof -
  have "sum_list (map (length \<circ> mn_readQ) ((sc_nodes s)[i := nd])) + length (mn_readQ (sc_nodes s ! i))
      = sum_list (map (length \<circ> mn_readQ) (sc_nodes s)) + length (mn_readQ nd)"
    using assms(1) member_le_sum_list [of "length (mn_readQ (sc_nodes s ! i))" "map (length \<circ> mn_readQ) (sc_nodes s)"]
    by (simp add: map_update sum_list_update)
  then show ?thesis using assms(2) by (simp add: pool_total_def)
qed

lemma read_pool_total:
  assumes "i < length (sc_nodes s)"
  shows "pool_total (snd (readSortMergeNode e nbytes reclen waited i s)) = pool_total s"
proof -
  let ?nd = "refresh e (sc_clock s) (sc_nodes s ! i)" and ?free = "sc_freeSortMergeBufferPool s"
  have "\<exists>nd free. snd (readSortMergeNode e nbytes reclen waited i s)
        = s\<lparr> sc_clock := sc_clock s + 1, sc_nodes := (sc_nodes s)[i := nd], sc_freeSortMergeBufferPool := free \<rparr>
      \<and> length (mn_readQ nd) + free = length (mn_readQ ?nd) + ?free"
  proof -
    obtain nd1 free1 where 1: "release_consumed ?nd ?free = (nd1, free1)" by fastforce
    obtain rc nd2 where 2: "checkIO_node e waited nd1 = (rc, nd2)" by fastforce
    note t1 = release_consumed_total [OF 1] and t2 = checkIO_total [OF 2]
    show ?thesis
    proof (cases "mn_numRecsRead ?nd = bh_numRecs (mn_blockHead ?nd) \<and> bh_nextBlockNum (mn_blockHead ?nd) \<noteq> - 1 \<and> rc = SCRATCH_SUCCESS
        \<and> sc_disk s (fst (hd (mn_readQ nd2))) \<noteq> None")
      case True
      then obtain head bytes where b: "sc_disk s (fst (hd (mn_readQ nd2))) = Some (head, bytes)" by auto
      let ?nd3 = "nd2\<lparr> mn_blockHead := head, mn_scrBlock := bytes, mn_nextReadPosition := 0, mn_numRecsRead := 0 \<rparr>"
      obtain rec nd3 where 3: "take_record nbytes reclen ?nd3 = (rec, nd3)" by fastforce
      obtain rc4 nd4 free4 where 4: "initiate_read (sc_sortMergeBlocksPerBuffer s) nd3 free1 = (rc4, nd4, free4)" using prod_cases3 by blast
      show ?thesis
        using True b 1 2 3 4 t1 t2 take_record_queue [OF 3] initiate_read_total [OF 4]
        by (intro exI [of _ nd4] exI [of _ free4]) (simp add: readSortMergeNode_def Let_def)
    next
      case False
      obtain rec nd3 where 3: "take_record nbytes reclen ?nd = (rec, nd3)" by fastforce
      consider "mn_numRecsRead ?nd \<noteq> bh_numRecs (mn_blockHead ?nd)"
        | "mn_numRecsRead ?nd = bh_numRecs (mn_blockHead ?nd)" "bh_nextBlockNum (mn_blockHead ?nd) = - 1"
        | "mn_numRecsRead ?nd = bh_numRecs (mn_blockHead ?nd)" "bh_nextBlockNum (mn_blockHead ?nd) \<noteq> - 1" by blast
      then show ?thesis
      proof cases
        case 1
        then show ?thesis using 3 take_record_queue [OF 3]
          by (intro exI [of _ nd3] exI [of _ ?free]) (simp add: readSortMergeNode_def Let_def)
      next
        case 2
        then show ?thesis by (intro exI [of _ ?nd] exI [of _ ?free]) (simp add: readSortMergeNode_def Let_def)
      next
        case 3
        then show ?thesis using False 1 2 t1 t2
          by (intro exI [of _ nd2] exI [of _ free1]) (cases rc; auto simp: readSortMergeNode_def Let_def split: option.splits)
      qed
    qed
  qed
  then show ?thesis using pool_total_put [OF assms] by fastforce
qed

section \<open>What holds of the scratch space\<close>

text \<open>The block buffer is well formed: the header counts its bytes, and the last bytes stay free for the checksum.\<close>

definition block_wf :: "SortScratchSpace \<Rightarrow> bool" where
  "block_wf s = (sc_bytesUsed s = OVERHEAD + length (sc_currentBlock s) \<and> sc_bytesUsed s + DP2_CHECKSUM_BYTES \<le> sc_blockSize s)"

definition put_wf :: "SortScratchSpace \<Rightarrow> SortScratchSpace \<Rightarrow> bool" where
  "put_wf s s' = (block_wf s' \<and> sc_blockSize s' = sc_blockSize s)"

text \<open>
  C40: The block buffer stays well formed, whether a write succeeds or not: for a record that fits into a
  block, storing it never writes behind the buffer, and the bytes counted in the header are those in the buffer
  and leave the bytes for the checksum free.
\<close>

theorem scratch_block_type:
  assumes "block_wf s" and "fits s r"
  shows "\<exists>rc s'. writeRunData e r run s = Some (rc, s') \<and> put_wf s s' \<and> put_wf s (snd (flushRun e endrun s))"
proof -
  have fl: "put_wf t (snd (flushRun e b t))" if "block_wf t" for t b
    using that by (auto simp: put_wf_def block_wf_def flushRun_def switchScratchBuffers_def Let_def)
  let ?t = "if run \<noteq> sc_currentRun s then startNewRun s else s"
  have t: "block_wf ?t" "fits ?t r" "sc_blockSize ?t = sc_blockSize s"
    using assms by (auto simp: startNewRun_def block_wf_def fits_def)
  show ?thesis
  proof (cases "sc_bytesUsed ?t + length r \<le> sc_blockSize ?t - DP2_CHECKSUM_BYTES")
    case True
    then have "put_wf s (block_put r ?t)" using t by (auto simp: put_wf_def block_wf_def block_put_def)
    then show ?thesis using True fl [OF assms(1)] by (simp add: writeRunData_def Let_def)
  next
    case False
    have "writeRunData e r run s = (if se_write_ok e (sc_totalNumOfScrBlocks ?t)
        then Some (SCRATCH_SUCCESS, block_put r (snd (flushRun e False ?t))) else Some (SCRATCH_FAILURE, ?t))"
      using False t(2) by (simp add: writeRunData_def Let_def flushRun_def switchScratchBuffers_def fits_def)
    moreover have "put_wf s (block_put r (snd (flushRun e False ?t)))" if "se_write_ok e (sc_totalNumOfScrBlocks ?t)"
      using t that
      by (simp add: put_wf_def block_wf_def block_put_def flushRun_def Let_def switchScratchBuffers_def fits_def)
    moreover have "put_wf s ?t" using t by (simp add: put_wf_def)
    ultimately show ?thesis using fl [OF assms(1)] by auto
  qed
qed

theorem scratch_block_type_witness:
  "\<exists>rc s'. writeRunData \<lparr> se_write_ok = (\<lambda>_. True), se_read_ok = (\<lambda>_. True), se_read_done = (\<lambda>_ _. True) \<rparr> [7, 7] 1
      (scratch_new 30 1) = Some (rc, s') \<and> put_wf (scratch_new 30 1) s'"
proof -
  have "block_wf (scratch_new 30 1)" "fits (scratch_new 30 1) [7, 7]" by (simp_all add: block_wf_def scratch_new_def fits_def)
  from scratch_block_type [OF this] show ?thesis by blast
qed

text \<open>Records read from one node, one call after the other, until a call does not deliver one.\<close>

fun read_records ::
  "scratch_env \<Rightarrow> nat \<Rightarrow> nat \<Rightarrow> bool \<Rightarrow> nat \<Rightarrow> nat \<Rightarrow> SortScratchSpace \<Rightarrow> byte list list \<times> RESULT" where
  "read_records e nbytes reclen waited i 0 s = ([], SCRATCH_SUCCESS)"
| "read_records e nbytes reclen waited i (Suc n) s =
     (case readSortMergeNode e nbytes reclen waited i s of
        ((SCRATCH_SUCCESS, r), s') \<Rightarrow>
          (case read_records e nbytes reclen waited i n s' of (rs, rc) \<Rightarrow> (r # rs, rc))
      | ((rc, _), _) \<Rightarrow> ([], rc))"

lemma read_records_works:
  assumes "scratch_inv e nbytes reclen s rss" and "i < length rss" and "length (rss ! i) < n"
  shows "read_records e nbytes reclen True i n s = (rss ! i, END_OF_RUN)"
  using assms
proof (induction n arbitrary: s rss)
  case (Suc n)
  obtain a s' rss' where r: "readSortMergeNode e nbytes reclen True i s = (a, s')" "read_answers True rss i a rss'"
      "scratch_inv e nbytes reclen s' rss'"
    using readSortMergeNode_works [OF Suc.prems(1,2)] by blast
  show ?case
  proof (cases "rss ! i")
    case Nil
    then show ?thesis using r by (cases a) (auto simp: read_answers_def)
  next
    case (Cons x xs)
    then have a: "a = (SCRATCH_SUCCESS, x)" "rss' = rss[i := xs]" using r(2) by (auto simp: read_answers_def)
    have "read_records e nbytes reclen True i n s' = (rss' ! i, END_OF_RUN)"
      using Suc.IH [OF r(3)] Suc.prems(2,3) Cons a(2) by simp
    then show ?thesis using r(1) a Cons Suc.prems(2) by simp
  qed
qed simp

text \<open>
  C9: Round trip through the scratch file: when the disk works, the records that were written as a run of a
  new scratch space come back from its merge node in the same order, each with its own length, and then the end
  of the run is reported; the pool of two buffers per run never runs dry.
\<close>

theorem scratch_round_trip:
  assumes "writable e" and "readable e" and "1 \<le> perBuffer" and "rs \<noteq> []"
    and "\<forall>r \<in> set rs. rec_ok nbytes reclen r \<and> fits (scratch_new blockSize perBuffer) r"
  shows "\<exists>s1 s2 s3. write_records e 1 rs (scratch_new blockSize perBuffer) = Some (SCRATCH_SUCCESS, s1)
    \<and> flushRun e True s1 = (SCRATCH_SUCCESS, s2)
    \<and> open_nodes 1 1 (setupSortMergeBufferPool (2 * perBuffer) s2) = (True, s3)
    \<and> read_records e nbytes reclen True 0 (Suc (length rs)) s3 = (rs, END_OF_RUN)"
proof -
  let ?s = "scratch_new blockSize perBuffer"
  have i: "idle ?s" "runs_stored ?s []" "(1 :: nat) \<noteq> sc_currentRun ?s"
      "(1 :: nat) = Suc (length ([] :: byte list list list))"
    by (simp_all add: idle_def runs_stored_def scratch_new_def)
  have fit: "\<forall>r \<in> set rs. fits ?s r" and ok: "\<forall>q \<in> set [rs]. \<forall>r \<in> set q. rec_ok nbytes reclen r" using assms(5) by auto
  obtain s1 s2 where w: "write_records e 1 rs ?s = Some (SCRATCH_SUCCESS, s1)" "flushRun e True s1 = (SCRATCH_SUCCESS, s2)"
      "runs_stored s2 ([] @ [rs])" "write_frame ?s s2"
    using write_run_works [OF i(1,2) assms(1,4) fit i(3,4)] by blast
  let ?t = "setupSortMergeBufferPool (2 * perBuffer) s2"
  have n: "sc_nodes s2 = []" "sc_freeSortMergeBufferPool s2 = 0" "sc_sortMergeBlocksPerBuffer s2 = perBuffer"
    using w(4) by (simp_all add: write_frame_def scratch_new_def)
  have t: "scratch_inv e nbytes reclen ?t []" using n assms(3) by (simp add: scratch_inv_def setupSortMergeBufferPool_def)
  have "runs_stored ?t [rs]" using w(3) runs_stored_cong [of ?t s2] by (simp add: setupSortMergeBufferPool_def)
  moreover have "2 * sc_sortMergeBlocksPerBuffer ?t * (length [] + 1)
      \<le> sc_freeSortMergeBufferPool ?t + sum_list (map (length \<circ> mn_readQ) (sc_nodes ?t))"
    using n by (simp add: setupSortMergeBufferPool_def)
  ultimately obtain s3 where "open_nodes 1 (Suc 0) ?t = (True, s3)" "scratch_inv e nbytes reclen s3 [rs]"
    using open_nodes_works [OF t, of "[rs]" 0 1] assms(2) ok by auto
  then show ?thesis
    using w(1,2) read_records_works [of e nbytes reclen s3 "[rs]" 0 "Suc (length rs)"]
    by (intro exI [of _ s1] exI [of _ s2] exI [of _ s3]) simp
qed

theorem scratch_round_trip_witness:
  "\<exists>s1 s2 s3. write_records \<lparr> se_write_ok = (\<lambda>_. True), se_read_ok = (\<lambda>_. True), se_read_done = (\<lambda>_ _. False) \<rparr> 1
      [[1, 2], [3, 4], [5, 6]] (scratch_new 32 1) = Some (SCRATCH_SUCCESS, s1)
    \<and> flushRun \<lparr> se_write_ok = (\<lambda>_. True), se_read_ok = (\<lambda>_. True), se_read_done = (\<lambda>_ _. False) \<rparr> True s1 = (SCRATCH_SUCCESS, s2)
    \<and> open_nodes 1 1 (setupSortMergeBufferPool (2 * 1) s2) = (True, s3)
    \<and> read_records \<lparr> se_write_ok = (\<lambda>_. True), se_read_ok = (\<lambda>_. True), se_read_done = (\<lambda>_ _. False) \<rparr> 0 2 True 0
        (Suc (length [[1, 2], [3, 4], [5, 6 :: byte]])) s3 = ([[1, 2], [3, 4], [5, 6]], END_OF_RUN)"
proof (rule scratch_round_trip)
  show "\<forall>r \<in> set [[1, 2], [3, 4], [5, 6]]. rec_ok 0 2 r \<and> fits (scratch_new 32 1) r"
    by (simp add: rec_ok_def fits_def scratch_new_def)
qed (simp_all add: writable_def readable_def)

end
