(* ===== verification/Sort_Merge.thy ===== *)
theory Sort_Merge
  imports Sort_Tree Sort_Runs
begin

text \<open>
  What the merges of \<^verbatim>\<open>TourTree.cpp\<close> deliver.  The contract of the reader is a locale: each call gives the next record of
  its run, the end of the run, or, when it need not wait, that the read is not complete.  Over it the final merge
  returns a smallest record of all runs on every call, and the intermediate merge writes all records in order.
  The locale is interpreted on the scratch space.
\<close>

section \<open>The state of a merge\<close>

definition rec_key :: "sort_config \<Rightarrow> byte list \<Rightarrow> byte list" where
  "rec_key c r = take (cf_keySize c) (drop (cf_numberOfBytesForRecordSize c) r)"

definition rec_long :: "sort_config \<Rightarrow> byte list \<Rightarrow> bool" where
  "rec_long c r = (cf_keySize c \<le> length (drop (cf_numberOfBytesForRecordSize c) r))"

definition stream_ok :: "sort_config \<Rightarrow> byte list list \<Rightarrow> bool" where
  "stream_ok c rs = (sorted (map (rec_key c) rs) \<and> (\<forall>r \<in> set rs. rec_long c r))"

text \<open>
  A player that has not read yet, one that holds the first record it has to deliver, one that is done.  The size kept with
  a record is its own, or, unless \<open>ex\<close> asks for exact sizes, the largest one.
\<close>

definition player_state :: "sort_config \<Rightarrow> bool \<Rightarrow> tree_node \<Rightarrow> nat \<Rightarrow> byte list list \<Rightarrow> byte list list \<Rightarrow> bool" where
  "player_state c ex nd run rest ps =
     (run = 0 \<and> tn_key nd = None \<and> ps = rest \<and> rest \<noteq> []
      \<or> run = 1 \<and> tn_key nd = Some (drop (cf_numberOfBytesForRecordSize c) (tn_rec nd)) \<and> ps = tn_rec nd # rest
          \<and> (tn_recSize nd = length (tn_rec nd) \<or> \<not> ex \<and> tn_recSize nd = cf_recSize c)
      \<or> run = 2 \<and> ps = [] \<and> rest = [])"

definition players_ok ::
  "sort_config \<Rightarrow> bool \<Rightarrow> 's tree \<Rightarrow> (nat \<Rightarrow> standing) \<Rightarrow> byte list list list \<Rightarrow> byte list list list \<Rightarrow> bool" where
  "players_ok c ex t pv rss ps =
     ((\<exists>w. tournament (cf_keySize c) t pv w) \<and> 2 \<le> length (tr_nodes t)
      \<and> length rss = length (tr_nodes t) \<and> length ps = length (tr_nodes t)
      \<and> (\<forall>q < length (tr_nodes t). player_state c ex (tr_nodes t ! q) (fst (pv q)) (rss ! q) (ps ! q)
            \<and> snd (pv q) = key_part (cf_keySize c) (node_key t q)) \<and> (\<forall>rs \<in> set ps. stream_ok c rs))"

lemma player_state_cong:
  assumes "tn_key nd' = tn_key nd" and "tn_rec nd' = tn_rec nd" and "tn_recSize nd' = tn_recSize nd"
  shows "player_state c ex nd' run rest ps = player_state c ex nd run rest ps"
  using assms by (simp add: player_state_def)

lemma players_winner:
  assumes "players_ok c ex t pv rss ps"
  shows "tr_winner t < length (tr_nodes t)" "pv (tr_winner t) = winner_standing (cf_keySize c) t"
    "player_state c ex (tr_nodes t ! tr_winner t) (tr_winnerRun t) (rss ! tr_winner t) (ps ! tr_winner t)"
    "q < length (tr_nodes t) \<Longrightarrow> pv (tr_winner t) \<le> pv q"
proof -
  obtain w where w: "tournament (cf_keySize c) t pv w" using assms by (auto simp: players_ok_def)
  then show win: "tr_winner t < length (tr_nodes t)" "pv (tr_winner t) = winner_standing (cf_keySize c) t"
    by (auto simp: tournament_def seated_def places_def)
  then show "player_state c ex (tr_nodes t ! tr_winner t) (tr_winnerRun t) (rss ! tr_winner t) (ps ! tr_winner t)"
    using assms by (auto simp: players_ok_def winner_standing_def)
  show "pv (tr_winner t) \<le> pv q" if "q < length (tr_nodes t)" using winner_minimal [OF w that] .
qed

text \<open>The winner is given a new state, and the tree finds the next winner.\<close>

lemma players_advance:
  assumes ok: "players_ok c ex t pv rss ps" and seats: "same_seats t t1"
    and others: "\<forall>q. q \<noteq> tr_winner t \<longrightarrow> tr_nodes t1 ! q = tr_nodes t ! q"
    and new: "player_state c ex (tr_nodes t1 ! tr_winner t) (tr_winnerRun t1) rest ps'" and wf: "key_wf (cf_keySize c) (node_key t1 (tr_winner t))"
    and stream: "stream_ok c ps'"
  shows "\<exists>t2. determineNewWinner (cf_keySize c) t1 = Some t2 \<and> replayed t1 t2
    \<and> players_ok c ex t2 (pv(tr_winner t := winner_standing (cf_keySize c) t1)) (rss[tr_winner t := rest]) (ps[tr_winner t := ps'])"
proof -
  let ?n = "cf_keySize c" and ?p = "tr_winner t" and ?pv = "pv(tr_winner t := winner_standing (cf_keySize c) t1)"
  obtain w where w: "tournament ?n t pv w" and P: "2 \<le> length (tr_nodes t)" using ok by (auto simp: players_ok_def)
  obtain t2 w' where 2: "determineNewWinner ?n t1 = Some t2" "tournament ?n t2 ?pv w'" "replayed t1 t2"
    using determineNewWinner_works [OF w seats wf P] by blast
  have win: "?p < length (tr_nodes t)" "tr_winner t1 = ?p" "length (tr_nodes t1) = length (tr_nodes t)"
    using players_winner(1) [OF ok] seats by (auto simp: same_seats_def)
  note same = replayed_fields [OF 2(3)]
  have "player_state c ex (tr_nodes t2 ! q) (fst (?pv q)) (rss[?p := rest] ! q) (ps[?p := ps'] ! q)
      \<and> snd (?pv q) = key_part ?n (node_key t2 q)" if q: "q < length (tr_nodes t)" for q
  proof -
    have s: "node_key t2 q = node_key t1 q" "tn_rec (tr_nodes t2 ! q) = tn_rec (tr_nodes t1 ! q)"
        "tn_recSize (tr_nodes t2 ! q) = tn_recSize (tr_nodes t1 ! q)"
      using same_players_nth [OF same(5)] q win(3) by auto
    show ?thesis
    proof (cases "q = ?p")
      case True
      then show ?thesis
        using new ok win q by (simp add: player_state_cong [OF s [unfolded True]] s [unfolded True] winner_standing_def players_ok_def)
    next
      case False
      then show ?thesis
        using ok q others by (simp add: player_state_cong [OF s] s players_ok_def)
    qed
  qed
  moreover have "\<forall>rs \<in> set (ps[?p := ps']). stream_ok c rs"
    using ok stream set_update_subset_insert [of ps ?p ps'] by (auto simp: players_ok_def)
  ultimately show ?thesis
    using 2 ok win(3) same(6) by (auto simp: players_ok_def)
qed

lemma stream_tl: "stream_ok c (r # rs) \<Longrightarrow> stream_ok c rs"
  by (simp add: stream_ok_def)

definition waiting :: "'s tree \<Rightarrow> (nat \<Rightarrow> standing) \<Rightarrow> nat" where
  "waiting t pv = card {q. q < length (tr_nodes t) \<and> fst (pv q) = 0}"

text \<open>The run numbers: 0 before all players hold a record, then 1; a player that is done counts as run 2.\<close>

definition merge_ok ::
  "sort_config \<Rightarrow> bool \<Rightarrow> 's tree \<Rightarrow> (nat \<Rightarrow> standing) \<Rightarrow> byte list list list \<Rightarrow> byte list list list \<Rightarrow> bool" where
  "merge_ok c ex t pv rss ps =
     (players_ok c ex t pv rss ps
      \<and> tr_maxRuns t = (if \<forall>q < length (tr_nodes t). fst (pv q) = 0 then 0 else 1)
      \<and> (tr_currentRun t = 0 \<and> (\<forall>q < length (tr_nodes t). fst (pv q) \<noteq> 2)
          \<or> tr_currentRun t = 1 \<and> (\<forall>q < length (tr_nodes t). fst (pv q) \<noteq> 0)))"

lemma merge_okI:
  assumes "players_ok c ex t pv rss ps" and "tr_maxRuns t = 1" and "tr_currentRun t = 1"
    and "\<And>q. q < length (tr_nodes t) \<Longrightarrow> fst (pv q) \<noteq> 0"
  shows "merge_ok c ex t pv rss ps"
proof -
  have "2 \<le> length (tr_nodes t)" using assms(1) unfolding players_ok_def by blast
  then have "0 < length (tr_nodes t)" by linarith
  then have "\<not> (\<forall>q < length (tr_nodes t). fst (pv q) = 0)" using assms(4) by blast
  then show ?thesis unfolding merge_ok_def using assms by metis
qed

lemma tree_new_merge_ok:
  assumes "2 \<le> length rss" and "\<forall>rs \<in> set rss. rs \<noteq> [] \<and> stream_ok c rs"
  shows "merge_ok c ex (tree_new c (length rss) s) (\<lambda>_. (0, None)) rss rss"
proof -
  let ?t = "tree_new c (length rss) s"
  have "tournament (cf_keySize c) ?t (\<lambda>_. (0, None)) (\<lambda>_. (0, None))" using assms(1) by (intro tree_new_tournament) simp
  moreover have "length (tr_nodes ?t) = length rss" by (simp add: tree_new_def)
  moreover have "tr_nodes ?t ! q = treenode_initialize c q" if "q < length rss" for q using that by (simp add: tree_new_def)
  moreover have "rss ! q \<noteq> []" if "q < length rss" for q using assms(2) that by simp
  ultimately have "players_ok c ex ?t (\<lambda>_. (0, None)) rss rss"
    using assms unfolding players_ok_def by (auto simp: player_state_def treenode_initialize_def key_part_def)
  then show ?thesis by (simp add: merge_ok_def tree_new_def)
qed

text \<open>A change of what the tournament does not look at.\<close>

lemma players_cong:
  assumes "players_ok c ex t pv rss ps" and "tr_winner t' = tr_winner t" and "tr_winnerRun t' = tr_winnerRun t"
    and "length (tr_nodes t') = length (tr_nodes t)"
    and "\<And>i. tn_loser (tr_nodes t' ! i) = tn_loser (tr_nodes t ! i)" "\<And>i. tn_run (tr_nodes t' ! i) = tn_run (tr_nodes t ! i)"
      "\<And>i. node_key t' i = node_key t i" "\<And>i. tn_rec (tr_nodes t' ! i) = tn_rec (tr_nodes t ! i)"
      "\<And>i. tn_recSize (tr_nodes t' ! i) = tn_recSize (tr_nodes t ! i) \<or> \<not> ex \<and> tn_recSize (tr_nodes t' ! i) = cf_recSize c"
  shows "players_ok c ex t' pv rss ps"
proof -
  have "places t' = places t" "winner_standing n t' = winner_standing n t" "loser_standing n t' = loser_standing n t" for n
    using assms(2-7) by (simp_all add: places_def winner_standing_def loser_standing_def fun_eq_iff)
  then have "tournament n t' pv w = tournament n t pv w" for n w
    using assms(2,4,5,7) by (simp add: tournament_def seated_def settled_def)
  moreover have "player_state c ex (tr_nodes t' ! q) run rest p" if "player_state c ex (tr_nodes t ! q) run rest p" for q run rest p
    using that assms(9) [of q] by (auto simp: player_state_def assms(7,8))
  ultimately show ?thesis using assms(1,4,7) by (simp add: players_ok_def)
qed

text \<open>The record of the winner is a smallest one of all that are still to be delivered.\<close>

definition smallest :: "sort_config \<Rightarrow> byte list \<Rightarrow> byte list list list \<Rightarrow> bool" where
  "smallest c r ps = (\<forall>rs \<in> set ps. \<forall>x \<in> set rs. rec_key c r \<le> rec_key c x)"

definition delivers :: "sort_config \<Rightarrow> byte list list list \<Rightarrow> byte list \<Rightarrow> byte list list list \<Rightarrow> bool" where
  "delivers c ps r ps' = (smallest c r ps \<and> (\<exists>p rs. p < length ps \<and> ps ! p = r # rs \<and> ps' = ps[p := rs]))"

lemma winner_smallest:
  assumes ok: "players_ok c ex t pv rss ps" and run: "tr_winnerRun t = 1"
  shows "smallest c (tn_rec (tr_nodes t ! tr_winner t)) ps"
proof -
  let ?w = "tr_winner t"
  have key: "node_key t ?w = Some (drop (cf_numberOfBytesForRecordSize c) (tn_rec (tr_nodes t ! ?w)))"
    using players_winner(3) [OF ok] run by (simp add: player_state_def)
  have "rec_key c (tn_rec (tr_nodes t ! ?w)) \<le> rec_key c x" if q: "q < length (tr_nodes t)" and x: "x \<in> set (ps ! q)" for q x
  proof -
    have le: "pv ?w \<le> pv q" "fst (pv ?w) = 1" using players_winner(2,4) [OF ok] q run by (auto simp: winner_standing_def)
    have st: "player_state c ex (tr_nodes t ! q) (fst (pv q)) (rss ! q) (ps ! q)" "snd (pv q) = key_part (cf_keySize c) (node_key t q)"
      using ok q by (auto simp: players_ok_def)
    have "fst (pv q) \<noteq> 0" "fst (pv q) \<noteq> 2" using le st(1) x by (auto simp: less_eq_prod_def player_state_def)
    then have 1: "fst (pv q) = 1" "node_key t q = Some (drop (cf_numberOfBytesForRecordSize c) (tn_rec (tr_nodes t ! q)))"
        "ps ! q = tn_rec (tr_nodes t ! q) # rss ! q"
      using st(1) by (auto simp: player_state_def)
    then have "rec_key c (tn_rec (tr_nodes t ! ?w)) \<le> rec_key c (tn_rec (tr_nodes t ! q))"
      using le players_winner(2) [OF ok] st(2) key by (simp add: less_eq_prod_def winner_standing_def key_part_def rec_key_def)
    also have "stream_ok c (ps ! q)" using ok q by (simp add: players_ok_def)
    then have "rec_key c (tn_rec (tr_nodes t ! q)) \<le> rec_key c x" using x 1(3) by (auto simp: stream_ok_def)
    finally show ?thesis .
  qed
  then show ?thesis using ok unfolding smallest_def players_ok_def by (metis in_set_conv_nth)
qed

text \<open>The players by the run of the winner.\<close>

lemma merge_runs:
  assumes "merge_ok c ex t pv rss ps"
  shows "tr_winnerRun t = 0 \<Longrightarrow> tr_currentRun t = 0"
    "tr_winnerRun t \<noteq> 0 \<Longrightarrow> tr_maxRuns t = 1 \<and> (\<forall>q < length (tr_nodes t). fst (pv q) \<noteq> 0)"
    "tr_winnerRun t = 2 \<Longrightarrow> tr_currentRun t = 1 \<and> (\<forall>q < length ps. ps ! q = [])"
    "tr_winnerRun t \<in> {0, 1, 2}"
proof -
  have ok: "players_ok c ex t pv rss ps" using assms by (simp add: merge_ok_def)
  note win = players_winner [OF ok]
  have run: "fst (pv (tr_winner t)) = tr_winnerRun t" using win(2) by (simp add: winner_standing_def)
  have le: "tr_winnerRun t \<le> fst (pv q)" if "q < length (tr_nodes t)" for q
    using win(4) [OF that] run by (auto simp: less_eq_prod_def)
  show "tr_currentRun t = 0" if "tr_winnerRun t = 0" using assms win(1) run that by (auto simp: merge_ok_def)
  show "tr_maxRuns t = 1 \<and> (\<forall>q < length (tr_nodes t). fst (pv q) \<noteq> 0)" if "tr_winnerRun t \<noteq> 0"
  proof -
    have "\<forall>q < length (tr_nodes t). fst (pv q) \<noteq> 0" using le that by fastforce
    then show ?thesis using assms win(1) by (auto simp: merge_ok_def)
  qed
  show "tr_winnerRun t \<in> {0, 1, 2}" using win(3) by (auto simp: player_state_def)
  show "tr_currentRun t = 1 \<and> (\<forall>q < length ps. ps ! q = [])" if "tr_winnerRun t = 2"
  proof
    show "tr_currentRun t = 1" using assms win(1) run that by (auto simp: merge_ok_def)
    have "ps ! q = []" if q: "q < length (tr_nodes t)" for q
    proof -
      have "2 \<le> fst (pv q)" using le [OF q] \<open>tr_winnerRun t = 2\<close> by simp
      then show ?thesis using ok q by (auto simp: players_ok_def player_state_def)
    qed
    then show "\<forall>q < length ps. ps ! q = []" using ok by (simp add: players_ok_def)
  qed
qed

text \<open>The winner's record is replaced by its next one, or the player is done.\<close>

lemma replace_record:
  assumes ok: "merge_ok c ex t pv rss ps" and run: "tr_winnerRun t = 1" and seats: "same_seats t t1"
    and others: "\<forall>q. q \<noteq> tr_winner t \<longrightarrow> tr_nodes t1 ! q = tr_nodes t ! q"
    and new: "player_state c ex (tr_nodes t1 ! tr_winner t) (tr_winnerRun t1) rest ps'" and r1: "tr_winnerRun t1 \<noteq> 0"
    and wf: "key_wf (cf_keySize c) (node_key t1 (tr_winner t))" and stream: "stream_ok c ps'"
    and runs: "tr_maxRuns t1 = 1" "tr_currentRun t1 = 1"
  shows "\<exists>t2 pv'. determineNewWinner (cf_keySize c) t1 = Some t2 \<and> replayed t1 t2
    \<and> merge_ok c ex t2 pv' (rss[tr_winner t := rest]) (ps[tr_winner t := ps'])"
proof -
  let ?p = "tr_winner t" and ?pv = "pv(tr_winner t := winner_standing (cf_keySize c) t1)"
  have pl: "players_ok c ex t pv rss ps" using ok by (simp add: merge_ok_def)
  obtain t2 where 2: "determineNewWinner (cf_keySize c) t1 = Some t2" "replayed t1 t2"
      "players_ok c ex t2 ?pv (rss[?p := rest]) (ps[?p := ps'])"
    using players_advance [OF pl seats others new wf stream] by blast
  have win: "?p < length (tr_nodes t)" "tr_winner t1 = ?p" "length (tr_nodes t1) = length (tr_nodes t)"
    using players_winner(1) [OF pl] seats by (auto simp: same_seats_def)
  note fr = replayed_fields [OF 2(2)]
  have nz: "fst (?pv q) \<noteq> 0" if "q < length (tr_nodes t)" for q
    using merge_runs(2) [OF ok] run r1 that by (simp add: winner_standing_def)
  have "merge_ok c ex t2 ?pv (rss[?p := rest]) (ps[?p := ps'])"
    by (rule merge_okI [OF 2(3)]) (use fr runs win nz in \<open>metis+\<close>)
  then show ?thesis using 2 by blast
qed

section \<open>The reader\<close>

locale merge_source =
  fixes rd :: "'s reader" and inv :: "'s \<Rightarrow> byte list list list \<Rightarrow> 'o \<Rightarrow> bool" and fast :: bool
  assumes rd_law: "inv s rss out \<Longrightarrow> i < length rss \<Longrightarrow>
    \<exists>a s' rss'. rd waited i s = (a, s') \<and> read_answers (waited \<or> fast) rss i a rss' \<and> inv s' rss' out"
begin

text \<open>A call of \<^verbatim>\<open>inputScr\<close>: the next record, the end of the run, or a pending read.\<close>

lemma input_works:
  assumes "inv (tr_scratch t) rss out" and "tr_winner t < length rss"
  obtains (next_rec) r rs s' where "rss ! tr_winner t = r # rs" "inv s' (rss[tr_winner t := rs]) out"
      "inputScr c rd waited t = (SCRATCH_SUCCESS, t\<lparr> tr_nodes := (tr_nodes t)[tr_winner t :=
         (tr_nodes t ! tr_winner t)\<lparr> tn_key := Some (drop (cf_numberOfBytesForRecordSize c) r), tn_rec := r, tn_recSize := length r \<rparr>],
         tr_scratch := s' \<rparr>)"
    | (at_end) s' where "rss ! tr_winner t = []" "inv s' rss out"
      "inputScr c rd waited t = (END_OF_RUN, t\<lparr> tr_nodes := (tr_nodes t)[tr_winner t :=
         (tr_nodes t ! tr_winner t)\<lparr> tn_recSize := cf_recSize c \<rparr>], tr_scratch := s' \<rparr>)"
    | (pending) s' where "\<not> waited" "\<not> fast" "inv s' rss out"
      "inputScr c rd waited t = (IO_NOT_COMPLETE, t\<lparr> tr_nodes := (tr_nodes t)[tr_winner t :=
         (tr_nodes t ! tr_winner t)\<lparr> tn_recSize := cf_recSize c \<rparr>], tr_scratch := s' \<rparr>)"
proof -
  obtain rc r s' rss' where a: "rd waited (tr_winner t) (tr_scratch t) = ((rc, r), s')"
      "read_answers (waited \<or> fast) rss (tr_winner t) (rc, r) rss'" "inv s' rss' out"
    using rd_law [OF assms] by (metis surj_pair)
  show thesis
  proof (cases "rss ! tr_winner t")
    case Nil
    then show ?thesis using a at_end [of s'] by (simp add: read_answers_def inputScr_def Let_def)
  next
    case (Cons x xs)
    then consider "rc = SCRATCH_SUCCESS" "r = x" "rss' = rss[tr_winner t := xs]"
      | "rc = IO_NOT_COMPLETE" "\<not> waited" "\<not> fast" "rss' = rss"
      using a(2) by (auto simp: read_answers_def)
    then show ?thesis
    proof cases
      case 1
      then show ?thesis using a(1,3) Cons next_rec [of x xs s'] by (simp add: inputScr_def Let_def)
    next
      case 2
      then show ?thesis using a(1,3) pending [of s'] by (simp add: inputScr_def Let_def)
    qed
  qed
qed

text \<open>A player that has not read yet gets its first record.\<close>

lemma first_record:
  assumes ok: "merge_ok c ex t pv rss ps" and run: "tr_winnerRun t = 0" and inv: "inv s' (rss[tr_winner t := rs]) out"
    and rss: "rss ! tr_winner t = r # rs"
    and t1: "t1 = t\<lparr> tr_nodes := (tr_nodes t)[tr_winner t :=
         (tr_nodes t ! tr_winner t)\<lparr> tn_key := Some (drop (cf_numberOfBytesForRecordSize c) r), tn_rec := r, tn_recSize := length r \<rparr>],
         tr_scratch := s' \<rparr>"
  shows "\<exists>t2 pv'. determineNewWinner (cf_keySize c) (bump_run t1) = Some t2 \<and> tr_currentRun t2 = 0
    \<and> inv (tr_scratch t2) (rss[tr_winner t := rs]) out \<and> merge_ok c ex t2 pv' (rss[tr_winner t := rs]) ps
    \<and> waiting t2 pv' < waiting t pv \<and> tr_keyOfLastWinner t2 = tr_keyOfLastWinner t \<and> length (tr_nodes t2) = length (tr_nodes t)"
proof -
  let ?p = "tr_winner t" and ?n = "cf_keySize c" and ?P = "length (tr_nodes t)"
  have pl: "players_ok c ex t pv rss ps" using ok by (simp add: merge_ok_def)
  note win = players_winner [OF pl]
  have "tr_currentRun t = 0" using merge_runs(1) [OF ok run] .
  have ps: "ps ! ?p = r # rs" using win(3) run rss by (auto simp: player_state_def)
  then have so: "stream_ok c (r # rs)" using pl win(1) by (metis nth_mem players_ok_def)
  then have long: "?n \<le> length (drop (cf_numberOfBytesForRecordSize c) r)" by (simp add: stream_ok_def rec_long_def)
  have b: "tr_winnerRun (bump_run t1) = 1" "tr_maxRuns (bump_run t1) = 1" "tr_currentRun (bump_run t1) = 0"
      "tr_scratch (bump_run t1) = s'" "tr_nodes (bump_run t1) = tr_nodes t1" "tr_keyOfLastWinner (bump_run t1) = tr_keyOfLastWinner t"
    using run ok \<open>tr_currentRun t = 0\<close> by (auto simp: bump_run_def t1 merge_ok_def Let_def split: if_splits)
  have "same_seats t (bump_run t1)" "\<forall>q. q \<noteq> ?p \<longrightarrow> tr_nodes (bump_run t1) ! q = tr_nodes t ! q"
    using win(1) by (auto simp: same_seats_def b(5)) (auto simp: t1 bump_run_def Let_def nth_list_update)
  moreover have "player_state c ex (tr_nodes (bump_run t1) ! ?p) (tr_winnerRun (bump_run t1)) rs (r # rs)"
      "key_wf ?n (node_key (bump_run t1) ?p)"
    using win(1) long by (simp_all add: b player_state_def key_wf_def) (simp_all add: t1)
  ultimately obtain t2 where 2: "determineNewWinner ?n (bump_run t1) = Some t2" "replayed (bump_run t1) t2"
      "players_ok c ex t2 (pv(?p := winner_standing ?n (bump_run t1))) (rss[?p := rs]) (ps[?p := r # rs])"
    using players_advance [OF pl, of "bump_run t1" rs "r # rs"] so by blast
  let ?pv = "pv(?p := winner_standing ?n (bump_run t1))"
  have f: "fst (?pv ?p) = 1" "fst (pv ?p) = 0" using b(1) win(2) run by (simp_all add: winner_standing_def)
  note fr = replayed_fields [OF 2(2)]
  have len: "length (tr_nodes t2) = ?P" using fr(6) b(5) by (simp add: t1)
  have "ps[?p := r # rs] = ps" using ps by (metis list_update_id)
  moreover have "fst (?pv q) \<noteq> 2" if "q < ?P" for q
    using ok that f(1) \<open>tr_currentRun t = 0\<close> by (cases "q = ?p") (auto simp: merge_ok_def)
  ultimately have "merge_ok c ex t2 ?pv (rss[?p := rs]) ps"
    using 2(3) fr(1,2) b f(1) win(1) len by (auto simp: merge_ok_def)
  moreover have "waiting t2 ?pv < waiting t pv"
  proof -
    have "{q. q < ?P \<and> fst (?pv q) = 0} \<subset> {q. q < ?P \<and> fst (pv q) = 0}" using f win(1) by (auto split: if_splits)
    then show ?thesis unfolding waiting_def len by (intro psubset_card_mono) auto
  qed
  ultimately show ?thesis using 2(1) fr b inv len by auto
qed

text \<open>What a turn of the final merge does, by its result.\<close>

definition turn_result ::
  "sort_config \<Rightarrow> byte list list list \<Rightarrow> receive_answer option \<Rightarrow> byte list list list \<Rightarrow> bool" where
  "turn_result c ps a ps' =
     (case a of
        None \<Rightarrow> ps' = ps
      | Some (Received r len) \<Rightarrow> delivers c ps r ps' \<and> (len = length r \<or> len = cf_recSize c)
      | Some NoMore \<Rightarrow> ps' = ps \<and> (\<forall>rs \<in> set ps. rs = [])
      | Some SORT_IO_IN_PROGRESS \<Rightarrow> ps' = ps \<and> \<not> fast
      | Some (SORT_FAILED _) \<Rightarrow> False)"

definition turn_works :: "sort_config \<Rightarrow> 's tree \<Rightarrow> (nat \<Rightarrow> standing) \<Rightarrow> byte list list list \<Rightarrow> 'o \<Rightarrow> bool" where
  "turn_works c t pv ps out =
     (\<exists>a t' pv' rss' ps'. receive_turn c rd t = Some (a, t') \<and> inv (tr_scratch t') rss' out \<and> merge_ok c False t' pv' rss' ps'
        \<and> turn_result c ps a ps' \<and> (a = None \<longrightarrow> waiting t' pv' < waiting t pv))"

lemma turn_worksI:
  assumes "receive_turn c rd t = Some (a, t')" and "inv (tr_scratch t') rss' out" and "merge_ok c False t' pv' rss' ps'"
    and "turn_result c ps a ps'" and "a = None \<Longrightarrow> waiting t' pv' < waiting t pv"
  shows "turn_works c t pv ps out"
  unfolding turn_works_def using assms by blast

lemma pending_ok:
  assumes "merge_ok c False t pv rss ps" and "tr_winner t < length (tr_nodes t)"
    and "t' = t\<lparr> tr_nodes := (tr_nodes t)[tr_winner t := (tr_nodes t ! tr_winner t)\<lparr> tn_recSize := cf_recSize c \<rparr>],
                 tr_currentRun := cr, tr_keyOfLastWinner := k, tr_scratch := s' \<rparr>"
    and "cr = tr_currentRun t \<or> cr = 1 \<and> (\<forall>q < length (tr_nodes t). fst (pv q) \<noteq> 0)"
  shows "merge_ok c False t' pv rss ps"
proof -
  have pl: "players_ok c False t pv rss ps" using assms(1) by (simp add: merge_ok_def)
  have "players_ok c False t' pv rss ps"
    by (rule players_cong [OF pl]) (use assms(2) in \<open>simp_all add: assms(3) nth_list_update\<close>)
  moreover have "tr_maxRuns t' = tr_maxRuns t" "tr_currentRun t' = cr" "length (tr_nodes t') = length (tr_nodes t)"
    by (simp_all add: assms(3))
  ultimately show ?thesis using assms(1,4) unfolding merge_ok_def by metis
qed

lemma turn_unloaded:
  assumes ok: "merge_ok c False t pv rss ps" and inv: "inv (tr_scratch t) rss out" and run: "tr_winnerRun t = 0"
  shows "turn_works c t pv ps out"
proof -
  let ?p = "tr_winner t"
  have pl: "players_ok c False t pv rss ps" using ok by (simp add: merge_ok_def)
  have win: "?p < length (tr_nodes t)" and len: "length rss = length (tr_nodes t)"
    using players_winner(1) [OF pl] pl by (auto simp: players_ok_def)
  have cr: "tr_currentRun t = 0" using merge_runs(1) [OF ok run] .
  have ne: "rss ! ?p \<noteq> []" using players_winner(3) [OF pl] run by (auto simp: player_state_def)
  have "?p < length rss" using win len by simp
  with inv show ?thesis
  proof (cases rule: input_works [where c = c and waited = False])
    case (next_rec r rs s')
    then obtain t2 pv' where 2: "determineNewWinner (cf_keySize c) (bump_run (snd (inputScr c rd False t))) = Some t2"
        "tr_currentRun t2 = 0" "inv (tr_scratch t2) (rss[?p := rs]) out" "merge_ok c False t2 pv' (rss[?p := rs]) ps" "waiting t2 pv' < waiting t pv"
      using first_record [OF ok run next_rec(2,1) refl] by auto
    have "receive_turn c rd t = Some (None, t2)"
      using run cr next_rec(3) 2(1,2) by (simp add: receive_turn_def Let_def)
    moreover have "turn_result c ps None ps" by (simp add: turn_result_def)
    ultimately show ?thesis using 2(5) by (rule turn_worksI [OF _ 2(3,4)])
  next
    case (at_end s')
    then show ?thesis using ne by simp
  next
    case (pending s')
    define t' where "t' = snd (inputScr c rd False t)"
    have mo: "merge_ok c False t' pv rss ps"
      using pending(4) by (intro pending_ok [OF ok win, where cr = "tr_currentRun t" and k = "tr_keyOfLastWinner t" and s' = s']) (simp_all add: t'_def)
    have "receive_turn c rd t = Some (Some SORT_IO_IN_PROGRESS, t')" "tr_scratch t' = s'"
      using run cr pending(4) by (simp_all add: receive_turn_def Let_def t'_def)
    moreover have "turn_result c ps (Some SORT_IO_IN_PROGRESS) ps" unfolding turn_result_def using pending(2) by simp
    ultimately show ?thesis using pending(3) by (intro turn_worksI [where a = "Some SORT_IO_IN_PROGRESS", OF _ _ mo]) simp_all
  qed
qed

lemma turn_done:
  assumes ok: "merge_ok c False t pv rss ps" and inv: "inv (tr_scratch t) rss out" and run: "tr_winnerRun t = 2"
  shows "turn_works c t pv ps out"
proof -
  have r: "tr_currentRun t = 1" "\<forall>q < length ps. ps ! q = []" using merge_runs(3) [OF ok run] by blast+
  have "tr_winnerRun t \<noteq> 0" using run by simp
  then have m: "tr_maxRuns t = 1" using merge_runs(2) [OF ok] by blast
  have "\<forall>rs \<in> set ps. rs = []" using r(2) by (simp only: all_set_conv_all_nth)
  then have "turn_result c ps (Some NoMore) ps" unfolding turn_result_def option.case receive_answer.case by blast
  moreover have "receive_turn c rd t = Some (Some NoMore, t)" unfolding receive_turn_def using run r(1) m by simp
  ultimately show ?thesis by (intro turn_worksI [where a = "Some NoMore", OF _ inv ok]) simp_all
qed

text \<open>The player behind a delivered record reads its next one; it is never out of order.\<close>

lemma in_order:
  assumes "stream_ok c (x # r # rs)" and "tr_keyOfLastWinner t = rec_key c x"
    and "node_key t (tr_winner t) = Some (drop (cf_numberOfBytesForRecordSize c) r)"
  shows "\<not> out_of_order (cf_keySize c) t"
proof -
  have "cf_keySize c \<le> length (rec_key c x)" "cf_keySize c \<le> length (drop (cf_numberOfBytesForRecordSize c) r)"
    "rec_key c x \<le> rec_key c r"
    using assms(1) by (auto simp: stream_ok_def rec_long_def rec_key_def)
  then show ?thesis
    using compare_key_greater [of "cf_keySize c" "rec_key c x"] assms(2,3) by (simp add: out_of_order_def rec_key_def not_less)
qed

lemma winner_replaced:
  fixes t t1 :: "'x tree"
  assumes ok: "merge_ok c ex t pv rss ps" and run: "tr_winnerRun t = 1"
    and t1: "tr_winner t1 = tr_winner t" "tr_nodes t1 = (tr_nodes t)[tr_winner t := nd]" "tr_maxRuns t1 = 1" "tr_currentRun t1 = 1"
    and nd: "tn_loser nd = tn_loser (tr_nodes t ! tr_winner t)" "tn_run nd = tn_run (tr_nodes t ! tr_winner t)"
    and new: "player_state c ex nd (tr_winnerRun t1) rest ps'" "tr_winnerRun t1 \<noteq> 0" "key_wf (cf_keySize c) (tn_key nd)" "stream_ok c ps'"
  shows "\<exists>t2 pv'. determineNewWinner (cf_keySize c) t1 = Some t2 \<and> replayed t1 t2
    \<and> merge_ok c ex t2 pv' (rss[tr_winner t := rest]) (ps[tr_winner t := ps'])"
proof -
  have win: "tr_winner t < length (tr_nodes t)" using players_winner(1) ok by (auto simp: merge_ok_def)
  have n: "tr_nodes t1 ! q = (if q = tr_winner t then nd else tr_nodes t ! q)" for q using win by (simp add: t1(2) nth_list_update)
  have "same_seats t t1" using nd t1(1) by (simp add: same_seats_def n) (simp add: t1(2))
  then show ?thesis
    using new by (intro replace_record [OF ok run]) (simp_all add: n t1(1,3,4))
qed

definition after_read :: "sort_config \<Rightarrow> tree_node \<Rightarrow> RESULT \<times> 's tree \<Rightarrow> (receive_answer option \<times> 's tree) option" where
  "after_read c nd a =
     (case a of
        (END_OF_RUN, t3) \<Rightarrow> do {
          t4 \<leftarrow> determineNewWinner (cf_keySize c) (t3\<lparr> tr_winnerRun := tr_maxRuns t3 + 1 \<rparr>);
          Some (if tr_currentRun t4 \<noteq> 0 then Some (Received (tn_rec nd) (tn_recSize nd)) else None, t4) }
      | (SCRATCH_SUCCESS, t3) \<Rightarrow> do {
          t4 \<leftarrow> determineNewWinner (cf_keySize c)
                  (if tr_winnerRun t3 = 0 \<or> out_of_order (cf_keySize c) t3 then bump_run t3 else t3);
          Some (if tr_currentRun t4 \<noteq> 0 then Some (Received (tn_rec nd) (tn_recSize nd)) else None, t4) }
      | (IO_NOT_COMPLETE, t3) \<Rightarrow> Some (Some SORT_IO_IN_PROGRESS, t3)
      | (rc, t3) \<Rightarrow> Some (Some (SORT_FAILED rc), t3))"

lemma turn_loaded_unfold:
  assumes "tr_winnerRun t = 1" and "tr_maxRuns t = 1" and "node_key t (tr_winner t) = Some k"
  shows "receive_turn c rd t = after_read c (tr_nodes t ! tr_winner t)
    (inputScr c rd False (t\<lparr> tr_currentRun := 1, tr_keyOfLastWinner := take (cf_keySize c) k \<rparr>))"
proof -
  have t1: "(if tr_winnerRun t \<noteq> tr_currentRun t then t\<lparr> tr_currentRun := tr_winnerRun t \<rparr> else t) = t\<lparr> tr_currentRun := 1 \<rparr>"
      "tr_nodes (t\<lparr> tr_currentRun := 1 \<rparr>) = tr_nodes t" "tr_winner (t\<lparr> tr_currentRun := 1 \<rparr>) = tr_winner t"
    using assms(1) by (auto intro: tree.equality)
  show ?thesis
    unfolding receive_turn_def Let_def t1 using assms by (simp add: set_keyOfLastWinner_def after_read_def)
qed

lemma turn_loaded:
  assumes ok: "merge_ok c False t pv rss ps" and inv: "inv (tr_scratch t) rss out" and run: "tr_winnerRun t = 1"
  shows "turn_works c t pv ps out"
proof -
  let ?p = "tr_winner t" and ?n = "cf_keySize c"
  let ?nd = "tr_nodes t ! ?p"
  have pl: "players_ok c False t pv rss ps" using ok by (simp add: merge_ok_def)
  have win: "?p < length (tr_nodes t)" and len: "length rss = length (tr_nodes t)" "length ps = length (tr_nodes t)"
    using players_winner(1) [OF pl] pl unfolding players_ok_def by blast+
  have st: "tn_key ?nd = Some (drop (cf_numberOfBytesForRecordSize c) (tn_rec ?nd))" "ps ! ?p = tn_rec ?nd # rss ! ?p"
      "tn_recSize ?nd = length (tn_rec ?nd) \<or> tn_recSize ?nd = cf_recSize c"
    using players_winner(3) [OF pl] run by (simp_all add: player_state_def)
  have so: "stream_ok c (tn_rec ?nd # rss ! ?p)" using pl win len(2) st(2) unfolding players_ok_def by (metis nth_mem)
  have m: "tr_maxRuns t = 1" "\<forall>q < length (tr_nodes t). fst (pv q) \<noteq> 0" using merge_runs(2) [OF ok] run by auto
  define t2 where "t2 = t\<lparr> tr_currentRun := 1, tr_keyOfLastWinner := rec_key c (tn_rec ?nd) \<rparr>"
  have t2: "tr_winner t2 = ?p" "tr_nodes t2 = tr_nodes t" "tr_scratch t2 = tr_scratch t" "tr_winnerRun t2 = 1" "tr_maxRuns t2 = 1"
      "tr_currentRun t2 = 1" "tr_keyOfLastWinner t2 = rec_key c (tn_rec ?nd)"
    using run m(1) by (simp_all add: t2_def)
  have turn: "receive_turn c rd t = after_read c ?nd (inputScr c rd False t2)"
    using turn_loaded_unfold [OF run m(1) st(1)] by (simp add: t2_def rec_key_def)
  have res: "turn_result c ps (Some (Received (tn_rec ?nd) (tn_recSize ?nd))) (ps[?p := rss ! ?p])"
    using winner_smallest [OF pl run] win len st(2,3) by (auto simp: turn_result_def delivers_def)
  have "inv (tr_scratch t2) rss out" "tr_winner t2 < length rss" using win len inv t2 by simp_all
  then show ?thesis
  proof (cases rule: input_works [where c = c and waited = False])
    case (next_rec r rs s')
    define t3 where "t3 = snd (inputScr c rd False t2)"
    have rs: "rss ! ?p = r # rs" using next_rec(1) t2(1) by simp
    have "\<not> out_of_order ?n t3"
      by (rule in_order [of c "tn_rec ?nd" r rs]) (use so rs next_rec(3) t2 win in \<open>simp_all add: t3_def\<close>)
    moreover have "\<exists>t4 pv'. determineNewWinner ?n t3 = Some t4 \<and> replayed t3 t4
        \<and> merge_ok c False t4 pv' (rss[?p := rs]) (ps[?p := r # rs])"
      by (rule winner_replaced [OF ok run, where nd = "?nd\<lparr> tn_key := Some (drop (cf_numberOfBytesForRecordSize c) r),
            tn_rec := r, tn_recSize := length r \<rparr>"])
        (use so rs next_rec(3) t2 in \<open>simp_all add: t3_def player_state_def key_wf_def stream_ok_def rec_long_def\<close>)
    then obtain t4 pv' where 4: "determineNewWinner ?n t3 = Some t4" "replayed t3 t4"
        "merge_ok c False t4 pv' (rss[?p := rs]) (ps[?p := rss ! ?p])"
      using rs by auto
    note fr = replayed_fields [OF 4(2)]
    have "inv (tr_scratch t4) (rss[?p := rs]) out" "tr_currentRun t4 = 1"
      using fr next_rec(2,3) t2 by (simp_all add: t3_def)
    moreover have "tr_winnerRun t3 = 1" using next_rec(3) t2 by (simp add: t3_def)
    ultimately have "receive_turn c rd t = Some (Some (Received (tn_rec ?nd) (tn_recSize ?nd)), t4)"
      using turn next_rec(3) 4(1) by (simp add: after_read_def t3_def)
    then show ?thesis using \<open>inv (tr_scratch t4) _ _\<close> 4(3) res by (rule turn_worksI) simp
  next
    case (at_end s')
    define t3 where "t3 = (snd (inputScr c rd False t2))\<lparr> tr_winnerRun := 2 \<rparr>"
    have rs: "rss ! ?p = []" using at_end(1) t2(1) by simp
    have "\<exists>t4 pv'. determineNewWinner ?n t3 = Some t4 \<and> replayed t3 t4 \<and> merge_ok c False t4 pv' (rss[?p := []]) (ps[?p := []])"
      by (rule winner_replaced [OF ok run, where nd = "?nd\<lparr> tn_recSize := cf_recSize c \<rparr>"])
        (use so at_end(3) t2 st(1) in \<open>simp_all add: t3_def player_state_def key_wf_def stream_ok_def rec_long_def\<close>)
    then obtain t4 pv' where 4: "determineNewWinner ?n t3 = Some t4" "replayed t3 t4"
        "merge_ok c False t4 pv' rss (ps[?p := rss ! ?p])"
      using rs by (metis list_update_id)
    note fr = replayed_fields [OF 4(2)]
    have "inv (tr_scratch t4) rss out" "tr_currentRun t4 = 1" using fr at_end(2,3) t2 by (simp_all add: t3_def)
    then have "receive_turn c rd t = Some (Some (Received (tn_rec ?nd) (tn_recSize ?nd)), t4)"
      using turn at_end(3) 4(1) t2(5) by (simp add: after_read_def t3_def numeral_2_eq_2)
    then show ?thesis using \<open>inv (tr_scratch t4) _ _\<close> 4(3) res by (rule turn_worksI) simp
  next
    case (pending s')
    define t' where "t' = snd (inputScr c rd False t2)"
    have mo: "merge_ok c False t' pv rss ps"
      using pending(4) m(2)
      by (intro pending_ok [OF ok win, where cr = 1 and k = "rec_key c (tn_rec ?nd)" and s' = s']) (simp_all add: t'_def t2_def)
    have "receive_turn c rd t = Some (Some SORT_IO_IN_PROGRESS, t')" "tr_scratch t' = s'"
      using turn pending(4) by (simp_all add: after_read_def t'_def)
    moreover have "turn_result c ps (Some SORT_IO_IN_PROGRESS) ps" unfolding turn_result_def using pending(2) by simp
    ultimately show ?thesis using pending(3) by (intro turn_worksI [where a = "Some SORT_IO_IN_PROGRESS", OF _ _ mo]) simp_all
  qed
qed

section \<open>The final merge\<close>

text \<open>A call of \<^verbatim>\<open>sortReceive\<close> on two runs or more always returns.\<close>

lemma receive_loop_works:
  assumes "merge_ok c False t pv rss ps" and "inv (tr_scratch t) rss out"
  shows "\<exists>a t' pv' rss' ps'. receive_loop c rd t = Some (a, t') \<and> inv (tr_scratch t') rss' out \<and> merge_ok c False t' pv' rss' ps'
    \<and> turn_result c ps (Some a) ps'"
  using assms
proof (induction "waiting t pv" arbitrary: t pv rss ps rule: less_induct)
  case less
  have "turn_works c t pv ps out"
    using merge_runs(4) [OF less.prems(1)] turn_unloaded [OF less.prems] turn_loaded [OF less.prems] turn_done [OF less.prems]
    by blast
  then obtain a t' pv' rss' ps' where 1: "receive_turn c rd t = Some (a, t')" "inv (tr_scratch t') rss' out"
      "merge_ok c False t' pv' rss' ps'" "turn_result c ps a ps'" "a = None \<longrightarrow> waiting t' pv' < waiting t pv"
    unfolding turn_works_def by blast
  show ?case
  proof (cases a)
    case None
    then have "ps' = ps" using 1(4) by (simp add: turn_result_def)
    then show ?thesis using less.hyps [OF _ 1(3,2)] 1(1,5) None by (subst receive_loop.simps) simp
  next
    case (Some x)
    then show ?thesis using 1 by (subst receive_loop.simps) auto
  qed
qed

end

text \<open>The caller's loop: \<open>k\<close> calls of \<^verbatim>\<open>sortReceive\<close>, up to the end; the records, and whether the end was seen.\<close>

fun receive_all :: "sort_config \<Rightarrow> 's reader \<Rightarrow> nat \<Rightarrow> 's tree \<Rightarrow> (byte list list \<times> bool) option" where
  "receive_all c rd 0 t = Some ([], False)"
| "receive_all c rd (Suc k) t =
     (case sortReceive c rd t of
        Some (Received r len, t') \<Rightarrow> map_option (\<lambda>(rs, over). (r # rs, over)) (receive_all c rd k t')
      | Some (SORT_IO_IN_PROGRESS, t') \<Rightarrow> receive_all c rd k t'
      | Some (NoMore, _) \<Rightarrow> Some ([], True)
      | _ \<Rightarrow> None)"

text \<open>What the calls deliver of the records \<open>ps\<close>.\<close>

definition merged :: "sort_config \<Rightarrow> byte list list list \<Rightarrow> byte list list \<Rightarrow> bool \<Rightarrow> bool" where
  "merged c ps rs over =
     (sorted (map (rec_key c) rs) \<and> mset rs \<subseteq># mset (concat ps) \<and> (over \<longrightarrow> mset rs = mset (concat ps)))"

lemma delivers_mset:
  assumes "delivers c ps r ps'"
  shows "mset (concat ps) = add_mset r (mset (concat ps'))"
proof -
  obtain p rs where p: "p < length ps" "ps ! p = r # rs" "ps' = ps[p := rs]" using assms by (auto simp: delivers_def)
  have "ps = take p ps @ (r # rs) # drop (Suc p) ps" using p(1,2) by (metis id_take_nth_drop)
  moreover have "ps' = take p ps @ rs # drop (Suc p) ps" using p(1,3) by (simp add: upd_conv_take_nth_drop)
  ultimately show ?thesis by (metis (no_types, lifting) add_mset_add_single concat.simps(2) concat_append mset.simps(2) mset_append
      union_mset_add_mset_left union_mset_add_mset_right append_Cons)
qed

lemma merged_cons:
  assumes "delivers c ps r ps'" and "merged c ps' rs over"
  shows "merged c ps (r # rs) over"
proof -
  have m: "mset (concat ps) = add_mset r (mset (concat ps'))" by (rule delivers_mset [OF assms(1)])
  have "rec_key c r \<le> rec_key c x" if "x \<in> set rs" for x
  proof -
    have "x \<in># mset (concat ps')" using assms(2) that by (metis merged_def mset_subset_eqD set_mset_mset)
    then have "x \<in># mset (concat ps)" using m by simp
    then have "x \<in> set (concat ps)" by simp
    then obtain q where "q \<in> set ps" "x \<in> set q" by auto
    then show ?thesis using assms(1) unfolding delivers_def smallest_def by blast
  qed
  then show ?thesis using assms(2) m by (auto simp: merged_def)
qed

lemma merged_empty: "(\<And>rs. rs \<in> set ps \<Longrightarrow> rs = []) \<Longrightarrow> merged c ps [] True"
  by (simp add: merged_def)

context merge_source
begin

text \<open>The steps of the caller, for a state \<open>st\<close> in which every call of \<^verbatim>\<open>sortReceive\<close> has a proper answer.\<close>

lemma receive_all_steps:
  assumes step: "\<And>t ps. st t ps \<Longrightarrow> \<exists>a t' ps'. sortReceive c rd t = Some (a, t') \<and> st t' ps' \<and> turn_result c ps (Some a) ps'"
    and "st t ps"
  shows "\<exists>rs over. receive_all c rd k t = Some (rs, over) \<and> merged c ps rs over \<and> (fast \<longrightarrow> length (concat ps) < k \<longrightarrow> over)"
  using assms(2)
proof (induction k arbitrary: t ps)
  case 0
  have "merged c ps [] False" by (simp add: merged_def)
  then show ?case by auto
next
  case (Suc k)
  obtain a t' ps' where 1: "sortReceive c rd t = Some (a, t')" "st t' ps'" "turn_result c ps (Some a) ps'"
    using step [OF Suc.prems] by blast
  obtain rs over where 2: "receive_all c rd k t' = Some (rs, over)" "merged c ps' rs over" "fast \<longrightarrow> length (concat ps') < k \<longrightarrow> over"
    using Suc.IH [OF 1(2)] by blast
  show ?case
  proof (cases a)
    case (Received r len)
    then have d: "delivers c ps r ps'" using 1(3) by (simp add: turn_result_def)
    then have "size (mset (concat ps)) = Suc (size (mset (concat ps')))" using delivers_mset by (metis size_add_mset)
    then have "length (concat ps) = Suc (length (concat ps'))" by simp
    then show ?thesis using merged_cons [OF d 2(2)] 1(1) 2(1,3) Received by auto
  next
    case NoMore
    note r = 1(3) [unfolded NoMore turn_result_def option.case receive_answer.case]
    then have "\<And>rs. rs \<in> set ps \<Longrightarrow> rs = []" by blast
    then show ?thesis using merged_empty [of ps c] 1(1) NoMore by (metis (no_types, lifting) receive_all.simps(2) option.case(2) prod.case receive_answer.case(2))
  next
    case SORT_IO_IN_PROGRESS
    note r = 1(3) [unfolded SORT_IO_IN_PROGRESS turn_result_def option.case receive_answer.case]
    then have "ps' = ps" "\<not> fast" by blast+
    then show ?thesis using 1(1) 2 SORT_IO_IN_PROGRESS by auto
  next
    case (SORT_FAILED x)
    then show ?thesis using 1(3) by (simp add: turn_result_def)
  qed
qed

lemma receive_all_works:
  assumes "merge_ok c False t pv rss ps" and "inv (tr_scratch t) rss out"
  shows "\<exists>rs over. receive_all c rd k t = Some (rs, over) \<and> merged c ps rs over \<and> (fast \<longrightarrow> length (concat ps) < k \<longrightarrow> over)"
proof (rule receive_all_steps)
  let ?st = "\<lambda>t ps. \<exists>pv rss. merge_ok c False t pv rss ps \<and> inv (tr_scratch t) rss out"
  show "?st t ps" using assms by blast
  fix t ps
  assume "?st t ps"
  then obtain pv rss where 1: "merge_ok c False t pv rss ps" "inv (tr_scratch t) rss out" by blast
  then have "2 \<le> length (tr_nodes t)" unfolding merge_ok_def players_ok_def by blast
  then have "sortReceive c rd t = receive_loop c rd t" by (auto simp: sortReceive_def)
  then show "\<exists>a t' ps'. sortReceive c rd t = Some (a, t') \<and> ?st t' ps' \<and> turn_result c ps (Some a) ps'"
    using receive_loop_works [OF 1] by metis
qed

text \<open>One run needs no tournament.\<close>

lemma receive_single_works:
  assumes "length (tr_nodes t) = 1" and "tr_winner t = 0" and "inv (tr_scratch t) [rs] out" and "stream_ok c rs"
  shows "\<exists>xs over. receive_all c rd k t = Some (xs, over) \<and> merged c [rs] xs over \<and> (fast \<longrightarrow> length (concat [rs]) < k \<longrightarrow> over)"
proof (rule receive_all_steps)
  let ?st = "\<lambda>(t :: 's tree) ps. length (tr_nodes t) = 1 \<and> tr_winner t = 0
    \<and> (\<exists>rs. ps = [rs] \<and> inv (tr_scratch t) [rs] out \<and> stream_ok c rs)"
  show "?st t [rs]" using assms by blast
  fix t ps
  assume st: "?st t ps"
  then obtain rs where rs: "ps = [rs]" "inv (tr_scratch t) [rs] out" "stream_ok c rs" by blast
  have "tr_winner t < length [rs]" using st by simp
  with rs(2) show "\<exists>a t' ps'. sortReceive c rd t = Some (a, t') \<and> ?st t' ps' \<and> turn_result c ps (Some a) ps'"
  proof (cases rule: input_works [where c = c and waited = False])
    case (next_rec r rs' s')
    have r: "rs = r # rs'" using next_rec(1) st by simp
    have "delivers c ps r [rs']"
      using rs(1,3) r by (auto simp: delivers_def smallest_def stream_ok_def intro!: exI [of _ 0])
    then show ?thesis
      using next_rec(2,3) st rs r stream_tl [of c r rs'] by (auto simp: sortReceive_def turn_result_def Let_def)
  next
    case (at_end s')
    then show ?thesis using st rs by (auto simp: sortReceive_def turn_result_def)
  next
    case (pending s')
    have "turn_result c ps (Some SORT_IO_IN_PROGRESS) ps" unfolding turn_result_def using pending(2) by simp
    then show ?thesis using pending(3,4) st rs by (auto simp: sortReceive_def)
  qed
qed

end

section \<open>The scratch space as the reader\<close>

lemma readSortMergeNode_law:
  assumes "scratch_inv e nbytes reclen s rss" and "i < length rss"
  shows "\<exists>a s' rss'. readSortMergeNode e nbytes reclen waited i s = (a, s') \<and> read_answers (waited \<or> prompt e) rss i a rss'
    \<and> scratch_inv e nbytes reclen s' rss'"
proof -
  obtain a s' rss' where 1: "readSortMergeNode e nbytes reclen waited i s = (a, s')" "read_answers waited rss i a rss'"
      "scratch_inv e nbytes reclen s' rss'"
    using readSortMergeNode_works [OF assms] by blast
  have "fst a \<noteq> IO_NOT_COMPLETE" if "prompt e"
    using read_prompt [OF that, of nbytes reclen waited i s] 1(1) by simp
  then have "read_answers (waited \<or> prompt e) rss i a rss'"
    using 1(2) by (auto simp: read_answers_def split: list.splits)
  then show ?thesis using 1 by blast
qed

interpretation scratch_reader: merge_source "readSortMergeNode e nbytes reclen"
  "\<lambda>s rss (_ :: unit). scratch_inv e nbytes reclen s rss" "prompt e" for e nbytes reclen
  by unfold_locales (rule readSortMergeNode_law)

lemma final_merge:
  assumes inv: "scratch_inv e nbytes reclen s rss" and "rss \<noteq> []" and ok: "\<forall>rs \<in> set rss. rs \<noteq> [] \<and> stream_ok c rs"
  shows "\<exists>rs over. receive_all c (readSortMergeNode e nbytes reclen) k (tree_new c (length rss) s) = Some (rs, over)
    \<and> merged c rss rs over \<and> (prompt e \<longrightarrow> length (concat rss) < k \<longrightarrow> over)"
proof (cases "length rss = 1")
  case True
  then obtain rs where "rss = [rs]" by (cases rss) auto
  then show ?thesis
    using scratch_reader.receive_single_works [of "tree_new c 1 s" e nbytes reclen rs c k] inv ok
    by (simp add: tree_new_def)
next
  case False
  then have "2 \<le> length rss" using assms(2) by (cases rss) (auto simp: Suc_le_eq)
  then have "merge_ok c False (tree_new c (length rss) s) (\<lambda>_. (0, None)) rss rss"
    using ok by (rule tree_new_merge_ok)
  moreover have "scratch_inv e nbytes reclen (tr_scratch (tree_new c (length rss) s)) rss" using inv by (simp add: tree_new_def)
  ultimately show ?thesis by (rule scratch_reader.receive_all_works)
qed

end
