(* ===== verification/Sort_InterMerge.thy ===== *)
theory Sort_InterMerge
  imports Sort_Merge
begin

text \<open>
  The intermediate merge of \<^verbatim>\<open>TourTree.cpp\<close>, which writes what it merges as a new run.  A locale extends
  that of the reader by the contract of the writer; it is interpreted on the scratch space, where reading the old
  runs and writing the new one go on side by side.
\<close>

section \<open>Keys below the initial one\<close>

text \<open>
  The key of the last winner starts with all bytes 255.  The first record of a run is recognised as new only when
  its key is smaller.
\<close>

definition all_ones :: "sort_config \<Rightarrow> byte list" where
  "all_ones c = replicate (cf_keySize c) 255"

lemma le_all_ones:
  fixes k :: "byte list"
  assumes "length k = n"
  shows "k \<le> replicate n 255"
  using assms
proof (induction k arbitrary: n)
  case (Cons b k)
  have "(255 :: byte) = - 1" by simp
  then have "b \<le> 255" by (metis word_order.extremum)
  then show ?case using Cons by (cases n) (auto simp: order_le_less)
qed simp

lemma below_initial:
  assumes "rec_long c r" and "rec_key c r \<noteq> all_ones c" and "tr_keyOfLastWinner t = all_ones c"
    and "node_key t (tr_winner t) = Some (drop (cf_numberOfBytesForRecordSize c) r)"
  shows "out_of_order (cf_keySize c) t"
proof -
  have "length (rec_key c r) = cf_keySize c" using assms(1) by (simp add: rec_key_def rec_long_def)
  then have "rec_key c r < all_ones c" using le_all_ones assms(2) by (metis all_ones_def order_le_less)
  then show ?thesis
    using compare_key_greater [of "cf_keySize c" "all_ones c" "drop (cf_numberOfBytesForRecordSize c) r"] assms
    by (simp add: out_of_order_def rec_key_def rec_long_def all_ones_def)
qed

section \<open>The writer\<close>

locale merge_sink = merge_source rd inv fast
  for rd :: "'s reader" and inv :: "'s \<Rightarrow> byte list list list \<Rightarrow> byte list list \<Rightarrow> bool" and fast :: bool +
  fixes put :: "'s writer" and flush :: "'s \<Rightarrow> RESULT \<times> 's" and numRuns :: nat
    and rec_fits :: "byte list \<Rightarrow> bool" and stored :: "'s \<Rightarrow> byte list list \<Rightarrow> bool"
  assumes put_law: "inv s rss out \<Longrightarrow> rec_fits r \<Longrightarrow>
      \<exists>s'. put (Suc numRuns) r s = Some (SCRATCH_SUCCESS, s') \<and> inv s' rss (out @ [r])"
    and flush_law: "inv s rss out \<Longrightarrow> out \<noteq> [] \<Longrightarrow> \<exists>s'. flush s = (SCRATCH_SUCCESS, s') \<and> stored s' out"
begin

text \<open>
  The records that are left, those that are written, and what is asked of the records: they fit into a block and
  are written with their own size, and no run starts with the initial key.
\<close>

definition inter_ok ::
  "sort_config \<Rightarrow> 's tree \<Rightarrow> (nat \<Rightarrow> standing) \<Rightarrow> byte list list list \<Rightarrow> byte list list list \<Rightarrow> byte list list \<Rightarrow> bool" where
  "inter_ok c t pv rss ps out =
     (merge_ok c True t pv rss ps \<and> inv (tr_scratch t) rss out \<and> (tr_currentRun t = 0 \<longleftrightarrow> out = [])
      \<and> (\<forall>rs \<in> set ps. \<forall>r \<in> set rs. rec_fits r \<and> (cf_resizeCifRecord c \<or> length r = cf_recSize c))
      \<and> (tr_currentRun t = 0 \<longrightarrow> tr_keyOfLastWinner t = all_ones c
          \<and> (\<forall>rs \<in> set ps. rs \<noteq> [] \<longrightarrow> rec_key c (hd rs) \<noteq> all_ones c)))"

definition inter_result ::
  "sort_config \<Rightarrow> 's tree \<Rightarrow> (nat \<Rightarrow> standing) \<Rightarrow> byte list list list \<Rightarrow> byte list list \<Rightarrow> bool" where
  "inter_result c t pv ps out =
     ((\<exists>t' pv' rss'. inter_turn c rd put flush numRuns t = Some (None, t') \<and> inter_ok c t' pv' rss' ps out
        \<and> waiting t' pv' < waiting t pv)
      \<or> (\<exists>t' pv' rss' r ps'. inter_turn c rd put flush numRuns t = Some (None, t') \<and> inter_ok c t' pv' rss' ps' (out @ [r])
        \<and> delivers c ps r ps' \<and> waiting t' pv' = 0)
      \<or> (\<exists>t'. inter_turn c rd put flush numRuns t = Some (Some SCRATCH_SUCCESS, t') \<and> stored (tr_scratch t') out
        \<and> (\<forall>q < length ps. ps ! q = [])))"

lemma inter_done:
  assumes ok: "inter_ok c t pv rss ps out" and run: "tr_winnerRun t = 2"
  shows "inter_result c t pv ps out"
proof -
  have mo: "merge_ok c True t pv rss ps" and inv: "inv (tr_scratch t) rss out" using ok by (simp_all add: inter_ok_def)
  have r: "tr_currentRun t = 1" "\<forall>q < length ps. ps ! q = []" using merge_runs(3) [OF mo run] by blast+
  have "tr_winnerRun t \<noteq> 0" using run by simp
  then have m: "tr_maxRuns t = 1" using merge_runs(2) [OF mo] by blast
  have "out \<noteq> []" using ok r(1) by (simp add: inter_ok_def)
  then obtain s' where "flush (tr_scratch t) = (SCRATCH_SUCCESS, s')" "stored s' out" using flush_law [OF inv] by blast
  then have "inter_turn c rd put flush numRuns t = Some (Some SCRATCH_SUCCESS, t\<lparr> tr_scratch := s' \<rparr>)" "stored s' out"
    using run r(1) m by (simp_all add: inter_turn_def inter_head_def Let_def)
  then show ?thesis unfolding inter_result_def using r(2) by (metis tree.select_convs(7) tree.update_convs(7) tree.surjective)
qed

lemma inter_unloaded:
  assumes ok: "inter_ok c t pv rss ps out" and run: "tr_winnerRun t = 0"
  shows "inter_result c t pv ps out"
proof -
  let ?p = "tr_winner t"
  have mo: "merge_ok c True t pv rss ps" and inv: "inv (tr_scratch t) rss out" using ok by (simp_all add: inter_ok_def)
  then have pl: "players_ok c True t pv rss ps" by (simp add: merge_ok_def)
  have cr: "tr_currentRun t = 0" using merge_runs(1) [OF mo run] .
  have win: "?p < length (tr_nodes t)" "?p < length rss" "?p < length ps"
    using players_winner(1) [OF pl] pl unfolding players_ok_def by auto
  have st: "rss ! ?p \<noteq> []" "ps ! ?p = rss ! ?p" using players_winner(3) [OF pl] run by (auto simp: player_state_def)
  from inv win(2) show ?thesis
  proof (cases rule: input_works [where c = c and waited = True])
    case (next_rec r rs s')
    let ?t1 = "snd (inputScr c rd True t)"
    obtain t2 pv' where 2: "determineNewWinner (cf_keySize c) (bump_run ?t1) = Some t2" "tr_currentRun t2 = 0"
        "inv (tr_scratch t2) (rss[?p := rs]) out" "merge_ok c True t2 pv' (rss[?p := rs]) ps" "waiting t2 pv' < waiting t pv"
        "tr_keyOfLastWinner t2 = tr_keyOfLastWinner t"
      using first_record [OF mo run next_rec(2,1) refl] next_rec(3) by auto
    have "ps ! ?p \<in> set ps" using win(3) by simp
    then have "stream_ok c (r # rs)" "rec_key c r \<noteq> all_ones c" "tr_keyOfLastWinner t = all_ones c"
      using pl ok cr st next_rec(1) unfolding players_ok_def inter_ok_def by (metis, metis list.sel(1) list.distinct(1), metis)
    then have "out_of_order (cf_keySize c) ?t1"
      using next_rec(3) win(1) by (intro below_initial [of c r]) (simp_all add: stream_ok_def)
    then have "inter_turn c rd put flush numRuns t = Some (None, t2)"
      using run cr next_rec(3) 2(1) by (simp add: inter_turn_def inter_head_def inter_output_def inter_input_def)
    moreover have "inter_ok c t2 pv' (rss[?p := rs]) ps out"
      using ok 2 cr unfolding inter_ok_def by metis
    ultimately show ?thesis using 2(5) unfolding inter_result_def by blast
  next
    case (at_end s')
    then show ?thesis using st by simp
  next
    case (pending s')
    then show ?thesis by simp
  qed
qed

text \<open>The winner's record is written: the state before the next read.\<close>

definition written :: "sort_config \<Rightarrow> 's tree \<Rightarrow> 's \<Rightarrow> 's tree" where
  "written c t s' =
     t\<lparr> tr_nodes := (tr_nodes t)[tr_winner t := (tr_nodes t ! tr_winner t)\<lparr> tn_key := None \<rparr>],
        tr_currentRun := 1, tr_keyOfLastWinner := rec_key c (tn_rec (tr_nodes t ! tr_winner t)), tr_scratch := s' \<rparr>"

lemma inter_write:
  assumes ok: "inter_ok c t pv rss ps out" and run: "tr_winnerRun t = 1"
  shows "\<exists>s'. inter_turn c rd put flush numRuns t = inter_input c rd (written c t s')
    \<and> inv s' rss (out @ [tn_rec (tr_nodes t ! tr_winner t)])"
proof -
  let ?p = "tr_winner t" and ?nd = "tr_nodes t ! tr_winner t"
  have mo: "merge_ok c True t pv rss ps" and inv: "inv (tr_scratch t) rss out" using ok by (simp_all add: inter_ok_def)
  then have pl: "players_ok c True t pv rss ps" by (simp add: merge_ok_def)
  have m: "tr_maxRuns t = 1" using merge_runs(2) [OF mo] run by auto
  have win: "?p < length ps" using players_winner(1) [OF pl] pl unfolding players_ok_def by auto
  have st: "tn_key ?nd = Some (drop (cf_numberOfBytesForRecordSize c) (tn_rec ?nd))" "ps ! ?p = tn_rec ?nd # rss ! ?p"
      "tn_recSize ?nd = length (tn_rec ?nd)"
    using players_winner(3) [OF pl] run by (simp_all add: player_state_def)
  have "ps ! ?p \<in> set ps" using win by simp
  then have fit: "rec_fits (tn_rec ?nd)" "cf_resizeCifRecord c \<or> length (tn_rec ?nd) = cf_recSize c"
    using ok st(2) unfolding inter_ok_def by (metis list.set_intros(1))+
  have size: "(if cf_resizeCifRecord c then tn_recSize ?nd else cf_recSize c) = length (tn_rec ?nd)" using fit(2) st(3) by auto
  obtain s' where s': "put (Suc numRuns) (tn_rec ?nd) (tr_scratch t) = Some (SCRATCH_SUCCESS, s')" "inv s' rss (out @ [tn_rec ?nd])"
    using put_law [OF inv fit(1)] by blast
  define t1 where "t1 = t\<lparr> tr_currentRun := 1 \<rparr>"
  have t1: "tr_winner t1 = ?p" "tr_nodes t1 = tr_nodes t" "tr_winnerRun t1 = 1" "tr_currentRun t1 = 1" "tr_scratch t1 = tr_scratch t"
    using run by (simp_all add: t1_def)
  have "inter_head flush t = (None, t1)"
  proof (cases "tr_currentRun t = 1")
    case True
    then show ?thesis using run by (simp add: inter_head_def t1_def)
  next
    case False
    then have "tr_currentRun t = 0" using mo by (auto simp: merge_ok_def)
    then show ?thesis using run m by (simp add: inter_head_def t1_def Let_def)
  qed
  moreover have "inter_output c put numRuns t1 = Some (SCRATCH_SUCCESS, written c t s')"
  proof -
    define t2 where "t2 = t1\<lparr> tr_keyOfLastWinner := rec_key c (tn_rec ?nd) \<rparr>"
    have t2: "tr_winner t2 = ?p" "tr_nodes t2 = tr_nodes t" "tr_currentRun t2 = 1" "tr_scratch t2 = tr_scratch t"
      using t1 by (simp_all add: t2_def)
    have "set_keyOfLastWinner (cf_keySize c) t1 = Some t2" using t1 st(1) by (simp add: set_keyOfLastWinner_def t2_def rec_key_def)
    then have "inter_output c put numRuns t1 = outputScr put (Suc numRuns) (length (tn_rec ?nd)) t2"
      using t1(3) t2 size by (cases "cf_resizeCifRecord c") (simp_all add: inter_output_def)
    also have "\<dots> = Some (SCRATCH_SUCCESS, t2\<lparr> tr_nodes := (tr_nodes t)[?p := ?nd\<lparr> tn_key := None \<rparr>], tr_scratch := s' \<rparr>)"
      using s'(1) t2 by (simp add: outputScr_def Let_def)
    finally show ?thesis by (simp add: t2_def t1_def written_def)
  qed
  ultimately have "inter_turn c rd put flush numRuns t = inter_input c rd (written c t s')" by (simp add: inter_turn_def)
  then show ?thesis using s'(2) by blast
qed

text \<open>The turn ends with the next record of the player, or without one.\<close>

lemma inter_okI:
  assumes ok: "inter_ok c t pv rss ps out" and del: "delivers c ps r ps'" and mo: "merge_ok c True t' pv' rss' ps'"
    and cr: "tr_currentRun t' = 1" and inv: "inv (tr_scratch t') rss' (out @ [r])"
  shows "inter_ok c t' pv' rss' ps' (out @ [r])" "waiting t' pv' = 0"
proof -
  have "set (concat ps') \<subseteq> set (concat ps)"
    using delivers_mset [OF del] by (metis set_mset_mset set_mset_add_mset_insert subset_insertI)
  then have "\<forall>rs \<in> set ps'. \<forall>x \<in> set rs. rec_fits x \<and> (cf_resizeCifRecord c \<or> length x = cf_recSize c)"
    using ok unfolding inter_ok_def by fastforce
  then show "inter_ok c t' pv' rss' ps' (out @ [r])" using mo cr inv by (simp add: inter_ok_def)
  have "\<forall>q < length (tr_nodes t'). fst (pv' q) \<noteq> 0" using mo cr unfolding merge_ok_def by simp
  then show "waiting t' pv' = 0" by (simp add: waiting_def)
qed

lemma inter_loaded:
  assumes ok: "inter_ok c t pv rss ps out" and run: "tr_winnerRun t = 1"
  shows "inter_result c t pv ps out"
proof -
  let ?p = "tr_winner t" and ?n = "cf_keySize c" and ?nd = "tr_nodes t ! tr_winner t"
  have mo: "merge_ok c True t pv rss ps" using ok by (simp add: inter_ok_def)
  then have pl: "players_ok c True t pv rss ps" by (simp add: merge_ok_def)
  have m: "tr_maxRuns t = 1" using merge_runs(2) [OF mo] run by auto
  have win: "?p < length (tr_nodes t)" "?p < length rss" "?p < length ps"
    using players_winner(1) [OF pl] pl unfolding players_ok_def by auto
  have st: "ps ! ?p = tn_rec ?nd # rss ! ?p" using players_winner(3) [OF pl] run by (simp add: player_state_def)
  have so: "stream_ok c (tn_rec ?nd # rss ! ?p)" using pl win(3) st unfolding players_ok_def by (metis nth_mem)
  have del: "delivers c ps (tn_rec ?nd) (ps[?p := rss ! ?p])"
    using winner_smallest [OF pl run] win(3) st by (auto simp: delivers_def)
  obtain s0 where s0: "inter_turn c rd put flush numRuns t = inter_input c rd (written c t s0)" "inv s0 rss (out @ [tn_rec ?nd])"
    using inter_write [OF ok run] by blast
  define t1 where "t1 = written c t s0"
  have t1: "tr_winner t1 = ?p" "tr_nodes t1 = (tr_nodes t)[?p := ?nd\<lparr> tn_key := None \<rparr>]" "tr_winnerRun t1 = 1" "tr_maxRuns t1 = 1"
      "tr_currentRun t1 = 1" "tr_keyOfLastWinner t1 = rec_key c (tn_rec ?nd)" "tr_scratch t1 = s0"
    using run m by (simp_all add: t1_def written_def)
  have "\<exists>t4 pv' rss'. inter_input c rd t1 = Some (None, t4) \<and> merge_ok c True t4 pv' rss' (ps[?p := rss ! ?p])
      \<and> tr_currentRun t4 = 1 \<and> inv (tr_scratch t4) rss' (out @ [tn_rec ?nd])"
  proof -
    have "inv (tr_scratch t1) rss (out @ [tn_rec ?nd])" "tr_winner t1 < length rss" using s0(2) t1 win by simp_all
    then show ?thesis
    proof (cases rule: input_works [where c = c and waited = True])
      case (next_rec r rs s')
      define t3 where "t3 = snd (inputScr c rd True t1)"
      have rs: "rss ! ?p = r # rs" using next_rec(1) t1(1) by simp
      have "\<not> out_of_order ?n t3"
        by (rule in_order [of c "tn_rec ?nd" r rs]) (use so rs next_rec(3) t1 win in \<open>simp_all add: t3_def\<close>)
      moreover have "\<exists>t4 pv'. determineNewWinner ?n t3 = Some t4 \<and> replayed t3 t4
          \<and> merge_ok c True t4 pv' (rss[?p := rs]) (ps[?p := r # rs])"
        by (rule winner_replaced [OF mo run, where nd = "?nd\<lparr> tn_key := Some (drop (cf_numberOfBytesForRecordSize c) r),
              tn_rec := r, tn_recSize := length r \<rparr>"])
          (use so rs next_rec(3) t1 win in \<open>simp_all add: t3_def player_state_def key_wf_def stream_ok_def rec_long_def\<close>)
      then obtain t4 pv' where 4: "determineNewWinner ?n t3 = Some t4" "replayed t3 t4"
          "merge_ok c True t4 pv' (rss[?p := rs]) (ps[?p := rss ! ?p])"
        using rs by auto
      note fr = replayed_fields [OF 4(2)]
      have "inv (tr_scratch t4) (rss[?p := rs]) (out @ [tn_rec ?nd])" "tr_currentRun t4 = 1"
        using fr next_rec(2,3) t1 by (simp_all add: t3_def)
      moreover have "inter_input c rd t1 = Some (None, t4)"
        using next_rec(3) 4(1) \<open>\<not> out_of_order ?n t3\<close> by (simp add: inter_input_def t3_def)
      ultimately show ?thesis using 4(3) by blast
    next
      case (at_end s')
      define t3 where "t3 = (snd (inputScr c rd True t1))\<lparr> tr_winnerRun := 2 \<rparr>"
      have rs: "rss ! ?p = []" using at_end(1) t1(1) by simp
      have "\<exists>t4 pv'. determineNewWinner ?n t3 = Some t4 \<and> replayed t3 t4 \<and> merge_ok c True t4 pv' (rss[?p := []]) (ps[?p := []])"
        by (rule winner_replaced [OF mo run, where nd = "?nd\<lparr> tn_key := None, tn_recSize := cf_recSize c \<rparr>"])
          (use at_end(3) t1 win in \<open>simp_all add: t3_def player_state_def key_wf_def stream_ok_def\<close>)
      then obtain t4 pv' where 4: "determineNewWinner ?n t3 = Some t4" "replayed t3 t4"
          "merge_ok c True t4 pv' rss (ps[?p := rss ! ?p])"
        using rs by (metis list_update_id)
      note fr = replayed_fields [OF 4(2)]
      have "inv (tr_scratch t4) rss (out @ [tn_rec ?nd])" "tr_currentRun t4 = 1" using fr at_end(2,3) t1 by (simp_all add: t3_def)
      moreover have "inter_input c rd t1 = Some (None, t4)"
        using at_end(3) 4(1) t1(4) by (simp add: inter_input_def t3_def numeral_2_eq_2)
      ultimately show ?thesis using 4(3) by blast
    next
      case (pending s')
      then show ?thesis by simp
    qed
  qed
  then obtain t4 pv' rss' where 4: "inter_input c rd t1 = Some (None, t4)" "merge_ok c True t4 pv' rss' (ps[?p := rss ! ?p])"
      "tr_currentRun t4 = 1" "inv (tr_scratch t4) rss' (out @ [tn_rec ?nd])"
    by blast
  note fin = inter_okI [OF ok del 4(2-4)]
  show ?thesis unfolding inter_result_def using s0(1) 4(1) fin del t1_def by metis
qed

text \<open>The whole merge returns, and the run it wrote holds all records in order.\<close>

lemma inter_loop_works:
  assumes "inter_ok c t pv rss ps out"
  shows "\<exists>t' res. inter_loop c rd put flush numRuns t = Some (SCRATCH_SUCCESS, t') \<and> stored (tr_scratch t') (out @ res)
    \<and> merged c ps res True"
  using assms
proof (induction "waiting t pv + length (concat ps)" arbitrary: t pv rss ps out rule: less_induct)
  case less
  have mo: "merge_ok c True t pv rss ps" using less.prems by (simp add: inter_ok_def)
  have "inter_result c t pv ps out"
    using merge_runs(4) [OF mo] inter_unloaded [OF less.prems] inter_loaded [OF less.prems] inter_done [OF less.prems] by blast
  then consider (load) t' pv' rss' where "inter_turn c rd put flush numRuns t = Some (None, t')" "inter_ok c t' pv' rss' ps out"
      "waiting t' pv' < waiting t pv"
    | (emit) t' pv' rss' r ps' where "inter_turn c rd put flush numRuns t = Some (None, t')" "inter_ok c t' pv' rss' ps' (out @ [r])"
      "delivers c ps r ps'" "waiting t' pv' = 0"
    | (finish) t' where "inter_turn c rd put flush numRuns t = Some (Some SCRATCH_SUCCESS, t')" "stored (tr_scratch t') out"
      "\<forall>q < length ps. ps ! q = []"
    unfolding inter_result_def by blast
  then show ?case
  proof cases
    case load
    have "inter_loop c rd put flush numRuns t = inter_loop c rd put flush numRuns t'"
      by (subst inter_loop.simps) (simp add: load(1))
    then show ?thesis using less.hyps [OF _ load(2)] load(3) by simp
  next
    case emit
    have "inter_loop c rd put flush numRuns t = inter_loop c rd put flush numRuns t'"
      by (subst inter_loop.simps) (simp add: emit(1))
    moreover have "size (mset (concat ps)) = Suc (size (mset (concat ps')))" using delivers_mset [OF emit(3)] by simp
    then have "length (concat ps) = Suc (length (concat ps'))" by simp
    then obtain t2 res where "inter_loop c rd put flush numRuns t' = Some (SCRATCH_SUCCESS, t2)"
        "stored (tr_scratch t2) ((out @ [r]) @ res)" "merged c ps' res True"
      using less.hyps [OF _ emit(2)] emit(4) by auto
    ultimately show ?thesis using merged_cons [OF emit(3)] by auto
  next
    case finish
    have "inter_loop c rd put flush numRuns t = Some (SCRATCH_SUCCESS, t')"
      by (subst inter_loop.simps) (simp add: finish(1))
    moreover have "merged c ps [] True" using finish(3) by (intro merged_empty) (metis in_set_conv_nth)
    ultimately show ?thesis using finish(2) by (metis append_Nil2)
  qed
qed

end

section \<open>The scratch space as the writer\<close>

text \<open>
  What does not change: the size of a block, the blocks per buffer and the buffers of the pool, here the arguments
  \<open>bs\<close>, \<open>pb\<close> and \<open>pt\<close>; \<open>all\<close> are the runs that were there.
\<close>

definition scratch_fixed :: "nat \<Rightarrow> nat \<Rightarrow> nat \<Rightarrow> SortScratchSpace \<Rightarrow> bool" where
  "scratch_fixed bs pb pt s = (sc_blockSize s = bs \<and> sc_sortMergeBlocksPerBuffer s = pb \<and> pool_total s = pt)"

definition new_run :: "byte list list list \<Rightarrow> SortScratchSpace \<Rightarrow> byte list list \<Rightarrow> bool" where
  "new_run all s out =
     (if out = [] then idle s \<and> runs_stored s all \<and> sc_currentRun s \<noteq> Suc (length all)
      else \<exists>s0. runs_stored s0 all \<and> (\<forall>b < sc_totalNumOfScrBlocks s0. sc_disk s b = sc_disk s0 b)
        \<and> sc_runDirectory s = sc_runDirectory s0 @ [sc_totalNumOfScrBlocks s0]
        \<and> writing s (sc_totalNumOfScrBlocks s0) out \<and> sc_currentRun s = Suc (length all))"

definition sink_inv ::
  "scratch_env \<Rightarrow> nat \<Rightarrow> nat \<Rightarrow> nat \<Rightarrow> nat \<Rightarrow> nat \<Rightarrow> byte list list list \<Rightarrow> SortScratchSpace \<Rightarrow> byte list list list \<Rightarrow> byte list list \<Rightarrow> bool" where
  "sink_inv e nbytes reclen bs pb pt all s rss out =
     (writable e \<and> scratch_inv e nbytes reclen s rss \<and> scratch_fixed bs pb pt s \<and> new_run all s out)"

definition sink_stored :: "nat \<Rightarrow> nat \<Rightarrow> nat \<Rightarrow> byte list list list \<Rightarrow> SortScratchSpace \<Rightarrow> byte list list \<Rightarrow> bool" where
  "sink_stored bs pb pt all s out =
     (scratch_fixed bs pb pt s \<and> idle s \<and> runs_stored s (all @ [out]) \<and> sc_currentRun s = Suc (length all))"

lemma write_frame_fixed: "write_frame s s' \<Longrightarrow> scratch_fixed bs pb pt s \<Longrightarrow> scratch_fixed bs pb pt s'"
  by (simp add: write_frame_def scratch_fixed_def pool_total_def)

lemma sink_read:
  assumes "sink_inv e nbytes reclen bs pb pt all s rss out" and "i < length rss"
  shows "\<exists>a s' rss'. readSortMergeNode e nbytes reclen waited i s = (a, s') \<and> read_answers (waited \<or> prompt e) rss i a rss'
    \<and> sink_inv e nbytes reclen bs pb pt all s' rss' out"
proof -
  have inv: "scratch_inv e nbytes reclen s rss" using assms(1) by (simp add: sink_inv_def)
  then have len: "i < length (sc_nodes s)" using assms(2) by (simp add: scratch_inv_def)
  obtain a s' rss' where 1: "readSortMergeNode e nbytes reclen waited i s = (a, s')" "read_answers (waited \<or> prompt e) rss i a rss'"
      "scratch_inv e nbytes reclen s' rss'"
    using readSortMergeNode_law [OF inv assms(2)] by blast
  have "read_frame s s'" using readSortMergeNode_frame [of s e nbytes reclen waited i] 1(1) by simp
  note f = read_frame_fields [OF this]
  have "pool_total s' = pool_total s" using read_pool_total [OF len, of e nbytes reclen waited] 1(1) by simp
  then have "scratch_fixed bs pb pt s'" using assms(1) f by (simp add: sink_inv_def scratch_fixed_def)
  moreover have "new_run all s' out"
    using assms(1) f runs_stored_cong [of s' s]
    by (simp add: sink_inv_def new_run_def idle_def writing_def split: if_splits)
  ultimately show ?thesis using 1 assms(1) by (auto simp: sink_inv_def)
qed

lemma sink_put:
  assumes "sink_inv e nbytes reclen bs pb pt all s rss out" and "OVERHEAD + length r + DP2_CHECKSUM_BYTES \<le> bs"
  shows "\<exists>s'. writeRunData e r (Suc (length all)) s = Some (SCRATCH_SUCCESS, s') \<and> sink_inv e nbytes reclen bs pb pt all s' rss (out @ [r])"
proof -
  have w: "writable e" and inv: "scratch_inv e nbytes reclen s rss" and fx: "scratch_fixed bs pb pt s" and nr: "new_run all s out"
    using assms(1) by (simp_all add: sink_inv_def)
  have fit: "fits s r" using assms(2) fx by (simp add: fits_def scratch_fixed_def)
  have "\<exists>s'. writeRunData e r (Suc (length all)) s = Some (SCRATCH_SUCCESS, s') \<and> write_frame s s' \<and> new_run all s' (out @ [r])"
  proof (cases "out = []")
    case True
    then have i: "idle s" "runs_stored s all" "Suc (length all) \<noteq> sc_currentRun s" using nr by (auto simp: new_run_def)
    then have "length (sc_runDirectory s) = length all" by (simp add: runs_stored_def)
    then obtain s' where "writeRunData e r (Suc (length all)) s = Some (SCRATCH_SUCCESS, s')" "writing s' (sc_totalNumOfScrBlocks s) [r]"
        "sc_runDirectory s' = sc_runDirectory s @ [sc_totalNumOfScrBlocks s]" "sc_currentRun s' = Suc (length all)" "write_frame s s'"
      using writeRunData_first [OF i(1) fit i(3), of e] by auto
    then show ?thesis using True i(2) by (auto simp: new_run_def write_frame_def)
  next
    case False
    then obtain s0 where 0: "runs_stored s0 all" "\<forall>b < sc_totalNumOfScrBlocks s0. sc_disk s b = sc_disk s0 b"
        "sc_runDirectory s = sc_runDirectory s0 @ [sc_totalNumOfScrBlocks s0]" "writing s (sc_totalNumOfScrBlocks s0) out"
        "sc_currentRun s = Suc (length all)"
      using nr by (auto simp: new_run_def)
    have "0 \<le> sc_totalNumOfScrBlocks s0" using 0(1) by (simp add: runs_stored_def)
    then obtain s' where 1: "writeRunData e r (Suc (length all)) s = Some (SCRATCH_SUCCESS, s')"
        "writing s' (sc_totalNumOfScrBlocks s0) (out @ [r])" "sc_runDirectory s' = sc_runDirectory s"
        "sc_currentRun s' = sc_currentRun s" "write_frame s s'"
      using writeRunData_next [OF 0(4) w fit] 0(5) by auto
    have "sc_totalNumOfScrBlocks s0 \<le> sc_totalNumOfScrBlocks s" using 0(4) by (auto simp: writing_def)
    then have "\<forall>b < sc_totalNumOfScrBlocks s0. sc_disk s' b = sc_disk s0 b" using 0(2) 1(5) by (auto simp: write_frame_def)
    then show ?thesis using 0 1 by (auto simp: new_run_def)
  qed
  then show ?thesis using w write_keeps_nodes [OF inv] write_frame_fixed [OF _ fx] by (auto simp: sink_inv_def)
qed

lemma sink_flush:
  assumes "sink_inv e nbytes reclen bs pb pt all s rss out" and "out \<noteq> []"
  shows "\<exists>s'. flushRun e True s = (SCRATCH_SUCCESS, s') \<and> sink_stored bs pb pt all s' out"
proof -
  have w: "writable e" and fx: "scratch_fixed bs pb pt s" using assms(1) by (simp_all add: sink_inv_def)
  obtain s0 where 0: "runs_stored s0 all" "\<forall>b < sc_totalNumOfScrBlocks s0. sc_disk s b = sc_disk s0 b"
      "sc_runDirectory s = sc_runDirectory s0 @ [sc_totalNumOfScrBlocks s0]" "writing s (sc_totalNumOfScrBlocks s0) out"
      "sc_currentRun s = Suc (length all)"
    using assms by (auto simp: sink_inv_def new_run_def)
  obtain s' gs where 1: "flushRun e True s = (SCRATCH_SUCCESS, s')" "idle s'" "run_stored (sc_disk s') (sc_totalNumOfScrBlocks s0) gs"
      "concat gs = out" "sc_totalNumOfScrBlocks s' = sc_totalNumOfScrBlocks s0 + int (length gs)"
      "sc_runDirectory s' = sc_runDirectory s" "sc_currentRun s' = sc_currentRun s" "write_frame s s'"
    using flushRun_writing [OF 0(4) w] by blast
  have "sc_totalNumOfScrBlocks s0 \<le> sc_totalNumOfScrBlocks s" using 0(4) by (auto simp: writing_def)
  then have "\<forall>b < sc_totalNumOfScrBlocks s0. sc_disk s' b = sc_disk s0 b" using 0(2) 1(8) by (auto simp: write_frame_def)
  then have "runs_stored s' (all @ [concat gs])" using runs_stored_snoc [OF 0(1) _ _ 1(3,5)] 0(3) 1(6) by simp
  then show ?thesis using 1 0(5) write_frame_fixed [OF 1(8) fx] by (auto simp: sink_stored_def)
qed

interpretation scratch_writer: merge_sink "readSortMergeNode e nbytes reclen" "sink_inv e nbytes reclen bs pb pt all" "prompt e"
  "\<lambda>run r. writeRunData e r run" "flushRun e True" "length all" "\<lambda>r. OVERHEAD + length r + DP2_CHECKSUM_BYTES \<le> bs"
  "sink_stored bs pb pt all" for e nbytes reclen bs pb pt all
  by unfold_locales (blast intro: sink_read, blast intro: sink_put, blast intro: sink_flush)

end
