(* ===== verification/Sort_Schedule.thy ===== *)
theory Sort_Schedule
  imports Sort_InterMerge
begin

text \<open>
  The merge phase of \<^verbatim>\<open>SortUtil::sortSendEndProcessing\<close>: the merge order from the memory at hand, the passes of
  intermediate merges until the order suffices, and the tree of the final merge.  The estimate of the memory and
  whether the pool of buffers can be allocated are arguments.  The result is \<^const>\<open>None\<close> when a call below does not return.
\<close>

section \<open>The code\<close>

datatype 'a outcome = SortFailure | Done 'a

text \<open>One intermediate merge of \<open>m\<close> runs from \<open>runnum\<close> on; with the cleanup of scratch files goes a check that runs are left.\<close>

definition merge_runs_once ::
  "scratch_env \<Rightarrow> sort_config \<Rightarrow> bool \<Rightarrow> nat \<Rightarrow> nat \<Rightarrow> SortScratchSpace \<Rightarrow> SortScratchSpace outcome option" where
  "merge_runs_once e c cleanup m runnum s =
     (case open_nodes m runnum s of (ok, s1) \<Rightarrow>
        if \<not> ok then Some SortFailure
        else case generateInterRuns c (readSortMergeNode e (cf_numberOfBytesForRecordSize c) (cf_recSize c))
                    (\<lambda>run r. writeRunData e r run) (flushRun e True) getTotalNumOfRuns (tree_new c m s1) of
               None \<Rightarrow> None
             | Some (rc, t) \<Rightarrow>
                 if rc \<noteq> SCRATCH_SUCCESS then Some SortFailure
                 else let s2 = close_nodes (tr_scratch t)
                      in if cleanup \<and> mapRunNumberToFirstSBN (runnum + m) s2 = EOF_BLOCK then Some SortFailure
                         else Some (Done s2))"

text \<open>The loop of a pass: \<open>k\<close> merges of the same order.\<close>

fun merge_loop ::
  "scratch_env \<Rightarrow> sort_config \<Rightarrow> bool \<Rightarrow> nat \<Rightarrow> nat \<Rightarrow> nat \<Rightarrow> SortScratchSpace \<Rightarrow> (nat \<times> SortScratchSpace) outcome option" where
  "merge_loop e c cleanup m 0 runnum s = Some (Done (runnum, s))"
| "merge_loop e c cleanup m (Suc k) runnum s =
     (case merge_runs_once e c cleanup m runnum s of
        Some (Done s') \<Rightarrow> merge_loop e c cleanup m k (runnum + m) s'
      | Some SortFailure \<Rightarrow> Some SortFailure
      | None \<Rightarrow> None)"

definition merge_pass ::
  "scratch_env \<Rightarrow> sort_config \<Rightarrow> bool \<Rightarrow> nat \<Rightarrow> nat \<Rightarrow> nat \<Rightarrow> SortScratchSpace \<Rightarrow> (nat \<times> SortScratchSpace) outcome option" where
  "merge_pass e c cleanup mergeOrder numRuns runnum s =
     (let numInterPasses = numRuns div mergeOrder; firstMergeOrder = 1 + (numRuns - numInterPasses * mergeOrder)
      in case (if firstMergeOrder > 1 then merge_loop e c cleanup firstMergeOrder 1 runnum s else Some (Done (runnum, s))) of
           Some (Done (runnum', s')) \<Rightarrow> merge_loop e c cleanup mergeOrder numInterPasses runnum' s'
         | Some SortFailure \<Rightarrow> Some SortFailure
         | None \<Rightarrow> None)"

text \<open>The loop over the passes; the answer is the order of the final merge and its first run.\<close>

partial_function (option) merge_passes ::
  "scratch_env \<Rightarrow> sort_config \<Rightarrow> bool \<Rightarrow> nat \<Rightarrow> nat \<Rightarrow> nat \<Rightarrow> SortScratchSpace \<Rightarrow> (nat \<times> nat \<times> SortScratchSpace) outcome option" where
  "merge_passes e c cleanup mergeOrder numRuns runnum s =
     (case merge_pass e c cleanup mergeOrder numRuns runnum s of
        None \<Rightarrow> None
      | Some SortFailure \<Rightarrow> Some SortFailure
      | Some (Done (runnum', s')) \<Rightarrow>
          if numRuns div mergeOrder > mergeOrder then merge_passes e c cleanup mergeOrder (numRuns div mergeOrder) runnum' s'
          else Some (Done (numRuns div mergeOrder, runnum', s')))"

declare merge_passes.simps [code]

text \<open>The pool of buffers: when it cannot be allocated the order is halved, down to 2.\<close>

function halve_order :: "(nat \<Rightarrow> bool) \<Rightarrow> nat \<Rightarrow> nat \<Rightarrow> nat option" where
  "halve_order alloc perBuffer used =
     (let half = used div 2
      in if half < 2 then None
         else if alloc (half * 2 * perBuffer) then Some half
         else halve_order alloc perBuffer half)"
  by pat_completeness auto
termination by (relation "measure (\<lambda>(alloc, perBuffer, used). used)") auto

declare halve_order.simps [simp del]

definition setup_pool :: "bool \<Rightarrow> (nat \<Rightarrow> bool) \<Rightarrow> nat \<Rightarrow> nat \<Rightarrow> SortScratchSpace \<Rightarrow> (nat \<times> SortScratchSpace) outcome" where
  "setup_pool quota alloc mergeOrder numRuns s =
     (let used = (if numRuns > mergeOrder then mergeOrder else numRuns); pb = sc_sortMergeBlocksPerBuffer s
      in if alloc (used * 2 * pb) then Done (mergeOrder, setupSortMergeBufferPool (used * 2 * pb) s)
         else if quota \<or> used \<le> 2 then SortFailure
         else case halve_order alloc pb used of
                None \<Rightarrow> SortFailure
              | Some half \<Rightarrow> Done (half, setupSortMergeBufferPool (half * 2 * pb) s))"

definition sortSendEndProcessing ::
  "scratch_env \<Rightarrow> sort_config \<Rightarrow> bool \<Rightarrow> bool \<Rightarrow> (nat \<Rightarrow> bool) \<Rightarrow> nat \<Rightarrow> SortScratchSpace \<Rightarrow> SortScratchSpace tree outcome option" where
  "sortSendEndProcessing e c cleanup quota alloc estimate s =
     (let numRuns = getTotalNumOfRuns s; order0 = (if estimate < 2 then 2 else estimate)
      in case setup_pool quota alloc order0 numRuns s of
           SortFailure \<Rightarrow> Some SortFailure
         | Done (order, s1) \<Rightarrow>
             (case (if numRuns > order then merge_passes e c cleanup order numRuns 1 s1 else Some (Done (numRuns, 1, s1))) of
                None \<Rightarrow> None
              | Some SortFailure \<Rightarrow> Some SortFailure
              | Some (Done (finalMergeOrder, runnum, s2)) \<Rightarrow>
                  (case open_nodes finalMergeOrder runnum s2 of (ok, s3) \<Rightarrow>
                     if \<not> ok then Some SortFailure else Some (Done (tree_new c finalMergeOrder s3)))))"

section \<open>One merge\<close>

text \<open>The scratch space between two merges, and what is asked of a run.\<close>

definition between :: "nat \<Rightarrow> nat \<Rightarrow> nat \<Rightarrow> SortScratchSpace \<Rightarrow> byte list list list \<Rightarrow> bool" where
  "between bs pb pt s all =
     (scratch_fixed bs pb pt s \<and> idle s \<and> runs_stored s all \<and> sc_currentRun s \<noteq> Suc (length all) \<and> sc_nodes s = [])"

definition rec_good :: "sort_config \<Rightarrow> nat \<Rightarrow> byte list \<Rightarrow> bool" where
  "rec_good c bs r =
     (rec_ok (cf_numberOfBytesForRecordSize c) (cf_recSize c) r \<and> OVERHEAD + length r + DP2_CHECKSUM_BYTES \<le> bs
      \<and> (cf_resizeCifRecord c \<or> length r = cf_recSize c))"

definition run_good :: "sort_config \<Rightarrow> nat \<Rightarrow> byte list list \<Rightarrow> bool" where
  "run_good c bs rs = (rs \<noteq> [] \<and> stream_ok c rs \<and> (\<forall>r \<in> set rs. rec_good c bs r))"

definition run_low :: "sort_config \<Rightarrow> byte list list \<Rightarrow> bool" where
  "run_low c rs = (rec_key c (hd rs) \<noteq> all_ones c)"

lemma node_open_total: "pool_total (snd (node_open run s)) = pool_total s"
proof -
  obtain rc nd free where i: "initiate_read (sc_sortMergeBlocksPerBuffer s) (merge_node_new run s) (sc_freeSortMergeBufferPool s) = (rc, nd, free)"
    using prod_cases3 by blast
  have "mn_readQ (merge_node_new run s) = []" by (simp add: merge_node_new_def Let_def)
  then show ?thesis using initiate_read_total [OF i] by (simp add: node_open_def i pool_total_def)
qed

lemma open_nodes_total: "pool_total (snd (open_nodes k run s)) = pool_total s"
proof (induction k run s rule: open_nodes.induct)
  case (2 k run s)
  then show ?case using node_open_total [of run s] by (simp split: prod.split) (metis snd_conv)
qed simp

lemma merged_good:
  assumes "merged c rss out True" and "rss \<noteq> []" and "\<forall>rs \<in> set rss. run_good c bs rs \<and> run_low c rs"
  shows "run_good c bs out" "run_low c out"
proof -
  have m: "mset out = mset (concat rss)" and so: "sorted (map (rec_key c) out)" using assms(1) by (auto simp: merged_def)
  then have st: "set out = set (concat rss)" by (metis set_mset_mset)
  obtain rs where rs: "rs \<in> set rss" using assms(2) by (cases rss) auto
  then have ne: "rs \<noteq> []" using assms(3) by (auto simp: run_good_def)
  have h: "hd rs \<in> set out" using hd_in_set [OF ne] rs unfolding st set_concat by blast
  then have "out \<noteq> []" by auto
  moreover have "rec_long c r \<and> rec_good c bs r" if "r \<in> set out" for r
    using that st assms(3) by (auto simp: run_good_def stream_ok_def)
  ultimately show "run_good c bs out" using so by (simp add: run_good_def stream_ok_def)
  obtain o1 out' where o: "out = o1 # out'" using \<open>out \<noteq> []\<close> by (cases out) auto
  have le: "rec_key c o1 \<le> rec_key c (hd rs)" using h so o by auto
  have "rec_long c (hd rs)" "rec_key c (hd rs) \<noteq> all_ones c"
    using assms(3) rs ne by (auto simp: run_good_def stream_ok_def run_low_def)
  moreover have "length (rec_key c (hd rs)) = cf_keySize c" using calculation(1) by (simp add: rec_key_def rec_long_def)
  ultimately have "rec_key c (hd rs) < all_ones c" using le_all_ones by (metis all_ones_def order_le_less)
  then show "run_low c out" using le o by (auto simp: run_low_def)
qed

text \<open>The runs that are still to be merged, behind the first \<open>k\<close>.\<close>

definition live_ok :: "scratch_env \<Rightarrow> sort_config \<Rightarrow> nat \<Rightarrow> nat \<Rightarrow> nat \<Rightarrow> SortScratchSpace \<Rightarrow> nat \<Rightarrow> byte list list list \<Rightarrow> bool" where
  "live_ok e c bs pb pt s k live =
     (writable e \<and> readable e \<and> 1 \<le> pb
      \<and> (\<exists>all. between bs pb pt s all \<and> k \<le> length all \<and> drop k all = live
            \<and> (\<forall>rs \<in> set all. \<forall>r \<in> set rs. rec_ok (cf_numberOfBytesForRecordSize c) (cf_recSize c) r)))"

definition runs_good :: "sort_config \<Rightarrow> nat \<Rightarrow> byte list list list \<Rightarrow> bool" where
  "runs_good c bs rss = (\<forall>rs \<in> set rss. run_good c bs rs \<and> run_low c rs)"

text \<open>The merge nodes are opened on the first \<open>m\<close> of them.\<close>

lemma live_open:
  assumes "live_ok e c bs pb pt s k live" and "m \<le> length live" and "2 * pb * m \<le> pt"
  shows "\<exists>s1 all. open_nodes m (Suc k) s = (True, s1) \<and> drop k all = live \<and> k \<le> length all
    \<and> (\<forall>rs \<in> set all. \<forall>r \<in> set rs. rec_ok (cf_numberOfBytesForRecordSize c) (cf_recSize c) r)
    \<and> sink_inv e (cf_numberOfBytesForRecordSize c) (cf_recSize c) bs pb pt all s1 (take m live) []
    \<and> getTotalNumOfRuns s1 = length all"
proof -
  let ?nb = "cf_numberOfBytesForRecordSize c" and ?rl = "cf_recSize c"
  obtain all where a: "between bs pb pt s all" "k \<le> length all" "drop k all = live" "\<forall>rs \<in> set all. \<forall>r \<in> set rs. rec_ok ?nb ?rl r"
      and e: "writable e" "readable e" "1 \<le> pb"
    using assms(1) by (auto simp: live_ok_def)
  have b: "sc_nodes s = []" "sc_sortMergeBlocksPerBuffer s = pb" "pool_total s = pt" "sc_blockSize s = bs" "runs_stored s all"
      "idle s" "sc_currentRun s \<noteq> Suc (length all)"
    using a(1) by (auto simp: between_def scratch_fixed_def)
  have "scratch_inv e ?nb ?rl s []" using b(1,2) e(3) by (simp add: scratch_inv_def)
  moreover have "k + m \<le> length all" using assms(2) a(2,3) by (metis Nat.le_diff_conv2 add.commute length_drop)
  moreover have "2 * sc_sortMergeBlocksPerBuffer s * (length ([] :: byte list list list) + m)
      \<le> sc_freeSortMergeBufferPool s + sum_list (map (length \<circ> mn_readQ) (sc_nodes s))"
    using b(2,3) assms(3) by (simp add: pool_total_def)
  ultimately obtain s1 n f where 1: "open_nodes m (Suc k) s = (True, s1)" "scratch_inv e ?nb ?rl s1 ([] @ take m (drop k all))"
      "s1 = s\<lparr> sc_nodes := n, sc_freeSortMergeBufferPool := f \<rparr>"
    using open_nodes_works [OF _ b(5) _ e(2) a(4)] by blast
  have "pool_total s1 = pt" using open_nodes_total [of m "Suc k" s] 1(1) b(3) by simp
  then have "scratch_fixed bs pb pt s1" using 1(3) b by (simp add: scratch_fixed_def)
  moreover have "new_run all s1 []" using b(5-7) 1(3) runs_stored_cong [of s1 s] by (simp add: new_run_def idle_def)
  moreover have "getTotalNumOfRuns s1 = length all" using b(5) 1(3) by (simp add: getTotalNumOfRuns_def runs_stored_def)
  ultimately show ?thesis using 1(1,2) a e(1) by (auto simp: sink_inv_def)
qed

lemma merge_runs_once_works:
  assumes live: "live_ok e c bs pb pt s k live" and m: "2 \<le> m" "m \<le> length live" "2 * pb * m \<le> pt" and good: "runs_good c bs live"
  shows "\<exists>s' out. merge_runs_once e c cleanup m (Suc k) s = Some (Done s') \<and> live_ok e c bs pb pt s' (k + m) (drop m live @ [out])
    \<and> merged c (take m live) out True \<and> run_good c bs out \<and> run_low c out"
proof -
  let ?nb = "cf_numberOfBytesForRecordSize c" and ?rl = "cf_recSize c" and ?rss = "take m live"
  obtain s1 all where 1: "open_nodes m (Suc k) s = (True, s1)" "drop k all = live" "k \<le> length all"
      "\<forall>rs \<in> set all. \<forall>r \<in> set rs. rec_ok ?nb ?rl r" "sink_inv e ?nb ?rl bs pb pt all s1 ?rss []" "getTotalNumOfRuns s1 = length all"
    using live_open [OF live m(2,3)] by blast
  have len: "length ?rss = m" using m(2) by simp
  have g: "\<forall>rs \<in> set ?rss. run_good c bs rs \<and> run_low c rs" using good by (auto simp: runs_good_def dest: in_set_takeD)
  then have "merge_ok c True (tree_new c m s1) (\<lambda>_. (0, None)) ?rss ?rss"
    using tree_new_merge_ok [of ?rss c True s1] m(1) len by (auto simp: run_good_def)
  then have "scratch_writer.inter_ok e ?nb ?rl bs pb pt all c (tree_new c m s1) (\<lambda>_. (0, None)) ?rss ?rss []"
    using 1(5) g unfolding scratch_writer.inter_ok_def
    by (auto simp: tree_new_def all_ones_def run_good_def run_low_def rec_good_def)
  then obtain t out where t: "inter_loop c (readSortMergeNode e ?nb ?rl) (\<lambda>run r. writeRunData e r run) (flushRun e True) (length all)
      (tree_new c m s1) = Some (SCRATCH_SUCCESS, t)" "sink_stored bs pb pt all (tr_scratch t) out" "merged c ?rss out True"
    using scratch_writer.inter_loop_works by (metis append_Nil)
  define s' where "s' = close_nodes (tr_scratch t)"
  have st: "runs_stored s' (all @ [out])" "idle s'" "sc_currentRun s' = Suc (length all)" "scratch_fixed bs pb pt s'" "sc_nodes s' = []"
    using t(2) runs_stored_cong [of s' "tr_scratch t"]
    by (auto simp: sink_stored_def s'_def close_nodes_def idle_def scratch_fixed_def pool_total_def)
  have ne: "?rss \<noteq> []" using len m(1) by auto
  note out = merged_good [OF t(3) ne g]
  have klen: "k + m \<le> length all" using m(2) 1(2,3) by (metis Nat.le_diff_conv2 add.commute length_drop)
  have "1 \<le> sc_runDirectory s' ! (k + m)" "length (sc_runDirectory s') = Suc (length all)"
    using st(1) klen by (simp_all add: runs_stored_def)
  then have "mapRunNumberToFirstSBN (Suc k + m) s' \<noteq> EOF_BLOCK" using klen by (simp add: mapRunNumberToFirstSBN_def)
  then have "merge_runs_once e c cleanup m (Suc k) s = Some (Done s')"
    using 1(1,6) t(1) by (simp add: merge_runs_once_def generateInterRuns_def tree_new_def s'_def Let_def)
  moreover have "between bs pb pt s' (all @ [out])" using st by (simp add: between_def)
  then have "live_ok e c bs pb pt s' (k + m) (drop m live @ [out])"
    unfolding live_ok_def using live 1(2,4) klen out(1)
    by (intro conjI exI [of _ "all @ [out]"]) (auto simp: live_ok_def run_good_def rec_good_def add.commute)
  ultimately show ?thesis using t(3) out by blast
qed

section \<open>The passes\<close>

text \<open>
  From the runs \<open>live\<close> on, the merges leave the runs \<open>live'\<close> with the same records; \<open>k'\<close> runs are behind them.
\<close>

definition leaves ::
  "scratch_env \<Rightarrow> sort_config \<Rightarrow> nat \<Rightarrow> nat \<Rightarrow> nat \<Rightarrow> byte list list list \<Rightarrow> nat \<Rightarrow> SortScratchSpace \<Rightarrow> nat \<Rightarrow> bool" where
  "leaves e c bs pb pt live k' s' n =
     (\<exists>live'. live_ok e c bs pb pt s' k' live' \<and> runs_good c bs live' \<and> length live' = n
        \<and> mset (concat live') = mset (concat live))"

lemma merge_loop_works:
  assumes "live_ok e c bs pb pt s k live" and "2 \<le> m" and "j * m \<le> length live" and "2 * pb * m \<le> pt" and "runs_good c bs live"
  shows "\<exists>s'. merge_loop e c cleanup m j (Suc k) s = Some (Done (Suc (k + j * m), s'))
    \<and> leaves e c bs pb pt live (k + j * m) s' (length live - j * m + j)"
  using assms
proof (induction j arbitrary: s k live)
  case 0
  then show ?case by (auto simp: leaves_def)
next
  case (Suc j)
  have m: "m \<le> length live" using Suc.prems(3) by simp
  obtain s1 out where 1: "merge_runs_once e c cleanup m (Suc k) s = Some (Done s1)"
      "live_ok e c bs pb pt s1 (k + m) (drop m live @ [out])" "merged c (take m live) out True" "run_good c bs out" "run_low c out"
    using merge_runs_once_works [OF Suc.prems(1,2) m Suc.prems(4,5)] by blast
  have good: "runs_good c bs (drop m live @ [out])"
    using Suc.prems(5) 1(4,5) by (auto simp: runs_good_def dest: in_set_dropD)
  have len: "j * m \<le> length (drop m live @ [out])" using Suc.prems(3) by simp
  obtain s' where 2: "merge_loop e c cleanup m j (Suc (k + m)) s1 = Some (Done (Suc (k + m + j * m), s'))"
      "leaves e c bs pb pt (drop m live @ [out]) (k + m + j * m) s' (length (drop m live @ [out]) - j * m + j)"
    using Suc.IH [OF 1(2) Suc.prems(2) len Suc.prems(4) good] by blast
  have "mset (concat (drop m live @ [out])) = mset (concat live)"
  proof -
    have "mset (concat live) = mset (concat (take m live)) + mset (concat (drop m live))"
      by (metis append_take_drop_id concat_append mset_append)
    then show ?thesis using 1(3) by (simp add: merged_def)
  qed
  moreover have "length (drop m live @ [out]) - j * m + j = length live - Suc j * m + Suc j" using Suc.prems(3) by simp
  ultimately show ?case using 1(1) 2 by (simp add: leaves_def add.assoc)
qed

lemma leaves_trans:
  assumes "leaves e c bs pb pt live k s n" and "\<And>live'. live_ok e c bs pb pt s k live' \<Longrightarrow> runs_good c bs live' \<Longrightarrow> length live' = n
      \<Longrightarrow> leaves e c bs pb pt live' k2 s2 n2"
  shows "leaves e c bs pb pt live k2 s2 n2"
  using assms unfolding leaves_def by metis

text \<open>A pass merges every run once, the first merge taking what is left over by the order, and leaves the quotient.\<close>

lemma merge_pass_works:
  assumes live: "live_ok e c bs pb pt s k live" and M: "2 \<le> M" "M < length live" "2 * pb * M \<le> pt" and good: "runs_good c bs live"
  shows "\<exists>k' s'. merge_pass e c cleanup M (length live) (Suc k) s = Some (Done (Suc k', s'))
    \<and> leaves e c bs pb pt live k' s' (length live div M)"
proof -
  let ?R = "length live" and ?P = "length live div M"
  let ?F = "1 + (?R - ?P * M)"
  have eq: "?P * M + ?R mod M = ?R" by simp
  then have F: "?F = 1 + ?R mod M" by linarith
  have "\<exists>k1 s1. (if ?F > 1 then merge_loop e c cleanup ?F 1 (Suc k) s else Some (Done (Suc k, s))) = Some (Done (Suc k1, s1))
      \<and> leaves e c bs pb pt live k1 s1 (?P * M)"
  proof (cases "?F > 1")
    case True
    have "?R mod M < M" using M(1) by simp
    then have f: "2 \<le> ?F" "?F \<le> M" "1 * ?F \<le> ?R" using True M(2) unfolding F mult_1 by linarith+
    have "2 * pb * ?F \<le> pt" using M(3) mult_le_mono2 [OF f(2), of "2 * pb"] by linarith
    moreover have "?R - 1 * ?F + 1 = ?P * M" using f(3) eq unfolding F mult_1 by linarith
    ultimately show ?thesis using merge_loop_works [OF live f(1,3) _ good, of cleanup] True by auto
  next
    case False
    then have "?P * M = ?R" using eq unfolding F by linarith
    then show ?thesis using live good False by (auto simp: leaves_def)
  qed
  then obtain k1 s1 where 1: "(if ?F > 1 then merge_loop e c cleanup ?F 1 (Suc k) s else Some (Done (Suc k, s))) = Some (Done (Suc k1, s1))"
      "leaves e c bs pb pt live k1 s1 (?P * M)"
    by blast
  have "\<exists>s2. merge_loop e c cleanup M ?P (Suc k1) s1 = Some (Done (Suc (k1 + ?P * M), s2)) \<and> leaves e c bs pb pt live (k1 + ?P * M) s2 ?P"
  proof -
    obtain live1 where l: "live_ok e c bs pb pt s1 k1 live1" "runs_good c bs live1" "length live1 = ?P * M"
        "mset (concat live1) = mset (concat live)"
      using 1(2) by (auto simp: leaves_def)
    then show ?thesis using merge_loop_works [OF l(1) M(1) _ M(3) l(2), of ?P cleanup] by (auto simp: leaves_def)
  qed
  then show ?thesis using 1(1) by (auto simp: merge_pass_def Let_def)
qed

text \<open>The number of runs falls with every pass, so the loop comes to an end.\<close>

lemma merge_passes_works:
  assumes "live_ok e c bs pb pt s k live" and "2 \<le> M" and "M < length live" and "2 * pb * M \<le> pt" and "runs_good c bs live"
  shows "\<exists>n k' s'. merge_passes e c cleanup M (length live) (Suc k) s = Some (Done (n, Suc k', s')) \<and> 1 \<le> n \<and> n \<le> M
    \<and> leaves e c bs pb pt live k' s' n"
  using assms
proof (induction "length live" arbitrary: s k live rule: less_induct)
  case less
  let ?P = "length live div M"
  obtain k1 s1 where 1: "merge_pass e c cleanup M (length live) (Suc k) s = Some (Done (Suc k1, s1))" "leaves e c bs pb pt live k1 s1 ?P"
    using merge_pass_works [OF less.prems] by blast
  obtain live1 where l: "live_ok e c bs pb pt s1 k1 live1" "runs_good c bs live1" "length live1 = ?P"
      "mset (concat live1) = mset (concat live)"
    using 1(2) by (auto simp: leaves_def)
  have P: "1 \<le> ?P" "?P < length live"
    using less.prems(2,3) by (simp_all add: Suc_leI div_greater_zero_iff del: length_greater_0_conv)
  show ?case
  proof (cases "?P > M")
    case True
    obtain n k' s' where "merge_passes e c cleanup M (length live1) (Suc k1) s1 = Some (Done (n, Suc k', s'))" "1 \<le> n" "n \<le> M"
        "leaves e c bs pb pt live1 k' s' n"
      using less.hyps [OF _ l(1) less.prems(2) _ less.prems(4) l(2)] True P(2) l(3) by auto
    then show ?thesis using 1(1) True l(3,4) by (subst merge_passes.simps) (auto simp: leaves_def)
  next
    case False
    then show ?thesis using 1 P(1) by (subst merge_passes.simps) auto
  qed
qed

lemma halve_order_works:
  "halve_order alloc pb used = Some half \<Longrightarrow> 2 \<le> half \<and> half < used \<and> alloc (half * 2 * pb)"
proof (induction alloc pb used rule: halve_order.induct)
  case (1 alloc pb used)
  show ?case
  proof (cases "used div 2 < 2 \<or> alloc (used div 2 * 2 * pb)")
    case True
    then show ?thesis using "1.prems" by (subst (asm) halve_order.simps) (auto simp: Let_def split: if_splits)
  next
    case False
    then have "halve_order alloc pb (used div 2) = Some half" using "1.prems" by (subst (asm) halve_order.simps) (simp add: Let_def)
    then show ?thesis using "1.IH" [OF refl] False by auto
  qed
qed

section \<open>The whole merge phase\<close>

lemma merged_cong: "mset (concat rss') = mset (concat rss) \<Longrightarrow> merged c rss' rs over = merged c rss rs over"
  by (simp add: merged_def)

text \<open>The final tree over the runs that are left delivers them all.\<close>

lemma final_tree:
  assumes "live_ok e c bs pb pt s k live" and "2 * pb * length live \<le> pt" and "\<forall>rs \<in> set live. run_good c bs rs"
  shows "\<exists>s3. open_nodes (length live) (Suc k) s = (True, s3)
    \<and> (\<forall>n. \<exists>rs over. receive_all c (readSortMergeNode e (cf_numberOfBytesForRecordSize c) (cf_recSize c)) n (tree_new c (length live) s3)
          = Some (rs, over) \<and> merged c live rs over \<and> (prompt e \<longrightarrow> length (concat live) < n \<longrightarrow> over))"
proof -
  let ?rd = "readSortMergeNode e (cf_numberOfBytesForRecordSize c) (cf_recSize c)"
  obtain s3 all where o: "open_nodes (length live) (Suc k) s = (True, s3)"
      "sink_inv e (cf_numberOfBytesForRecordSize c) (cf_recSize c) bs pb pt all s3 (take (length live) live) []"
    using live_open [OF assms(1) order_refl assms(2)] by blast
  have inv: "scratch_inv e (cf_numberOfBytesForRecordSize c) (cf_recSize c) s3 live" using o(2) by (simp add: sink_inv_def)
  have "\<exists>rs over. receive_all c ?rd n (tree_new c (length live) s3) = Some (rs, over)
      \<and> merged c live rs over \<and> (prompt e \<longrightarrow> length (concat live) < n \<longrightarrow> over)" for n
  proof (cases "live = []")
    case True
    then show ?thesis by (cases n) (auto simp: tree_new_def sortReceive_def merged_def)
  next
    case False
    then show ?thesis using final_merge [OF inv False, of c n] assms(3) by (auto simp: run_good_def)
  qed
  then show ?thesis using o(1) by blast
qed

definition order_of :: "nat \<Rightarrow> nat" where
  "order_of estimate = (if estimate < 2 then 2 else estimate)"

lemma setup_pool_works:
  assumes "setup_pool quota alloc (order_of estimate) R s = Done (M, s1)" and "sc_sortMergeBlocksPerBuffer s = pb"
  shows "\<exists>n. s1 = setupSortMergeBufferPool n s \<and> 2 * pb * (if M < R then M else R) \<le> n
    \<and> (M < R \<longrightarrow> 2 \<le> M) \<and> (alloc (R * 2 * pb) \<longrightarrow> R \<le> order_of estimate \<longrightarrow> R \<le> M)"
  using assms halve_order_works [of alloc pb "if R > order_of estimate then order_of estimate else R" M]
  by (auto simp: setup_pool_def Let_def order_of_def split: if_splits option.splits)

lemma live_ok_setup:
  assumes "live_ok e c bs pb 0 s k live"
  shows "live_ok e c bs pb n (setupSortMergeBufferPool n s) k live"
proof -
  let ?s = "setupSortMergeBufferPool n s"
  have "between bs pb n ?s all" if "between bs pb 0 s all" for all
    using that runs_stored_cong [of ?s s]
    by (simp add: between_def scratch_fixed_def pool_total_def idle_def setupSortMergeBufferPool_def)
  then show ?thesis using assms unfolding live_ok_def by blast
qed

text \<open>What the tree of the final merge has to do: deliver the records of the runs, in the order of their keys.\<close>

definition sorted_output :: "scratch_env \<Rightarrow> sort_config \<Rightarrow> byte list list \<Rightarrow> SortScratchSpace tree \<Rightarrow> bool" where
  "sorted_output e c recs t =
     (\<forall>n. \<exists>rs over. receive_all c (readSortMergeNode e (cf_numberOfBytesForRecordSize c) (cf_recSize c)) n t = Some (rs, over)
        \<and> merged c [recs] rs over \<and> (prompt e \<longrightarrow> length recs < n \<longrightarrow> over))"

lemma sorted_output_cong: "mset rs' = mset rs \<Longrightarrow> sorted_output e c rs' t = sorted_output e c rs t"
  using merged_cong [of "[rs']" "[rs]" c] by (auto simp: sorted_output_def dest: mset_eq_length)

lemma open_final:
  assumes "live_ok e c bs pb pt s k live" and "2 * pb * length live \<le> pt" and "\<forall>rs \<in> set live. run_good c bs rs"
    and "mset (concat live) = mset recs"
  shows "\<exists>s3. open_nodes (length live) (Suc k) s = (True, s3) \<and> sorted_output e c recs (tree_new c (length live) s3)"
proof -
  have m: "merged c live rs over = merged c [recs] rs over" for rs over using merged_cong [of live "[recs]"] assms(4) by simp
  have l: "length (concat live) = length recs" using assms(4) by (metis size_mset)
  show ?thesis using final_tree [OF assms(1-3)] unfolding sorted_output_def m l .
qed

lemma sortSendEndProcessing_works:
  assumes live: "live_ok e c bs pb 0 s 0 live" and good: "\<forall>rs \<in> set live. run_good c bs rs"
    and few: "(\<forall>rs \<in> set live. run_low c rs) \<or> length live \<le> order_of estimate \<and> alloc (length live * 2 * pb)"
  shows "(\<exists>t. sortSendEndProcessing e c cleanup quota alloc estimate s = Some (Done t) \<and> sorted_output e c (concat live) t)
    \<or> sortSendEndProcessing e c cleanup quota alloc estimate s = Some SortFailure
      \<and> setup_pool quota alloc (order_of estimate) (length live) s = SortFailure"
proof (cases "setup_pool quota alloc (order_of estimate) (length live) s")
  case SortFailure
  have "getTotalNumOfRuns s = length live"
    using live by (auto simp: live_ok_def between_def runs_stored_def getTotalNumOfRuns_def)
  then show ?thesis using SortFailure by (simp add: sortSendEndProcessing_def Let_def order_of_def)
next
  case (Done p)
  obtain M s1 where p: "p = (M, s1)" by (cases p)
  let ?R = "length live"
  have R: "getTotalNumOfRuns s = ?R" and pb: "sc_sortMergeBlocksPerBuffer s = pb"
    using live by (auto simp: live_ok_def between_def runs_stored_def getTotalNumOfRuns_def scratch_fixed_def)
  obtain n where n: "s1 = setupSortMergeBufferPool n s" "2 * pb * (if M < ?R then M else ?R) \<le> n" "M < ?R \<longrightarrow> 2 \<le> M"
      "alloc (?R * 2 * pb) \<longrightarrow> ?R \<le> order_of estimate \<longrightarrow> ?R \<le> M"
    using setup_pool_works [OF Done [unfolded p] pb] by blast
  have live1: "live_ok e c bs pb n s1 0 live" using live_ok_setup [OF live, of n] n(1) by simp
  note step = sortSendEndProcessing_def Let_def order_of_def [symmetric] R Done p
  show ?thesis
  proof (cases "M < ?R")
    case False
    then have "2 * pb * ?R \<le> n" using n(2) by simp
    then show ?thesis using open_final [OF live1 _ good refl] False by (auto simp: step)
  next
    case True
    then have "runs_good c bs live" using few n(4) good by (auto simp: runs_good_def)
    moreover have M: "2 \<le> M" "2 * pb * M \<le> n" using True n by simp_all
    ultimately obtain f k' s' where f: "merge_passes e c cleanup M ?R 1 s1 = Some (Done (f, Suc k', s'))" "f \<le> M" "leaves e c bs pb n live k' s' f"
      using merge_passes_works [OF live1 _ True, of cleanup] by auto
    then obtain live' where l: "live_ok e c bs pb n s' k' live'" "runs_good c bs live'" "length live' = f" "mset (concat live') = mset (concat live)"
      by (auto simp: leaves_def)
    have "2 * pb * length live' \<le> n" using order_trans [OF mult_le_mono2 [OF f(2)] M(2)] l(3) by simp
    then show ?thesis using open_final [OF l(1) _ _ l(4)] l(2,3) f(1) True by (auto simp: step runs_good_def)
  qed
qed

section \<open>Merges that go wrong\<close>

text \<open>A run is written and closed, as by \<^verbatim>\<open>Qsort::generateARun\<close>.\<close>

definition write_run :: "scratch_env \<Rightarrow> nat \<Rightarrow> byte list list \<Rightarrow> SortScratchSpace \<Rightarrow> SortScratchSpace option" where
  "write_run e run rs s =
     (case write_records e run rs s of
        Some (SCRATCH_SUCCESS, s1) \<Rightarrow> (case flushRun e True s1 of (SCRATCH_SUCCESS, s2) \<Rightarrow> Some s2 | _ \<Rightarrow> None)
      | _ \<Rightarrow> None)"

definition merge_phase :: "scratch_env \<Rightarrow> sort_config \<Rightarrow> nat \<Rightarrow> nat \<Rightarrow> SortScratchSpace \<Rightarrow> (byte list list \<times> bool) option" where
  "merge_phase e c estimate n s =
     (case sortSendEndProcessing e c False False (\<lambda>_. True) estimate s of
        Some (Done t) \<Rightarrow> receive_all c (readSortMergeNode e (cf_numberOfBytesForRecordSize c) (cf_recSize c)) n t
      | _ \<Rightarrow> None)"

definition prompt_env :: "bool \<Rightarrow> scratch_env" where
  "prompt_env readOk = \<lparr> se_write_ok = (\<lambda>_. True), se_read_ok = (\<lambda>_. readOk), se_read_done = (\<lambda>_ _. True) \<rparr>"

definition small_config :: sort_config where
  "small_config = \<lparr> cf_recSize = 2, cf_keySize = 1, cf_numberOfBytesForRecordSize = 0, cf_resizeCifRecord = False \<rparr>"

definition block_head :: "int \<Rightarrow> nat \<Rightarrow> ScrBlockHeader" where
  "block_head b run = \<lparr> bh_thisBlockNum = b, bh_nextBlockNum = - 1, bh_bytesUsed = 22, bh_runNum = run, bh_numRecs = 1 \<rparr>"

lemmas write_run_unfold =
  write_run_def prompt_env_def scratch_new_def writeRunData_def flushRun_def switchScratchBuffers_def startNewRun_def block_put_def
  block_head_def Let_def numeral_2_eq_2 numeral_3_eq_3

lemma one_run_written:
  "write_run (prompt_env b) 1 [[3, 4]] (scratch_new 32 1) =
     Some \<lparr> sc_blockSize = 32, sc_disk = (\<lambda>_. None)(1 \<mapsto> (block_head 1 1, [3, 4])), sc_totalNumOfScrBlocks = 2, sc_currentBlock = [],
       sc_bytesUsed = 20, sc_numRecs = 0, sc_currentRun = 1, sc_runDirectory = [1],
       sc_sortMergeBlocksPerBuffer = 1, sc_freeSortMergeBufferPool = 0, sc_nodes = [], sc_clock = 0 \<rparr>"
  by (simp add: write_run_unfold)

lemma three_runs_written:
  "write_run (prompt_env b) 1 [[3, 4]] (scratch_new 32 1) \<bind> write_run (prompt_env b) 2 [[255, 2]] \<bind> write_run (prompt_env b) 3 [[1, 2]] =
     Some \<lparr> sc_blockSize = 32,
       sc_disk = (\<lambda>_. None)(1 \<mapsto> (block_head 1 1, [3, 4]), 2 \<mapsto> (block_head 2 2, [255, 2]), 3 \<mapsto> (block_head 3 3, [1, 2])),
       sc_totalNumOfScrBlocks = 4, sc_currentBlock = [], sc_bytesUsed = 20, sc_numRecs = 0, sc_currentRun = 3, sc_runDirectory = [1, 2, 3],
       sc_sortMergeBlocksPerBuffer = 1, sc_freeSortMergeBufferPool = 0, sc_nodes = [], sc_clock = 0 \<rparr>"
  by (simp add: write_run_unfold)



end
