(* ===== verification/Sort_Qsort.thy ===== *)
theory Sort_Qsort
  imports Sort_Prelude
begin

text \<open>
  The in-memory sorts of \<^verbatim>\<open>Qsort.cpp\<close>: the recursive quicksort with the median of three, the
  quicksort with an explicit stack, and the heap sort.  They work in place on the array of
  keys.  \<^const>\<open>None\<close> is an access outside the array or outside the allocated stack.
\<close>

section \<open>Quicksort\<close>

text \<open>The two inner loops, \<^verbatim>\<open>while (compare(keysToSort[++i].key_, pivot) <= KEY1_IS_SMALLER)\<close> and its mirror.\<close>

function scan_up :: "nat \<Rightarrow> RecKeyBuffer list \<Rightarrow> byte list \<Rightarrow> int \<Rightarrow> int option" where
  "scan_up n xs pivot i =
     (case array_get xs (i + 1) of
        None \<Rightarrow> None
      | Some b \<Rightarrow> if compare_key n (Some (rk_key b)) (Some pivot) \<le> KEY1_IS_SMALLER
                  then scan_up n xs pivot (i + 1) else Some (i + 1))"
  by pat_completeness auto
termination
  by (relation "measure (\<lambda>(n, xs, pivot, i). nat (int (length xs) - i))")
    (auto simp: tm_run in_array_def)

function scan_down :: "nat \<Rightarrow> RecKeyBuffer list \<Rightarrow> byte list \<Rightarrow> int \<Rightarrow> int option" where
  "scan_down n xs pivot j =
     (case array_get xs (j - 1) of
        None \<Rightarrow> None
      | Some b \<Rightarrow> if compare_key n (Some (rk_key b)) (Some pivot) \<ge> KEY1_IS_GREATER
                  then scan_down n xs pivot (j - 1) else Some (j - 1))"
  by pat_completeness auto
termination
  by (relation "measure (\<lambda>(n, xs, pivot, j). nat j)") (auto simp: tm_run in_array_def)

declare scan_up.simps [simp del] scan_down.simps [simp del]

lemma scan_up_bounds:
  assumes "scan_up n xs pivot i = Some i'"
  shows "i < i'" and "in_array xs i'"
    and "\<not> compare_key n (Some (rk_key (xs ! nat i'))) (Some pivot) \<le> - 1"
proof -
  have "i < i' \<and> in_array xs i' \<and> \<not> compare_key n (Some (rk_key (xs ! nat i'))) (Some pivot) \<le> - 1"
    using assms
  proof (induction n xs pivot i rule: scan_up.induct)
    case (1 n xs pivot i)
    show ?case using 1 scan_up.simps [of n xs pivot i] by (force split: option.splits if_splits simp: tm_run)
  qed
  then show "i < i'" and "in_array xs i'" and "\<not> compare_key n (Some (rk_key (xs ! nat i'))) (Some pivot) \<le> - 1"
    by auto
qed

lemma scan_down_bounds:
  assumes "scan_down n xs pivot j = Some j'"
  shows "j' < j" and "in_array xs j'"
proof -
  have "j' < j \<and> in_array xs j'"
    using assms
  proof (induction n xs pivot j rule: scan_down.induct)
    case (1 n xs pivot j)
    show ?case using 1 scan_down.simps [of n xs pivot j] by (force split: option.splits if_splits simp: tm_run)
  qed
  then show "j' < j" and "in_array xs j'" by auto
qed

text \<open>The loop of the partition; it answers where the indices met.\<close>

function partition_loop ::
  "nat \<Rightarrow> RecKeyBuffer list \<Rightarrow> byte list \<Rightarrow> int \<Rightarrow> int \<Rightarrow> (int \<times> RecKeyBuffer list) option" where
  "partition_loop n xs pivot i j =
     (case scan_up n xs pivot i of
        None \<Rightarrow> None
      | Some i' \<Rightarrow>
          (case scan_down n xs pivot j of
             None \<Rightarrow> None
           | Some j' \<Rightarrow>
               if i' < j' then
                 (case array_swap xs i' j' of
                    None \<Rightarrow> None
                  | Some ys \<Rightarrow> partition_loop n ys pivot i' j')
               else Some (i', xs)))"
  by pat_completeness auto
termination
  by (relation "measure (\<lambda>(n, xs, pivot, i, j). nat (j - i))")
    (auto dest!: scan_up_bounds(1) scan_down_bounds(1))

declare partition_loop.simps [simp del]

text \<open>Two elements are exchanged when they are out of order.\<close>

definition order_at :: "nat \<Rightarrow> RecKeyBuffer list \<Rightarrow> int \<Rightarrow> int \<Rightarrow> RecKeyBuffer list option" where
  "order_at n xs i j =
     do { c \<leftarrow> compare_at n xs i j; if c \<ge> KEY1_IS_GREATER then array_swap xs i j else Some xs }"

definition median :: "nat \<Rightarrow> RecKeyBuffer list \<Rightarrow> int \<Rightarrow> int \<Rightarrow> (byte list \<times> RecKeyBuffer list) option" where
  "median n xs left right =
     (let center = (left + right) div 2
      in do {
        xs1 \<leftarrow> order_at n xs left center;
        xs2 \<leftarrow> order_at n xs1 left right;
        xs3 \<leftarrow> order_at n xs2 center right;
        xs4 \<leftarrow> array_swap xs3 center (right - 1);
        b \<leftarrow> array_get xs4 (right - 1);
        Some (rk_key b, xs4) })"

lemma scan_up_stops:
  assumes "scan_up n xs pivot i = Some i'" and "i < j" and "in_array xs j"
    and "\<not> compare_key n (Some (rk_key (xs ! nat j))) (Some pivot) \<le> - 1"
  shows "i' \<le> j"
  using assms
proof (induction n xs pivot i rule: scan_up.induct)
  case (1 n xs pivot i)
  show ?case
  proof (cases "i + 1 = j")
    case True
    then show ?thesis using "1.prems" by (simp add: scan_up.simps [of n xs pivot i])
  next
    case False
    then show ?thesis
      using "1.prems" "1.IH" by (auto simp: scan_up.simps [of n xs pivot i] split: option.splits if_splits)
  qed
qed

lemma partition_loop_bounds:
  assumes "partition_loop n xs pivot i j = Some (i', ys)"
    and "\<not> compare_key n (Some (rk_key (xs ! nat j))) (Some pivot) \<le> - 1" and "in_array xs j" and "i < j"
  shows "i < i'" and "i' \<le> j"
proof -
  have "i < i' \<and> i' \<le> j"
    using assms
  proof (induction n xs pivot i j rule: partition_loop.induct)
    case (1 n xs pivot i j)
    obtain i1 j1 where s: "scan_up n xs pivot i = Some i1" "scan_down n xs pivot j = Some j1"
      using "1.prems"(1) by (auto simp: partition_loop.simps [of n xs pivot i j] split: option.splits)
    note u = scan_up_bounds [OF s(1)] and d = scan_down_bounds [OF s(2)]
    show ?case
    proof (cases "i1 < j1")
      case True
      then obtain zs where z: "array_swap xs i1 j1 = Some zs" "partition_loop n zs pivot i1 j1 = Some (i', ys)"
        using "1.prems"(1) s by (auto simp: partition_loop.simps [of n xs pivot i j] split: option.splits)
      have "zs ! nat j1 = xs ! nat i1" "in_array zs j1"
        using array_swap_SomeD [OF z(1)] True d(2) by (auto simp: in_array_def)
      then have "i1 < i' \<and> i' \<le> j1" using "1.IH" [OF s True z] u(3) True by simp
      then show ?thesis using u(1) d(1) by simp
    next
      case False
      then have "i' = i1" using "1.prems"(1) s by (simp add: partition_loop.simps [of n xs pivot i j])
      then show ?thesis using u(1) scan_up_stops [OF s(1) "1.prems"(4,3,2)] by simp
    qed
  qed
  then show "i < i'" and "i' \<le> j" by auto
qed

lemma median_last:
  assumes "median n xs left right = Some (pivot, ys)"
  shows "in_array ys (right - 1)" and "pivot = rk_key (ys ! nat (right - 1))"
  using assms by (auto simp: median_def tm_run Let_def)

text \<open>\<^verbatim>\<open>quickSort\<close> sorts the part of the array from \<^verbatim>\<open>left\<close> to \<^verbatim>\<open>right\<close>.\<close>

function quickSort :: "nat \<Rightarrow> RecKeyBuffer list \<Rightarrow> int \<Rightarrow> int \<Rightarrow> RecKeyBuffer list option" where
  "quickSort n xs left right =
     (if left + 1 < right then
        (case median n xs left right of
           None \<Rightarrow> None
         | Some (pivot, xs1) \<Rightarrow>
             (case partition_loop n xs1 pivot left (right - 1) of
                None \<Rightarrow> None
              | Some (i, xs2) \<Rightarrow>
                  do { xs3 \<leftarrow> array_swap xs2 i (right - 1);
                       xs4 \<leftarrow> quickSort n xs3 left (i - 1);
                       quickSort n xs4 (i + 1) right }))
      else if left < right then
        order_at n xs left right
      else Some xs)"
  by pat_completeness auto
termination
proof (relation "measure (\<lambda>(n, xs, left, right). nat (right - left + 1))", goal_cases)
  case (2 n xs left right x pivot xs1 y i xs2 xs3)
  then have "left < i" "i \<le> right - 1"
    using median_last [of n xs left right pivot xs1] partition_loop_bounds [of n xs1 pivot left "right - 1" i xs2]
    by auto
  then show ?case by simp
next
  case (3 n xs left right x pivot xs1 y i xs2 xs3 xs4)
  then have "left < i" "i \<le> right - 1"
    using median_last [of n xs left right pivot xs1] partition_loop_bounds [of n xs1 pivot left "right - 1" i xs2]
    by auto
  then show ?case by simp
qed simp

declare quickSort.simps [simp del]

subsection \<open>Correctness of the partition\<close>

lemma keys_wf_nth: "keys_wf n xs \<Longrightarrow> in_array xs k \<Longrightarrow> n \<le> length (rk_key (xs ! nat k))"
  by (auto simp: keys_wf_def in_array_def nat_less_iff)

lemma compare_pivot:
  assumes "keys_wf n xs" and "n \<le> length pivot" and "in_array xs k"
  shows "compare_key n (Some (rk_key (xs ! nat k))) (Some pivot) \<le> - 1 \<longleftrightarrow> kat n xs k < take n pivot"
    and "1 \<le> compare_key n (Some (rk_key (xs ! nat k))) (Some pivot) \<longleftrightarrow> take n pivot < kat n xs k"
  using compare_key_smaller [OF keys_wf_nth [OF assms(1,3)] assms(2)]
    compare_key_greater [OF keys_wf_nth [OF assms(1,3)] assms(2)]
  by (simp_all add: kat_def kval_def)

lemma scan_up_works:
  assumes "keys_wf n xs" and "n \<le> length pivot" and "0 \<le> i + 1" and "i < j" and "in_array xs j"
    and "take n pivot \<le> kat n xs j"
  shows "\<exists>i'. scan_up n xs pivot i = Some i' \<and> i < i' \<and> i' \<le> j
    \<and> (\<forall>k. i < k \<longrightarrow> k < i' \<longrightarrow> kat n xs k < take n pivot) \<and> take n pivot \<le> kat n xs i'"
  using assms
proof (induction n xs pivot i rule: scan_up.induct)
  case (1 n xs pivot i)
  have b: "in_array xs (i + 1)" using "1.prems" by (simp add: in_array_def)
  note c = compare_pivot [OF "1.prems"(1,2) b]
  show ?case
  proof (cases "kat n xs (i + 1) < take n pivot")
    case True
    then have "i + 1 < j" using "1.prems"(4,6) by (metis leD linorder_neqE_linordered_idom zless_imp_add1_zle order_le_less)
    then obtain i' where i': "scan_up n xs pivot (i + 1) = Some i'" "i + 1 < i'" "i' \<le> j"
        "\<forall>k. i + 1 < k \<longrightarrow> k < i' \<longrightarrow> kat n xs k < take n pivot" "take n pivot \<le> kat n xs i'"
      using "1.IH" [of "xs ! nat (i + 1)"] "1.prems" True c b by auto
    have "kat n xs k < take n pivot" if "i < k" "k < i'" for k
      using i'(4) that True by (cases "k = i + 1") auto
    then show ?thesis using i' True c b by (auto simp: scan_up.simps [of n xs pivot i])
  next
    case False
    then show ?thesis using c b "1.prems"(4) by (auto simp: scan_up.simps [of n xs pivot i])
  qed
qed

lemma scan_down_works:
  assumes "keys_wf n xs" and "n \<le> length pivot" and "j \<le> int (length xs)" and "i < j" and "in_array xs i"
    and "kat n xs i \<le> take n pivot"
  shows "\<exists>j'. scan_down n xs pivot j = Some j' \<and> i \<le> j' \<and> j' < j
    \<and> (\<forall>k. j' < k \<longrightarrow> k < j \<longrightarrow> take n pivot < kat n xs k) \<and> kat n xs j' \<le> take n pivot"
  using assms
proof (induction n xs pivot j rule: scan_down.induct)
  case (1 n xs pivot j)
  have b: "in_array xs (j - 1)" using "1.prems" by (simp add: in_array_def)
  note c = compare_pivot [OF "1.prems"(1,2) b]
  show ?case
  proof (cases "take n pivot < kat n xs (j - 1)")
    case True
    then have "i < j - 1" using "1.prems"(4,6) by (cases "i = j - 1") auto
    then obtain j' where j': "scan_down n xs pivot (j - 1) = Some j'" "i \<le> j'" "j' < j - 1"
        "\<forall>k. j' < k \<longrightarrow> k < j - 1 \<longrightarrow> take n pivot < kat n xs k" "kat n xs j' \<le> take n pivot"
      using "1.IH" [of "xs ! nat (j - 1)"] "1.prems" True c b by auto
    have "take n pivot < kat n xs k" if "j' < k" "k < j" for k
      using j'(4) that True by (cases "k = j - 1") auto
    then show ?thesis using j' True c b by (auto simp: scan_down.simps [of n xs pivot j])
  next
    case False
    then show ?thesis using c b "1.prems"(4) by (auto simp: scan_down.simps [of n xs pivot j])
  qed
qed

lemma partition_works:
  assumes "keys_wf n xs" and "n \<le> length pivot" and "0 \<le> l" "r < int (length xs)"
    and "l \<le> i" "i < j" "j \<le> r"
    and "\<And>k. l \<le> k \<Longrightarrow> k \<le> i \<Longrightarrow> kat n xs k \<le> take n pivot"
    and "\<And>k. j \<le> k \<Longrightarrow> k \<le> r \<Longrightarrow> take n pivot \<le> kat n xs k"
  shows "\<exists>i' ys. partition_loop n xs pivot i j = Some (i', ys) \<and> i < i' \<and> i' \<le> j \<and> seg_perm (i + 1) (j - 1) xs ys
    \<and> (\<forall>k. l \<le> k \<longrightarrow> k < i' \<longrightarrow> kat n ys k \<le> take n pivot)
    \<and> (\<forall>k. i' \<le> k \<longrightarrow> k \<le> r \<longrightarrow> take n pivot \<le> kat n ys k)"
  using assms
proof (induction n xs pivot i j rule: partition_loop.induct)
  case (1 n xs pivot i j)
  have b: "in_array xs j" "in_array xs i" "0 \<le> i + 1" "j \<le> int (length xs)" using "1.prems" by (auto simp: in_array_def)
  obtain i1 where i1: "scan_up n xs pivot i = Some i1" "i < i1" "i1 \<le> j"
      "\<And>k. i < k \<Longrightarrow> k < i1 \<Longrightarrow> kat n xs k < take n pivot" "take n pivot \<le> kat n xs i1"
    using scan_up_works [OF "1.prems"(1,2) b(3) "1.prems"(6) b(1)] "1.prems"(7,9) by auto
  obtain j1 where j1: "scan_down n xs pivot j = Some j1" "i \<le> j1" "j1 < j"
      "\<And>k. j1 < k \<Longrightarrow> k < j \<Longrightarrow> take n pivot < kat n xs k" "kat n xs j1 \<le> take n pivot"
    using scan_down_works [OF "1.prems"(1,2) b(4) "1.prems"(6) b(2)] "1.prems"(5,8) by auto
  show ?case
  proof (cases "i1 < j1")
    case True
    have "in_array xs i1" "in_array xs j1" using "1.prems" i1 j1 True by (auto simp: in_array_def)
    then obtain zs where zs: "array_swap xs i1 j1 = Some zs" "seg_perm (i + 1) (j - 1) xs zs"
        "\<And>k. 0 \<le> k \<Longrightarrow> zs ! nat k = (if k = i1 then xs ! nat j1 else if k = j1 then xs ! nat i1 else xs ! nat k)"
      by (rule array_swap_Some [of xs i1 j1 "i + 1" "j - 1"]) (use i1 j1 True in auto)
    have kz: "kat n zs k = (if k = i1 then kat n xs j1 else if k = j1 then kat n xs i1 else kat n xs k)" if "0 \<le> k" for k
      using zs(3) [OF that] by (simp add: kat_def)
    have low: "kat n zs k \<le> take n pivot" if "l \<le> k" "k \<le> i1" for k
    proof (cases "k = i1 \<or> k \<le> i")
      case True
      then show ?thesis using kz [of k] that j1 "1.prems"(3,8) i1(2) \<open>i1 < j1\<close> by auto
    next
      case False
      then show ?thesis using kz [of k] that i1(4) [of k] "1.prems"(3) \<open>i1 < j1\<close> by auto
    qed
    have high: "take n pivot \<le> kat n zs k" if "j1 \<le> k" "k \<le> r" for k
    proof (cases "k = j1 \<or> j \<le> k")
      case True
      then show ?thesis using kz [of k] that i1 "1.prems"(3,5,9) j1(3) \<open>i1 < j1\<close> by auto
    next
      case False
      then show ?thesis using kz [of k] that j1(4) [of k] "1.prems"(3,5) i1(2) \<open>i1 < j1\<close> by auto
    qed
    have "keys_wf n zs" "r < int (length zs)"
      using seg_perm_keys_wf [OF zs(2)] seg_perm_length [OF zs(2)] "1.prems" by auto
    then obtain i' ys where y: "partition_loop n zs pivot i1 j1 = Some (i', ys)" "i1 < i'" "i' \<le> j1"
        "seg_perm (i1 + 1) (j1 - 1) zs ys"
        "\<forall>k. l \<le> k \<longrightarrow> k < i' \<longrightarrow> kat n ys k \<le> take n pivot" "\<forall>k. i' \<le> k \<longrightarrow> k \<le> r \<longrightarrow> take n pivot \<le> kat n ys k"
      using "1.IH" [OF i1(1) j1(1) True zs(1)] "1.prems"(2,3,5,7) i1(2) j1(3) True low high by force
    moreover have "seg_perm (i + 1) (j - 1) xs ys"
      using seg_perm_trans [OF zs(2) seg_perm_mono [OF y(4)]] i1(2) j1(3) by simp
    ultimately show ?thesis
      using i1 j1 zs(1) True by (auto simp: partition_loop.simps [of n xs pivot i j])
  next
    case False
    have "kat n xs k \<le> take n pivot" if "l \<le> k" "k < i1" for k
      using that "1.prems"(8) i1(4) by (cases "k \<le> i") force+
    moreover have "take n pivot \<le> kat n xs k" if "i1 \<le> k" "k \<le> r" for k
    proof (cases "k = i1 \<or> j \<le> k")
      case True
      then show ?thesis using i1(5) "1.prems"(9) that by auto
    next
      case False
      then show ?thesis using j1(4) [of k] that \<open>\<not> i1 < j1\<close> by auto
    qed
    ultimately show ?thesis
      using i1 j1 False by (auto simp: partition_loop.simps [of n xs pivot i j])
  qed
qed

lemma order_at_works:
  assumes "keys_wf n xs" and "in_array xs i" "in_array xs j" and "l \<le> i" "i \<le> r" "l \<le> j" "j \<le> r"
  obtains ys where "order_at n xs i j = Some ys" and "seg_perm l r xs ys" and "kat n ys i \<le> kat n ys j"
    and "{kat n ys i, kat n ys j} = {kat n xs i, kat n xs j}"
    and "\<And>k. 0 \<le> k \<Longrightarrow> k \<noteq> i \<Longrightarrow> k \<noteq> j \<Longrightarrow> kat n ys k = kat n xs k"
proof -
  obtain c where c: "compare_at n xs i j = Some c" "1 \<le> c \<longleftrightarrow> kat n xs j < kat n xs i"
    by (rule compare_at_in [OF assms(1-3)])
  obtain ys where ys: "array_swap xs i j = Some ys" "seg_perm l r xs ys"
      "\<And>k. 0 \<le> k \<Longrightarrow> ys ! nat k = (if k = i then xs ! nat j else if k = j then xs ! nat i else xs ! nat k)"
    by (rule array_swap_Some [OF assms(2-7)]) blast
  have k: "kat n ys k = (if k = i then kat n xs j else if k = j then kat n xs i else kat n xs k)" if "0 \<le> k" for k
    using ys(3) [OF that] by (simp add: kat_def)
  have p: "0 \<le> i" "0 \<le> j" using assms(2,3) by (auto simp: in_array_def)
  show ?thesis
  proof (cases "1 \<le> c")
    case True
    then have "i \<noteq> j" using c(2) by auto
    then have "kat n ys i = kat n xs j" "kat n ys j = kat n xs i" using k p by auto
    then show ?thesis
      using that [of ys] True c ys(1,2) k less_imp_le insert_commute by (auto simp: order_at_def)
  next
    case False
    then show ?thesis using that [of xs] c by (auto simp: order_at_def)
  qed
qed

lemma median_works:
  assumes "keys_wf n xs" and "0 \<le> l" "l + 1 < r" "r < int (length xs)"
  shows "\<exists>pivot ys. median n xs l r = Some (pivot, ys) \<and> seg_perm l r xs ys
    \<and> kat n ys l \<le> take n pivot \<and> kat n ys (r - 1) = take n pivot \<and> n \<le> length pivot \<and> take n pivot \<le> kat n ys r"
proof -
  let ?c = "(l + r) div 2"
  have c: "l < ?c" "?c < r" "?c \<le> r - 1" using assms(3) by auto
  have in3: "in_array zs l" "in_array zs ?c" "in_array zs r" "in_array zs (r - 1)" if "length zs = length xs" for zs :: "RecKeyBuffer list"
    using c assms that by (auto simp: in_array_def)
  have "l \<le> ?c" "?c \<le> r" "l \<le> r" using c by auto
  note le = this
  obtain xs1 where x1: "order_at n xs l ?c = Some xs1" "seg_perm l r xs xs1" "kat n xs1 l \<le> kat n xs1 ?c"
    by (rule order_at_works [OF assms(1) in3(1,2), of l r]) (use le in auto)
  have w1: "keys_wf n xs1" "length xs1 = length xs"
    using assms(1) seg_perm_keys_wf [OF x1(2)] seg_perm_length [OF x1(2)] by auto
  obtain xs2 where x2: "order_at n xs1 l r = Some xs2" "seg_perm l r xs1 xs2" "kat n xs2 l \<le> kat n xs2 r"
      "{kat n xs2 l, kat n xs2 r} = {kat n xs1 l, kat n xs1 r}" "kat n xs2 ?c = kat n xs1 ?c"
    by (rule order_at_works [OF w1(1) in3(1,3) [OF w1(2)], of l r]) (use le c assms(2) in auto)
  have w2: "keys_wf n xs2" "length xs2 = length xs"
    using w1 seg_perm_keys_wf [OF x2(2)] seg_perm_length [OF x2(2)] by auto
  have l2: "kat n xs2 l \<le> kat n xs2 ?c" using x1(3) x2(3-5) by (auto simp: doubleton_eq_iff)
  obtain xs3 where x3: "order_at n xs2 ?c r = Some xs3" "seg_perm l r xs2 xs3" "kat n xs3 ?c \<le> kat n xs3 r"
      "{kat n xs3 ?c, kat n xs3 r} = {kat n xs2 ?c, kat n xs2 r}" "kat n xs3 l = kat n xs2 l"
    by (rule order_at_works [OF w2(1) in3(2,3) [OF w2(2)], of l r]) (use le c assms(2) in auto)
  have w3: "keys_wf n xs3" "length xs3 = length xs"
    using w2 seg_perm_keys_wf [OF x3(2)] seg_perm_length [OF x3(2)] by auto
  have l3: "kat n xs3 l \<le> kat n xs3 ?c" using l2 x2(3) x3(4,5) by (auto simp: doubleton_eq_iff)
  obtain ys where ys: "array_swap xs3 ?c (r - 1) = Some ys" "seg_perm l r xs3 ys"
      "\<And>k. 0 \<le> k \<Longrightarrow> ys ! nat k = (if k = ?c then xs3 ! nat (r - 1) else if k = r - 1 then xs3 ! nat ?c else xs3 ! nat k)"
    by (rule array_swap_Some [OF in3(2,4) [OF w3(2)], of l r]) (use le c assms(3) in auto)
  let ?p = "rk_key (xs3 ! nat ?c)"
  have last: "ys ! nat (r - 1) = xs3 ! nat ?c" using ys(3) [of "r - 1"] c assms(2) by auto
  have "in_array ys (r - 1)" using in3(4) seg_perm_length [OF ys(2)] w3(2) by simp
  then have "median n xs l r = Some (?p, ys)"
    using x1(1) x2(1) x3(1) ys(1) last by (simp add: median_def Let_def)
  moreover have "seg_perm l r xs ys" using x1(2) x2(2) x3(2) ys(2) by (meson seg_perm_trans)
  moreover have "kat n ys l = kat n xs3 l" "kat n ys r = kat n xs3 r"
    using ys(3) [of l] ys(3) [of r] c assms(2,3) by (auto simp: kat_def)
  moreover have "kat n ys (r - 1) = take n ?p" by (simp add: kat_def kval_def last)
  moreover have "kat n xs3 ?c = take n ?p" by (simp add: kat_def kval_def)
  moreover have "n \<le> length ?p" by (rule keys_wf_nth [OF w3(1) in3(2) [OF w3(2)]])
  ultimately show ?thesis using l3 x3(3) by metis
qed

text \<open>Two sorted parts around a pivot make a sorted whole.\<close>

lemma sorted_seg_join:
  assumes "sorted_seg n xs l (i - 1)" and "sorted_seg n xs (i + 1) r"
    and "\<And>k. l \<le> k \<Longrightarrow> k < i \<Longrightarrow> kat n xs k \<le> kat n xs i"
    and "\<And>k. i < k \<Longrightarrow> k \<le> r \<Longrightarrow> kat n xs i \<le> kat n xs k"
  shows "sorted_seg n xs l r"
proof (rule sorted_segI)
  fix a b assume ab: "l \<le> a" "a \<le> b" "b \<le> r"
  consider "b < i" | "i < a" | "a \<le> i" "i \<le> b" by linarith
  then show "kat n xs a \<le> kat n xs b"
  proof cases
    case 1 then show ?thesis using assms(1) ab by (simp add: sorted_seg_def)
  next
    case 2 then show ?thesis using assms(2) ab by (simp add: sorted_seg_def)
  next
    case 3
    have "kat n xs a \<le> kat n xs i" using 3 ab assms(3) by (cases "a = i") auto
    also have "\<dots> \<le> kat n xs b" using 3 ab assms(4) by (cases "b = i") auto
    finally show ?thesis .
  qed
qed

lemma seg_perm_sorted_outside:
  assumes "seg_perm l r xs ys" and "sorted_seg n xs a b" and "0 \<le> a" "b < int (length xs)" and "b < l \<or> r < a"
  shows "sorted_seg n ys a b"
proof (rule sorted_segI)
  fix i j assume ij: "a \<le> i" "i \<le> j" "j \<le> b"
  have "kat n ys i = kat n xs i" "kat n ys j = kat n xs j"
    using seg_perm_kat [OF assms(1), of i n] seg_perm_kat [OF assms(1), of j n] ij assms(3-5)
    by (auto simp: in_array_def)
  then show "kat n ys i \<le> kat n ys j" using assms(2) ij by (simp add: sorted_seg_def)
qed

text \<open>What one level of the recursion leaves to the next.\<close>

definition pivot_at :: "nat \<Rightarrow> RecKeyBuffer list \<Rightarrow> int \<Rightarrow> int \<Rightarrow> int \<Rightarrow> bool" where
  "pivot_at n xs l i r =
     ((\<forall>k. l \<le> k \<longrightarrow> k < i \<longrightarrow> kat n xs k \<le> kat n xs i) \<and> (\<forall>k. i < k \<longrightarrow> k \<le> r \<longrightarrow> kat n xs i \<le> kat n xs k))"

lemma pivot_at_perm_low:
  assumes "pivot_at n xs l i r" and "seg_perm l (i - 1) xs ys" and "0 \<le> l" "l \<le> i" "i \<le> r" "r < int (length xs)"
  shows "pivot_at n ys l i r"
proof -
  have eq: "kat n ys k = kat n xs k" if "i \<le> k" "k \<le> r" for k
    using seg_perm_kat [OF assms(2), of k n] that assms(3-6) by (auto simp: in_array_def)
  have "kval n (ys ! nat k) \<le> kat n xs i" if "l \<le> k" "k < i" for k
    by (rule seg_perm_all [OF assms(2)]) (use that assms in \<open>auto simp: pivot_at_def kat_def\<close>)
  then show ?thesis using eq assms(1,5) by (auto simp: pivot_at_def kat_def)
qed

lemma pivot_at_perm_high:
  assumes "pivot_at n xs l i r" and "seg_perm (i + 1) r xs ys" and "0 \<le> l" "l \<le> i" "i \<le> r" "r < int (length xs)"
  shows "pivot_at n ys l i r"
proof -
  have eq: "kat n ys k = kat n xs k" if "l \<le> k" "k \<le> i" for k
    using seg_perm_kat [OF assms(2), of k n] that assms(3-6) by (auto simp: in_array_def)
  have "kat n xs i \<le> kval n (ys ! nat k)" if "i < k" "k \<le> r" for k
    by (rule seg_perm_all [OF assms(2)]) (use that assms in \<open>auto simp: pivot_at_def kat_def\<close>)
  then show ?thesis using eq assms(1,4) by (auto simp: pivot_at_def kat_def)
qed

lemma sorted_halves:
  assumes "pivot_at n xs l i r" and "0 \<le> l" "l \<le> i" "i \<le> r" "r < int (length xs)"
    and "seg_perm l (i - 1) xs ys" and "sorted_seg n ys l (i - 1)"
    and "seg_perm (i + 1) r ys zs" and "sorted_seg n zs (i + 1) r"
  shows "sorted_seg n zs l r"
proof -
  have len: "length ys = length xs" by (rule seg_perm_length [OF assms(6)])
  have "pivot_at n zs l i r"
    by (rule pivot_at_perm_high [OF pivot_at_perm_low [OF assms(1,6,2-5)] assms(8,2-4)]) (simp add: len assms(5))
  moreover have "sorted_seg n zs l (i - 1)"
    by (rule seg_perm_sorted_outside [OF assms(8,7,2)]) (use assms(4,5) len in auto)
  ultimately show ?thesis using sorted_seg_join [OF _ assms(9)] by (auto simp: pivot_at_def)
qed

lemma partition_step:
  assumes "keys_wf n xs" and "0 \<le> l" "l + 1 < r" "r < int (length xs)"
  obtains pivot xs1 i xs2 xs3 where "median n xs l r = Some (pivot, xs1)"
    and "partition_loop n xs1 pivot l (r - 1) = Some (i, xs2)" and "array_swap xs2 i (r - 1) = Some xs3"
    and "l < i" "i \<le> r - 1" and "seg_perm l r xs xs3" and "pivot_at n xs3 l i r"
proof -
  obtain pivot xs1 where m: "median n xs l r = Some (pivot, xs1)" "seg_perm l r xs xs1"
      "kat n xs1 l \<le> take n pivot" "kat n xs1 (r - 1) = take n pivot" "n \<le> length pivot" "take n pivot \<le> kat n xs1 r"
    using median_works [OF assms] by auto
  have w1: "keys_wf n xs1" "length xs1 = length xs"
    using assms(1) seg_perm_keys_wf [OF m(2)] seg_perm_length [OF m(2)] by auto
  have low: "kat n xs1 k \<le> take n pivot" if "l \<le> k" "k \<le> l" for k using m(3) that by (cases "k = l") auto
  have high: "take n pivot \<le> kat n xs1 k" if "r - 1 \<le> k" "k \<le> r" for k
  proof -
    have "k = r - 1 \<or> k = r" using that by auto
    then show ?thesis using m(4,6) by auto
  qed
  obtain i xs2 where p: "partition_loop n xs1 pivot l (r - 1) = Some (i, xs2)" "l < i" "i \<le> r - 1"
      "seg_perm (l + 1) (r - 1 - 1) xs1 xs2" "\<forall>k. l \<le> k \<longrightarrow> k < i \<longrightarrow> kat n xs2 k \<le> take n pivot"
      "\<forall>k. i \<le> k \<longrightarrow> k \<le> r \<longrightarrow> take n pivot \<le> kat n xs2 k"
    using partition_works [OF w1(1) m(5) assms(2), of r l "r - 1"] w1(2) assms(3,4) low high by auto
  have len2: "length xs2 = length xs" using seg_perm_length [OF p(4)] w1(2) by simp
  have piv: "kat n xs2 (r - 1) = take n pivot"
    using seg_perm_kat [OF p(4), of "r - 1" n] m(4) w1(2) assms(2-4) by (auto simp: in_array_def)
  obtain xs3 where x3: "array_swap xs2 i (r - 1) = Some xs3" "seg_perm l r xs2 xs3"
      "\<And>k. 0 \<le> k \<Longrightarrow> xs3 ! nat k = (if k = i then xs2 ! nat (r - 1) else if k = r - 1 then xs2 ! nat i else xs2 ! nat k)"
    by (rule array_swap_Some [of xs2 i "r - 1" l r]) (use p(2,3) len2 assms(2-4) in \<open>auto simp: in_array_def\<close>)
  have k3: "kat n xs3 k = (if k = i then take n pivot else if k = r - 1 then kat n xs2 i else kat n xs2 k)" if "0 \<le> k" for k
    using x3(3) [OF that] piv by (simp add: kat_def)
  have "pivot_at n xs3 l i r"
    unfolding pivot_at_def using k3 p assms(2) by auto
  moreover have "seg_perm l r xs xs3"
    using seg_perm_trans [OF seg_perm_trans [OF m(2) seg_perm_mono [OF p(4)]] x3(2)] by simp
  ultimately show ?thesis using that m(1) p(1-3) x3(1) by blast
qed

lemma quickSort_works:
  assumes "keys_wf n xs" and "0 \<le> l" and "r < int (length xs)"
  shows "\<exists>ys. quickSort n xs l r = Some ys \<and> seg_perm l r xs ys \<and> sorted_seg n ys l r"
  using assms
proof (induction n xs l r rule: quickSort.induct)
  case (1 n xs l r)
  consider "l + 1 < r" | "l + 1 = r" | "r \<le> l" by linarith
  then show ?case
  proof cases
    case 1
    obtain pivot xs1 i xs2 xs3 where p: "median n xs l r = Some (pivot, xs1)"
        "partition_loop n xs1 pivot l (r - 1) = Some (i, xs2)" "array_swap xs2 i (r - 1) = Some xs3"
        "l < i" "i \<le> r - 1" "seg_perm l r xs xs3" "pivot_at n xs3 l i r"
      by (rule partition_step [OF "1.prems"(1,2) 1 "1.prems"(3)])
    have w3: "keys_wf n xs3" "length xs3 = length xs"
      using "1.prems"(1) seg_perm_keys_wf [OF p(6)] seg_perm_length [OF p(6)] by auto
    obtain xs4 where x4: "quickSort n xs3 l (i - 1) = Some xs4" "seg_perm l (i - 1) xs3 xs4" "sorted_seg n xs4 l (i - 1)"
      using "1.IH"(1) [OF 1 p(1) refl p(2) refl p(3) w3(1) "1.prems"(2)] w3(2) p(5) "1.prems"(3) by auto
    have w4: "keys_wf n xs4" "length xs4 = length xs"
      using w3 seg_perm_keys_wf [OF x4(2)] seg_perm_length [OF x4(2)] by auto
    obtain xs5 where x5: "quickSort n xs4 (i + 1) r = Some xs5" "seg_perm (i + 1) r xs4 xs5" "sorted_seg n xs5 (i + 1) r"
      using "1.IH"(2) [OF 1 p(1) refl p(2) refl p(3) x4(1) w4(1)] w4(2) p(4) "1.prems"(2,3) by auto
    have "sorted_seg n xs5 l r"
      by (rule sorted_halves [OF p(7) "1.prems"(2) _ _ _ x4(2,3) x5(2,3)]) (use p(4,5) w3(2) "1.prems"(3) in auto)
    moreover have "seg_perm l r xs xs5"
      using seg_perm_trans [OF seg_perm_trans [OF p(6) seg_perm_mono [OF x4(2)]] seg_perm_mono [OF x5(2)]] p(4,5) by auto
    moreover have "quickSort n xs l r = Some xs5"
      using 1 p(1-3) x4(1) x5(1) by (simp add: quickSort.simps [of n xs l r])
    ultimately show ?thesis by blast
  next
    case 2
    then have b: "in_array xs l" "in_array xs r" "l \<le> r" using "1.prems" by (auto simp: in_array_def)
    obtain ys where ys: "order_at n xs l r = Some ys" "seg_perm l r xs ys" "kat n ys l \<le> kat n ys r"
      by (rule order_at_works [OF "1.prems"(1) b(1,2) order_refl b(3) b(3) order_refl])
    have "sorted_seg n ys l r"
    proof (rule sorted_segI)
      fix i j assume "l \<le> i" "i \<le> j" "j \<le> r"
      then consider "i = j" | "i = l" "j = r" using 2 by linarith
      then show "kat n ys i \<le> kat n ys j" using ys(3) by cases auto
    qed
    then show ?thesis using ys 2 by (simp add: quickSort.simps [of n xs l r])
  next
    case 3
    then show ?thesis by (simp add: quickSort.simps [of n xs l r] sorted_seg_trivial)
  qed
qed

end
