(* ===== verification/Sort_Heap.thy ===== *)
theory Sort_Heap
  imports Sort_Qsort
begin

text \<open>
  The heap sort of \<^verbatim>\<open>Qsort.cpp\<close>.  The children of the element at \<^verbatim>\<open>root\<close> are those at \<^verbatim>\<open>root * 2\<close> and
  \<^verbatim>\<open>root * 2 + 1\<close>, counted from 0, so the element at 0 is its own first child and has the one at 1 as its only
  other child.
\<close>

section \<open>The algorithm\<close>

definition max_child :: "nat \<Rightarrow> RecKeyBuffer list \<Rightarrow> int \<Rightarrow> int \<Rightarrow> int option" where
  "max_child n xs root bottom =
     (if root * 2 = bottom then Some (root * 2)
      else do { c \<leftarrow> compare_at n xs (root * 2) (root * 2 + 1);
                Some (if c \<ge> KEY1_IS_GREATER then root * 2 else root * 2 + 1) })"

function siftDown :: "nat \<Rightarrow> RecKeyBuffer list \<Rightarrow> int \<Rightarrow> int \<Rightarrow> RecKeyBuffer list option" where
  "siftDown n xs root bottom =
     (if root * 2 \<le> bottom then
        (case max_child n xs root bottom of
           None \<Rightarrow> None
         | Some maxChild \<Rightarrow>
             (case compare_at n xs root maxChild of
                None \<Rightarrow> None
              | Some c \<Rightarrow>
                  if c \<le> KEY1_IS_SMALLER
                  then array_swap xs root maxChild \<bind> (\<lambda>ys. siftDown n ys maxChild bottom)
                  else Some xs))
      else Some xs)"
  by pat_completeness auto
termination
proof (relation "measure (\<lambda>(n, xs, root, bottom). nat (bottom - root))", goal_cases)
  case (2 n xs root bottom maxChild c ys)
  then have "0 \<le> root" "maxChild \<noteq> root" by (auto dest!: compare_at_SomeD simp: in_array_def)
  moreover have "maxChild = root * 2 \<or> maxChild = root * 2 + 1 \<and> root * 2 \<noteq> bottom"
    using 2(2) by (auto simp: max_child_def tm_run split: if_splits)
  ultimately have "root < maxChild" "maxChild \<le> bottom" using 2(1) by auto
  then show ?case by simp
qed simp

declare siftDown.simps [simp del]

text \<open>The two loops of \<^verbatim>\<open>heapSort\<close>; both count down.\<close>

function heap_build :: "nat \<Rightarrow> RecKeyBuffer list \<Rightarrow> int \<Rightarrow> int \<Rightarrow> RecKeyBuffer list option" where
  "heap_build n xs i runsize =
     (if i \<ge> 0 then siftDown n xs i (runsize - 1) \<bind> (\<lambda>ys. heap_build n ys (i - 1) runsize) else Some xs)"
  by pat_completeness auto
termination by (relation "measure (\<lambda>(n, xs, i, runsize). nat (i + 1))") auto

function heap_drain :: "nat \<Rightarrow> RecKeyBuffer list \<Rightarrow> int \<Rightarrow> RecKeyBuffer list option" where
  "heap_drain n xs i =
     (if i \<ge> 1
      then array_swap xs 0 i \<bind> (\<lambda>ys. siftDown n ys 0 (i - 1) \<bind> (\<lambda>zs. heap_drain n zs (i - 1)))
      else Some xs)"
  by pat_completeness auto
termination by (relation "measure (\<lambda>(n, xs, i). nat i)") auto

declare heap_build.simps [simp del] heap_drain.simps [simp del]

definition heapSort :: "nat \<Rightarrow> RecKeyBuffer list \<Rightarrow> int \<Rightarrow> RecKeyBuffer list option" where
  "heapSort n xs runsize =
     heap_build n xs (runsize div 2) runsize \<bind> (\<lambda>ys. heap_drain n ys (runsize - 1))"

section \<open>The heap order\<close>

text \<open>Every element is at most its parent, as far as the parent is not before \<^verbatim>\<open>s\<close>.\<close>

definition heap_from :: "nat \<Rightarrow> RecKeyBuffer list \<Rightarrow> int \<Rightarrow> int \<Rightarrow> bool" where
  "heap_from n xs s b = (\<forall>k. 1 \<le> k \<longrightarrow> k \<le> b \<longrightarrow> s \<le> k div 2 \<longrightarrow> kat n xs k \<le> kat n xs (k div 2))"

text \<open>
  The order while the element at \<^verbatim>\<open>root\<close> sinks: it may be smaller than its children, which
  are at most its parent.
\<close>

definition heap_hole :: "nat \<Rightarrow> RecKeyBuffer list \<Rightarrow> int \<Rightarrow> int \<Rightarrow> int \<Rightarrow> bool" where
  "heap_hole n xs s root b =
     ((\<forall>k. 1 \<le> k \<longrightarrow> k \<le> b \<longrightarrow> s \<le> k div 2 \<longrightarrow> k div 2 \<noteq> root \<longrightarrow> kat n xs k \<le> kat n xs (k div 2))
      \<and> (\<forall>k. 1 \<le> k \<longrightarrow> k \<le> b \<longrightarrow> k div 2 = root \<longrightarrow> 1 \<le> root \<longrightarrow> s \<le> root div 2 \<longrightarrow> kat n xs k \<le> kat n xs (root div 2)))"

lemma heap_from_max:
  assumes "heap_from n xs 0 b" and "0 \<le> k" "k \<le> b"
  shows "kat n xs k \<le> kat n xs 0"
  using assms(2,3)
proof (induction "nat k" arbitrary: k rule: less_induct)
  case less
  show ?case
  proof (cases "k = 0")
    case False
    then have "kat n xs k \<le> kat n xs (k div 2)" using assms(1) less.prems by (auto simp: heap_from_def)
    also have "\<dots> \<le> kat n xs 0" using less.hyps [of "k div 2"] less.prems False by auto
    finally show ?thesis .
  qed simp
qed

lemma max_child_works:
  assumes "keys_wf n xs" and "0 \<le> root" "root * 2 \<le> b" "b < int (length xs)"
  obtains m where "max_child n xs root b = Some m" and "m div 2 = root" "m \<le> b" "in_array xs m"
    and "\<And>k. k \<le> b \<Longrightarrow> k div 2 = root \<Longrightarrow> kat n xs k \<le> kat n xs m"
proof (cases "root * 2 = b")
  case True
  show ?thesis
  proof (rule that [of "root * 2"])
    fix k assume "k \<le> b" "k div 2 = root"
    then have "k = root * 2" using True by auto
    then show "kat n xs k \<le> kat n xs (root * 2)" by simp
  qed (use True assms in \<open>auto simp: max_child_def in_array_def\<close>)
next
  case False
  then have b: "in_array xs (root * 2)" "in_array xs (root * 2 + 1)" using assms by (auto simp: in_array_def)
  obtain c where c: "compare_at n xs (root * 2) (root * 2 + 1) = Some c"
      "1 \<le> c \<longleftrightarrow> kat n xs (root * 2 + 1) < kat n xs (root * 2)"
    by (rule compare_at_in [OF assms(1) b])
  show ?thesis
  proof (rule that [of "if 1 \<le> c then root * 2 else root * 2 + 1"])
    fix k assume "k div 2 = root"
    then have "k = root * 2 \<or> k = root * 2 + 1" by auto
    then show "kat n xs k \<le> kat n xs (if 1 \<le> c then root * 2 else root * 2 + 1)" using c(2) by auto
  qed (use c b False assms(3) in \<open>auto simp: max_child_def\<close>)
qed

text \<open>The larger child takes the place of its parent, and the order is broken one level further down.\<close>

lemma heap_hole_sink:
  assumes h: "heap_hole n xs s root b" and b: "0 \<le> s" "s \<le> root" "m div 2 = root" "m \<le> b" "root < m"
    and m: "\<And>k. k \<le> b \<Longrightarrow> k div 2 = root \<Longrightarrow> kat n xs k \<le> kat n xs m" and lt: "kat n xs root < kat n xs m"
    and ky: "\<And>k. 0 \<le> k \<Longrightarrow>
      kat n ys k = (if k = root then kat n xs m else if k = m then kat n xs root else kat n xs k)"
  shows "heap_hole n ys s m b"
  unfolding heap_hole_def
proof (intro conjI allI impI)
  fix k assume k: "1 \<le> k" "k \<le> b" "s \<le> k div 2" "k div 2 \<noteq> m"
  show "kat n ys k \<le> kat n ys (k div 2)"
  proof (cases "k div 2 = root")
    case True
    then have "k \<noteq> root" using k by auto
    then show ?thesis using True ky [of k] ky [of root] k m [of k] lt b(1,2) by (auto simp: less_imp_le)
  next
    case False
    then have "kat n xs k \<le> kat n xs (k div 2)" using h k unfolding heap_hole_def by blast
    moreover have "kat n xs m \<le> kat n xs (root div 2)" if "k = root"
      using h k b that unfolding heap_hole_def by auto
    moreover have "k \<noteq> m" using False b(3) by auto
    ultimately show ?thesis using False ky [of k] ky [of "k div 2"] k by auto
  qed
next
  fix k assume k: "1 \<le> k" "k \<le> b" "k div 2 = m" "1 \<le> m" "s \<le> m div 2"
  then have "k \<noteq> root" "k \<noteq> m" using b(5) by auto
  moreover have "kat n xs k \<le> kat n xs m" using h k b unfolding heap_hole_def by auto
  ultimately show "kat n ys k \<le> kat n ys (m div 2)" using ky [of k] ky [of root] k b by auto
qed

lemma siftDown_works:
  assumes "keys_wf n xs" and "0 \<le> s" "s \<le> root" "b < int (length xs)" and "heap_hole n xs s root b"
  shows "\<exists>ys. siftDown n xs root b = Some ys \<and> seg_perm root b xs ys \<and> heap_from n ys s b"
  using assms
proof (induction n xs root b rule: siftDown.induct)
  case (1 n xs root b)
  show ?case
  proof (cases "root * 2 \<le> b")
    case False
    then have "k div 2 \<noteq> root" if "k \<le> b" for k using that by auto
    then show ?thesis using False "1.prems"(5) by (auto simp: siftDown.simps [of n xs root b] heap_hole_def heap_from_def)
  next
    case True
    obtain m where m: "max_child n xs root b = Some m" "m div 2 = root" "m \<le> b" "in_array xs m"
        "\<And>k. k \<le> b \<Longrightarrow> k div 2 = root \<Longrightarrow> kat n xs k \<le> kat n xs m"
      using max_child_works [OF "1.prems"(1) _ True "1.prems"(4)] "1.prems"(2,3) by (metis order_trans)
    have r: "in_array xs root" using "1.prems" True by (auto simp: in_array_def)
    obtain c where c: "compare_at n xs root m = Some c" "c \<le> - 1 \<longleftrightarrow> kat n xs root < kat n xs m"
      by (rule compare_at_in [OF "1.prems"(1) r m(4)])
    show ?thesis
    proof (cases "c \<le> - 1")
      case False
      then have "kat n xs k \<le> kat n xs root" if "k \<le> b" "k div 2 = root" for k
        using m(5) [OF that] c(2) by auto
      then have "heap_from n xs s b" using "1.prems"(5) unfolding heap_from_def heap_hole_def by metis
      then show ?thesis using True False m(1) c(1) by (auto simp: siftDown.simps [of n xs root b])
    next
      case sink: True
      then have ne: "m \<noteq> root" using c(2) by auto
      then have lt: "root < m" using m(2) "1.prems"(2,3) by auto
      obtain ys where ys: "array_swap xs root m = Some ys" "seg_perm root b xs ys"
          "\<And>k. 0 \<le> k \<Longrightarrow> ys ! nat k = (if k = root then xs ! nat m else if k = m then xs ! nat root else xs ! nat k)"
        by (rule array_swap_Some [OF r m(4), of root b]) (use lt m(3) in auto)
      have ky: "kat n ys k = (if k = root then kat n xs m else if k = m then kat n xs root else kat n xs k)" if "0 \<le> k" for k
        using ys(3) [OF that] by (simp add: kat_def)
      have "heap_hole n ys s m b"
        by (rule heap_hole_sink [OF "1.prems"(5,2,3) m(2,3) lt m(5) _ ky]) (use sink c(2) in auto)
      moreover have "keys_wf n ys" "length ys = length xs"
        using "1.prems"(1) seg_perm_keys_wf [OF ys(2)] seg_perm_length [OF ys(2)] by auto
      ultimately obtain zs where zs: "siftDown n ys m b = Some zs" "seg_perm m b ys zs" "heap_from n zs s b"
        using "1.IH" [OF True m(1) c(1) sink ys(1)] "1.prems"(2-4) lt by auto
      have "seg_perm root b xs zs" using seg_perm_trans [OF ys(2) seg_perm_mono [OF zs(2)]] lt by auto
      then show ?thesis using zs True m(1) c(1) sink ys(1) by (auto simp: siftDown.simps [of n xs root b])
    qed
  qed
qed

section \<open>Correctness\<close>

lemma heap_from_hole:
  assumes "heap_from n xs (i + 1) b" and "0 \<le> i"
  shows "heap_hole n xs i i b"
  using assms by (auto simp: heap_from_def heap_hole_def)

lemma heap_build_works:
  assumes "keys_wf n xs" and "runsize = int (length xs)" and "heap_from n xs (i + 1) (runsize - 1)"
  shows "\<exists>ys. heap_build n xs i runsize = Some ys \<and> mset ys = mset xs \<and> heap_from n ys 0 (runsize - 1)"
  using assms
proof (induction n xs i runsize rule: heap_build.induct)
  case (1 n xs i runsize)
  show ?case
  proof (cases "0 \<le> i")
    case True
    obtain ys where ys: "siftDown n xs i (runsize - 1) = Some ys" "seg_perm i (runsize - 1) xs ys" "heap_from n ys i (runsize - 1)"
      using siftDown_works [OF "1.prems"(1) True order_refl _ heap_from_hole [OF "1.prems"(3) True]] "1.prems"(2) by auto
    have "keys_wf n ys" "runsize = int (length ys)" "mset ys = mset xs"
      using "1.prems"(1,2) seg_perm_keys_wf [OF ys(2)] seg_perm_length [OF ys(2)] ys(2) by (auto simp: seg_perm_def)
    then show ?thesis
      using "1.IH" [OF True ys(1)] ys True by (subst heap_build.simps) auto
  next
    case False
    then have "heap_from n xs 0 (runsize - 1)" using "1.prems"(3) by (auto simp: heap_from_def)
    then show ?thesis using False by (simp add: heap_build.simps [of n xs i runsize])
  qed
qed

lemma heap_drain_works:
  assumes "keys_wf n xs" and "i < int (length xs)" and "heap_from n xs 0 i"
    and "sorted_seg n xs (i + 1) (int (length xs) - 1)"
    and "\<And>a b. 0 \<le> a \<Longrightarrow> a \<le> i \<Longrightarrow> i < b \<Longrightarrow> b < int (length xs) \<Longrightarrow> kat n xs a \<le> kat n xs b"
  shows "\<exists>ys. heap_drain n xs i = Some ys \<and> mset ys = mset xs \<and> sorted_seg n ys 0 (int (length xs) - 1)"
  using assms
proof (induction n xs i rule: heap_drain.induct)
  case (1 n xs i)
  let ?e = "int (length xs) - 1"
  show ?case
  proof (cases "1 \<le> i")
    case True
    have b: "in_array xs 0" "in_array xs i" using True "1.prems"(2) by (auto simp: in_array_def)
    obtain ys where ys: "array_swap xs 0 i = Some ys" "seg_perm 0 i xs ys"
        "\<And>k. 0 \<le> k \<Longrightarrow> ys ! nat k = (if k = 0 then xs ! nat i else if k = i then xs ! nat 0 else xs ! nat k)"
      by (rule array_swap_Some [OF b, of 0 i]) (use True in auto)
    have ky: "kat n ys k = (if k = 0 then kat n xs i else if k = i then kat n xs 0 else kat n xs k)" if "0 \<le> k" for k
      using ys(3) [OF that] by (simp add: kat_def)
    have w: "keys_wf n ys" "length ys = length xs"
      using "1.prems"(1) seg_perm_keys_wf [OF ys(2)] seg_perm_length [OF ys(2)] by auto
    have "heap_hole n ys 0 0 (i - 1)"
      using "1.prems"(3) ky by (auto simp: heap_hole_def heap_from_def)
    then obtain zs where zs: "siftDown n ys 0 (i - 1) = Some zs" "seg_perm 0 (i - 1) ys zs" "heap_from n zs 0 (i - 1)"
      using siftDown_works [OF w(1), of 0 0 "i - 1"] w(2) "1.prems"(2) by auto
    have kz: "kat n zs k = kat n ys k" if "i \<le> k" "k \<le> ?e" for k
      using seg_perm_kat [OF zs(2), of k n] that True w(2) by (auto simp: in_array_def)
    have "kval n (zs ! nat a) \<le> kat n xs 0" if "0 \<le> a" "a \<le> i - 1" for a
      by (rule seg_perm_all [OF zs(2)])
        (use that w(2) "1.prems"(2) heap_from_max [OF "1.prems"(3)] ky True in \<open>auto simp: kat_def [symmetric]\<close>)
    then have top: "kat n zs a \<le> kat n zs i" if "0 \<le> a" "a \<le> i - 1" for a
      using that kz [of i] ky [of i] True "1.prems"(2) by (auto simp: kat_def)
    have high: "kat n zs a \<le> kat n zs c" if "i \<le> a" "a \<le> c" "c \<le> ?e" for a c
      using that kz [of a] kz [of c] ky [of a] ky [of c] True "1.prems"(5) [of 0 c] "1.prems"(4)
      by (cases "a = i") (auto simp: sorted_seg_def)
    have "sorted_seg n zs (i - 1 + 1) ?e" using high by (auto simp: sorted_seg_def)
    moreover have "kat n zs a \<le> kat n zs c" if "0 \<le> a" "a \<le> i - 1" "i - 1 < c" "c < int (length zs)" for a c
      using top [OF that(1,2)] high [of i c] that seg_perm_length [OF zs(2)] w(2) by auto
    moreover have "keys_wf n zs" "length zs = length xs" "mset zs = mset xs"
      using w seg_perm_keys_wf [OF zs(2)] seg_perm_length [OF zs(2)] zs(2) ys(2) by (auto simp: seg_perm_def)
    ultimately show ?thesis
      using "1.IH" [OF True ys(1) zs(1)] zs ys True "1.prems"(2) by (auto simp: heap_drain.simps [of n xs i])
  next
    case False
    have "kat n xs a \<le> kat n xs c" if ac: "0 \<le> a" "a \<le> c" "c \<le> ?e" for a c
    proof -
      consider "a = c" | "a \<le> i" "i < c" | "i < a" using ac False by linarith
      then show ?thesis using ac "1.prems"(4) "1.prems"(5) [of a c] by cases (auto simp: sorted_seg_def)
    qed
    then show ?thesis using False by (auto simp: heap_drain.simps [of n xs i] sorted_seg_def)
  qed
qed

lemma heapSort_works:
  assumes "keys_wf n xs"
  shows "\<exists>ys. heapSort n xs (int (length xs)) = Some ys \<and> mset ys = mset xs
    \<and> sorted_seg n ys 0 (int (length xs) - 1)"
proof -
  let ?m = "int (length xs)"
  have "heap_from n xs (?m div 2 + 1) (?m - 1)"
    unfolding heap_from_def
  proof (intro allI impI)
    fix k assume "k \<le> ?m - 1" "?m div 2 + 1 \<le> k div 2"
    moreover from this have "k div 2 \<le> (?m - 1) div 2" by (intro zdiv_mono1) auto
    ultimately show "kat n xs k \<le> kat n xs (k div 2)" using zdiv_mono1 [of "?m - 1" ?m 2] by simp
  qed
  then obtain ys where ys: "heap_build n xs (?m div 2) ?m = Some ys" "mset ys = mset xs" "heap_from n ys 0 (?m - 1)"
    using heap_build_works [OF assms refl] by blast
  have w: "keys_wf n ys" "length ys = length xs"
    using assms ys(2) by (auto simp: keys_wf_def dest: mset_eq_setD mset_eq_length)
  then show ?thesis
    using heap_drain_works [OF w(1), of "?m - 1"] ys sorted_seg_trivial by (auto simp: heapSort_def)
qed

end
