(* ===== verification/Sort_Iter.thy ===== *)
theory Sort_Iter
  imports Sort_Qsort
begin

text \<open>
  The quicksort with an explicit stack of \<^verbatim>\<open>Qsort.cpp\<close>.  The stack is an array of \<^verbatim>\<open>runSize_\<close> pairs; the model
  keeps its elements, the top first, and a push beyond the array is \<^const>\<open>None\<close>.
\<close>

section \<open>The algorithm\<close>

definition stack_push :: "nat \<Rightarrow> int \<times> int \<Rightarrow> (int \<times> int) list \<Rightarrow> (int \<times> int) list option" where
  "stack_push cap p st = (if length st < cap then Some (p # st) else None)"

text \<open>The \<^verbatim>\<open>for\<close> loop that collects the smaller elements behind \<^verbatim>\<open>left\<close>.\<close>

function iter_part ::
  "nat \<Rightarrow> RecKeyBuffer list \<Rightarrow> int \<Rightarrow> int \<Rightarrow> int \<Rightarrow> int \<Rightarrow> (int \<times> RecKeyBuffer list) option" where
  "iter_part n xs left lst i right =
     (if i \<le> right then
        do { c \<leftarrow> compare_at n xs i left;
             if c \<le> KEY1_IS_SMALLER
             then array_swap xs (lst + 1) i \<bind> (\<lambda>ys. iter_part n ys left (lst + 1) (i + 1) right)
             else iter_part n xs left lst (i + 1) right }
      else Some (lst, xs))"
  by pat_completeness auto
termination by (relation "measure (\<lambda>(n, xs, left, lst, i, right). nat (right + 1 - i))") auto

declare iter_part.simps [simp del]

definition iter_split :: "nat \<Rightarrow> RecKeyBuffer list \<Rightarrow> int \<Rightarrow> int \<Rightarrow> (int \<times> RecKeyBuffer list) option" where
  "iter_split n xs left right =
     do { xs1 \<leftarrow> array_swap xs left ((left + right) div 2);
          (lst, xs2) \<leftarrow> iter_part n xs1 left left (left + 1) right;
          xs3 \<leftarrow> array_swap xs2 left lst;
          Some (lst, xs3) }"

lemma iter_part_bounds:
  assumes "iter_part n xs left lst i right = Some (lst', ys)" and "left \<le> lst" "lst < i" "i \<le> right + 1"
  shows "left \<le> lst' \<and> lst' \<le> right"
  using assms
proof (induction n xs left lst i right rule: iter_part.induct)
  case (1 n xs left lst i right)
  show ?case
    using 1 by (auto simp: iter_part.simps [of n xs left lst i right] tm_run split: if_splits)
qed

lemma iter_split_bounds:
  assumes "iter_split n xs left right = Some (lst, ys)" and "left < right"
  shows "left \<le> lst" and "lst \<le> right"
  using assms iter_part_bounds [of n _ left left "left + 1" right] by (auto simp: iter_split_def tm_run)

definition interval_work :: "int \<times> int \<Rightarrow> nat" where
  "interval_work p = 2 * nat (snd p - fst p + 1) + 1"

function iter_loop :: "nat \<Rightarrow> nat \<Rightarrow> RecKeyBuffer list \<Rightarrow> (int \<times> int) list \<Rightarrow> RecKeyBuffer list option" where
  "iter_loop n cap xs [] = None"
| "iter_loop n cap xs ((left, right) # st) =
     (if left = - 1 \<and> right = - 1 then Some xs
      else if left < right then
        (case iter_split n xs left right of
           None \<Rightarrow> None
         | Some (lst, ys) \<Rightarrow>
             (case stack_push cap (left, lst - 1) st \<bind> stack_push cap (lst + 1, right) of
                None \<Rightarrow> None
              | Some st' \<Rightarrow> iter_loop n cap ys st'))
      else iter_loop n cap xs st)"
  by pat_completeness auto
termination
proof (relation "measure (\<lambda>(n, cap, xs, st). sum_list (map interval_work st))", goal_cases)
  case (2 n cap xs left right st x lst ys st')
  then have "left \<le> lst" "lst \<le> right" using iter_split_bounds [of n xs left right lst ys] by auto
  moreover have "st' = (lst + 1, right) # (left, lst - 1) # st"
    using 2 by (auto simp: stack_push_def tm_run split: if_splits)
  ultimately show ?case using 2(2) by (simp add: interval_work_def)
qed (auto simp: interval_work_def)

declare iter_loop.simps [simp del]

definition iterativeQuickSort :: "nat \<Rightarrow> nat \<Rightarrow> RecKeyBuffer list \<Rightarrow> int \<Rightarrow> int \<Rightarrow> RecKeyBuffer list option" where
  "iterativeQuickSort n runSize xs left right =
     (if left \<ge> right then Some xs
      else do { st \<leftarrow> stack_push runSize (- 1, - 1) []; st' \<leftarrow> stack_push runSize (left, right) st;
                iter_loop n runSize xs st' })"

section \<open>Correctness with enough stack\<close>

text \<open>Behind \<^verbatim>\<open>left\<close> come the smaller elements up to \<^verbatim>\<open>last\<close>, then the others up to \<^verbatim>\<open>i\<close>.\<close>

lemma iter_part_works:
  assumes "keys_wf n xs" and "0 \<le> l" "r < int (length xs)" and "l \<le> lst" "lst < i" "i \<le> r + 1"
    and "\<And>k. l < k \<Longrightarrow> k \<le> lst \<Longrightarrow> kat n xs k < kat n xs l"
    and "\<And>k. lst < k \<Longrightarrow> k < i \<Longrightarrow> kat n xs l \<le> kat n xs k"
  shows "\<exists>lst' ys. iter_part n xs l lst i r = Some (lst', ys) \<and> l \<le> lst' \<and> lst' \<le> r \<and> seg_perm (l + 1) r xs ys
    \<and> (\<forall>k. l < k \<longrightarrow> k \<le> lst' \<longrightarrow> kat n ys k < kat n ys l)
    \<and> (\<forall>k. lst' < k \<longrightarrow> k \<le> r \<longrightarrow> kat n ys l \<le> kat n ys k)"
  using assms
proof (induction n xs l lst i r rule: iter_part.induct)
  case (1 n xs l lst i r)
  show ?case
  proof (cases "i \<le> r")
    case True
    have b: "in_array xs i" "in_array xs l" "in_array xs (lst + 1)" using "1.prems" True by (auto simp: in_array_def)
    obtain c where c: "compare_at n xs i l = Some c" "c \<le> - 1 \<longleftrightarrow> kat n xs i < kat n xs l"
      by (rule compare_at_in [OF "1.prems"(1) b(1,2)])
    show ?thesis
    proof (cases "c \<le> - 1")
      case small: True
      obtain ys where ys: "array_swap xs (lst + 1) i = Some ys" "seg_perm (l + 1) r xs ys"
          "\<And>k. 0 \<le> k \<Longrightarrow> ys ! nat k = (if k = lst + 1 then xs ! nat i else if k = i then xs ! nat (lst + 1) else xs ! nat k)"
        by (rule array_swap_Some [OF b(3,1), of "l + 1" r]) (use "1.prems" True in auto)
      have ky: "kat n ys k = (if k = lst + 1 then kat n xs i else if k = i then kat n xs (lst + 1) else kat n xs k)" if "0 \<le> k" for k
        using ys(3) [OF that] by (simp add: kat_def)
      have l: "kat n ys l = kat n xs l" using ky [of l] "1.prems" by auto
      have "kat n ys k < kat n ys l" if "l < k" "k \<le> lst + 1" for k
        using that ky [of k] l "1.prems"(2,5,7) small c(2) by auto
      moreover have "kat n ys l \<le> kat n ys k" if "lst + 1 < k" "k < i + 1" for k
        using that ky [of k] l "1.prems"(2,4,5) "1.prems"(8) [of k] "1.prems"(8) [of "lst + 1"] by auto
      moreover have "keys_wf n ys" "length ys = length xs"
        using "1.prems"(1) seg_perm_keys_wf [OF ys(2)] seg_perm_length [OF ys(2)] by auto
      ultimately obtain lst' zs where "iter_part n ys l (lst + 1) (i + 1) r = Some (lst', zs)" "l \<le> lst'" "lst' \<le> r"
          "seg_perm (l + 1) r ys zs" "\<forall>k. l < k \<longrightarrow> k \<le> lst' \<longrightarrow> kat n zs k < kat n zs l"
          "\<forall>k. lst' < k \<longrightarrow> k \<le> r \<longrightarrow> kat n zs l \<le> kat n zs k"
        using "1.IH"(1) [OF True c(1) small ys(1)] "1.prems"(2-6) True by auto
      then show ?thesis
        using seg_perm_trans [OF ys(2)] True c(1) small ys(1)
        by (intro exI [of _ lst'] exI [of _ zs]) (auto simp: iter_part.simps [of n xs l lst i r])
    next
      case False
      have "kat n xs l \<le> kat n xs k" if "lst < k" "k < i + 1" for k
        using that "1.prems"(8) [of k] False c(2) by (cases "k = i") auto
      then obtain lst' zs where "iter_part n xs l lst (i + 1) r = Some (lst', zs)" "l \<le> lst'" "lst' \<le> r"
          "seg_perm (l + 1) r xs zs" "\<forall>k. l < k \<longrightarrow> k \<le> lst' \<longrightarrow> kat n zs k < kat n zs l"
          "\<forall>k. lst' < k \<longrightarrow> k \<le> r \<longrightarrow> kat n zs l \<le> kat n zs k"
        using "1.IH"(2) [OF True c(1) False] "1.prems" True by auto
      then show ?thesis
        using True c(1) False
        by (intro exI [of _ lst'] exI [of _ zs]) (auto simp: iter_part.simps [of n xs l lst i r])
    qed
  next
    case False
    then show ?thesis using "1.prems" by (simp add: iter_part.simps [of n xs l lst i r])
  qed
qed

lemma iter_split_works:
  assumes "keys_wf n xs" and "0 \<le> l" "l < r" "r < int (length xs)"
  obtains lst ys where "iter_split n xs l r = Some (lst, ys)" and "l \<le> lst" "lst \<le> r"
    and "seg_perm l r xs ys" and "pivot_at n ys l lst r"
proof -
  have b: "in_array zs l" "in_array zs ((l + r) div 2)" if "length zs = length xs" for zs :: "RecKeyBuffer list"
    using assms that by (auto simp: in_array_def)
  obtain xs1 where x1: "array_swap xs l ((l + r) div 2) = Some xs1" "seg_perm l r xs xs1"
    by (rule array_swap_Some [OF b [OF refl], of l r]) (use assms in auto)
  have w1: "keys_wf n xs1" "length xs1 = length xs"
    using assms(1) seg_perm_keys_wf [OF x1(2)] seg_perm_length [OF x1(2)] by auto
  obtain lst xs2 where x2: "iter_part n xs1 l l (l + 1) r = Some (lst, xs2)" "l \<le> lst" "lst \<le> r"
      "seg_perm (l + 1) r xs1 xs2" "\<forall>k. l < k \<longrightarrow> k \<le> lst \<longrightarrow> kat n xs2 k < kat n xs2 l"
      "\<forall>k. lst < k \<longrightarrow> k \<le> r \<longrightarrow> kat n xs2 l \<le> kat n xs2 k"
    using iter_part_works [OF w1(1) assms(2), of r l "l + 1"] w1(2) assms(3,4) by auto
  have b2: "in_array xs2 l" "in_array xs2 lst"
    using seg_perm_length [OF x2(4)] w1(2) x2(2,3) assms by (auto simp: in_array_def)
  obtain ys where ys: "array_swap xs2 l lst = Some ys" "seg_perm l r xs2 ys"
      "\<And>k. 0 \<le> k \<Longrightarrow> ys ! nat k = (if k = l then xs2 ! nat lst else if k = lst then xs2 ! nat l else xs2 ! nat k)"
    by (rule array_swap_Some [OF b2, of l r]) (use x2(2,3) in auto)
  have ky: "kat n ys k = (if k = l then kat n xs2 lst else if k = lst then kat n xs2 l else kat n xs2 k)" if "0 \<le> k" for k
    using ys(3) [OF that] by (simp add: kat_def)
  have "pivot_at n ys l lst r"
    unfolding pivot_at_def using ky x2(2,3,5,6) assms(2) by (auto simp: less_imp_le)
  moreover have "seg_perm l r xs ys"
    using seg_perm_trans [OF seg_perm_trans [OF x1(2) seg_perm_mono [OF x2(4)]] ys(2)] by simp
  ultimately show ?thesis using that x1(1) x2(1-3) ys(1) by (simp add: iter_split_def)
qed

text \<open>
  The loop sorts the interval on top of the stack and goes on with the rest, provided the stack
  has room for as many pairs as the interval has elements.
\<close>

lemma iter_loop_sorts:
  assumes "keys_wf n xs" and "0 \<le> l" "r < int (length xs)"
    and "l < r \<Longrightarrow> length st + nat (r - l + 1) \<le> cap"
  shows "\<exists>ys. iter_loop n cap xs ((l, r) # st) = iter_loop n cap ys st \<and> seg_perm l r xs ys \<and> sorted_seg n ys l r"
  using assms
proof (induction "nat (r - l + 1)" arbitrary: xs l r st rule: less_induct)
  case less
  show ?case
  proof (cases "l < r")
    case True
    obtain lst xs1 where p: "iter_split n xs l r = Some (lst, xs1)" "l \<le> lst" "lst \<le> r" "seg_perm l r xs xs1" "pivot_at n xs1 l lst r"
      by (rule iter_split_works [OF less.prems(1,2) True less.prems(3)])
    have w1: "keys_wf n xs1" "length xs1 = length xs"
      using less.prems(1) seg_perm_keys_wf [OF p(4)] seg_perm_length [OF p(4)] by auto
    have "nat (r - lst) + 1 \<le> nat (r - l + 1)" "2 \<le> nat (r - l + 1)" "nat (lst - l) \<le> nat (r - l + 1)"
      using p(2,3) True by auto
    then have cap: "length st + 2 \<le> cap" "Suc (length st + nat (r - lst)) \<le> cap" "length st + nat (lst - l) \<le> cap" using less.prems(4) [OF True] by auto
    have step: "iter_loop n cap xs ((l, r) # st) = iter_loop n cap xs1 ((lst + 1, r) # (l, lst - 1) # st)"
      using True p(1) less.prems(2) cap(1) by (simp add: iter_loop.simps(2) stack_push_def)
    obtain xs2 where x2: "iter_loop n cap xs1 ((lst + 1, r) # (l, lst - 1) # st) = iter_loop n cap xs2 ((l, lst - 1) # st)"
        "seg_perm (lst + 1) r xs1 xs2" "sorted_seg n xs2 (lst + 1) r"
      using less.hyps [of r "lst + 1" xs1 "(l, lst - 1) # st"] w1 p(2,3) less.prems(2,3) True cap(2) by auto
    have w2: "keys_wf n xs2" "length xs2 = length xs"
      using w1 seg_perm_keys_wf [OF x2(2)] seg_perm_length [OF x2(2)] by auto
    obtain xs3 where x3: "iter_loop n cap xs2 ((l, lst - 1) # st) = iter_loop n cap xs3 st"
        "seg_perm l (lst - 1) xs2 xs3" "sorted_seg n xs3 l (lst - 1)"
      using less.hyps [of "lst - 1" l xs2 st] w2 p(2,3) less.prems(2,3) True cap(3) by auto
    have "pivot_at n xs3 l lst r"
      by (rule pivot_at_perm_low [OF pivot_at_perm_high [OF p(5) x2(2) less.prems(2) p(2,3)] x3(2) less.prems(2) p(2,3)])
        (use w1 w2 less.prems(3) in auto)
    moreover have "sorted_seg n xs3 (lst + 1) r"
      by (rule seg_perm_sorted_outside [OF x3(2) x2(3)]) (use p(2) w2 less.prems(2,3) in auto)
    ultimately have "sorted_seg n xs3 l r" using sorted_seg_join [OF x3(3)] by (auto simp: pivot_at_def)
    moreover have "seg_perm l r xs xs3"
      using seg_perm_trans [OF seg_perm_trans [OF p(4) seg_perm_mono [OF x2(2)]] seg_perm_mono [OF x3(2)]] p(2,3) by auto
    ultimately show ?thesis using step x2(1) x3(1) by auto
  next
    case False
    then have "iter_loop n cap xs ((l, r) # st) = iter_loop n cap xs st" using less.prems(2) by (simp add: iter_loop.simps(2))
    then show ?thesis using False sorted_seg_trivial [of r l n xs] by auto
  qed
qed

text \<open>A larger stack changes nothing in a run that stays inside the smaller one.\<close>

lemma iter_loop_mono:
  assumes "iter_loop n cap xs st = Some ys" and "cap \<le> cap'"
  shows "iter_loop n cap' xs st = Some ys"
  using assms
proof (induction n cap xs st rule: iter_loop.induct)
  case (2 n cap xs left right st)
  show ?case
  proof (cases "left < right")
    case True
    then show ?thesis
    proof (cases "left = - 1 \<and> right = - 1")
      case False
      then obtain lst zs st' where p: "iter_split n xs left right = Some (lst, zs)"
          "stack_push cap (left, lst - 1) st \<bind> stack_push cap (lst + 1, right) = Some st'"
          "iter_loop n cap zs st' = Some ys"
        using True "2.prems"(1) by (auto simp: iter_loop.simps(2) split: option.splits if_splits)
      then have "stack_push cap' (left, lst - 1) st \<bind> stack_push cap' (lst + 1, right) = Some st'"
        using "2.prems"(2) by (auto simp: stack_push_def tm_run split: if_splits)
      then show ?thesis
        using "2.IH"(1) [OF False True p(1) refl p(2,3) "2.prems"(2)] p(1) True by (auto simp: iter_loop.simps(2))
    qed simp
  next
    case False
    then show ?thesis using 2 by (auto simp: iter_loop.simps(2) split: if_splits)
  qed
qed (simp add: iter_loop.simps(1))

lemma iter_loop_whole:
  assumes "keys_wf n xs" and "Suc (length xs) \<le> cap"
  shows "\<exists>ys. iter_loop n cap xs [(0, int (length xs) - 1), (- 1, - 1)] = Some ys \<and> mset ys = mset xs
    \<and> sorted_seg n ys 0 (int (length xs) - 1)"
  using iter_loop_sorts [OF assms(1), of 0 "int (length xs) - 1" "[(- 1, - 1)]" cap] assms(2)
  by (auto simp: iter_loop.simps(2) seg_perm_def)

section \<open>The stack of the code\<close>

text \<open>
  C39: The stack of the iterative quicksort is one pair too short.  It is allocated with a pair for each element; on a
  run of two records, whatever they are, the pushes after the first partition go beyond it.  With one pair more the
  same loop sorts every run.
\<close>

theorem iterative_stack_too_small:
  assumes "keys_wf n xs"
  shows "(length xs = 2 \<longrightarrow> iterativeQuickSort n (length xs) xs 0 (int (length xs) - 1) = None)
    \<and> (\<exists>ys. iter_loop n (Suc (length xs)) xs [(0, int (length xs) - 1), (- 1, - 1)] = Some ys
          \<and> mset ys = mset xs \<and> map (kval n) ys = sort (map (kval n) xs))"
proof
  show "\<exists>ys. iter_loop n (Suc (length xs)) xs [(0, int (length xs) - 1), (- 1, - 1)] = Some ys
      \<and> mset ys = mset xs \<and> map (kval n) ys = sort (map (kval n) xs)"
    using iter_loop_whole [OF assms order_refl] sorted_seg_sort by blast
  show "length xs = 2 \<longrightarrow> iterativeQuickSort n (length xs) xs 0 (int (length xs) - 1) = None"
    by (simp add: iterativeQuickSort_def stack_push_def iter_loop.simps(2) split: option.split)
qed

theorem iterative_stack_too_small_witness:
  "\<exists>xs. keys_wf 1 xs \<and> length xs = 2 \<and> iterativeQuickSort 1 (length xs) xs 0 (int (length xs) - 1) = None"
proof -
  let ?b = "\<lambda>k. \<lparr> rk_key = [k], rk_rec = \<lparr> rc_rec = [k], rc_recSize = 1, rc_tupp = None \<rparr> \<rparr>"
  have w: "keys_wf 1 [?b 1, ?b 2]" and l: "length [?b 1, ?b 2] = 2" by (simp_all add: keys_wf_def)
  from mp [OF conjunct1 [OF iterative_stack_too_small [OF w]] l] w l show ?thesis by blast
qed

end
