(* ===== verification/Sort_Util.thy ===== *)
theory Sort_Util
  imports Sort_Schedule Sort_Heap Sort_Iter
begin

text \<open>
  The sort as its client sees it (\<^verbatim>\<open>Qsort.cpp\<close>, \<^verbatim>\<open>SortUtil.cpp\<close>): records are sent, the array of keys is doubled or
  written to scratch as a run when it is full, the end of the input sorts what is left and starts the merge phase, and the
  records are received.  The answers of the memory quota and of the heap are arguments, as functions of the run number and the
  size of the array: with both of them fixed the question comes up once.  \<^const>\<open>None\<close> is a call that does not return, after a failed
  \<^verbatim>\<open>ex_assert\<close> or an access outside an array.
\<close>

section \<open>The code\<close>

record qsort_config =
  qc_sort :: sort_config
  qc_blockSize :: nat
  qc_perBuffer :: nat
  qc_mmap :: bool
  qc_quotaEnabled :: bool
  qc_sortMaxMem :: nat
  qc_sizeofRecKeyBuffer :: nat
  qc_sizeofRecord :: nat
  qc_useQS :: bool
  qc_useIterHeap :: bool
  qc_consumeMemoryQuota :: "nat \<Rightarrow> nat \<Rightarrow> bool"
  qc_allocateMemory :: "nat \<Rightarrow> nat \<Rightarrow> bool"

text \<open>The entries of \<^verbatim>\<open>recKeys_\<close> below \<^verbatim>\<open>loopIndex_\<close>; the scratch space is made when the first run is written.\<close>

record Qsort =
  q_recKeys :: "RecKeyBuffer list"
  q_allocRunSize :: nat
  q_currentRun :: nat
  q_internalSort :: bool
  q_sendNotDone :: bool
  q_isIterativeSort :: bool
  q_runSize :: nat
  q_recNum :: nat
  q_scratch :: "SortScratchSpace option"

abbreviation (input) MAX_ALLOC_SIZE :: nat where "MAX_ALLOC_SIZE \<equiv> 127 * 1024 * 1024"

definition qsort_new :: "bool \<Rightarrow> nat \<Rightarrow> Qsort" where
  "qsort_new iterSort runsize =
     \<lparr> q_recKeys = [], q_allocRunSize = 1000000, q_currentRun = 1, q_internalSort = True, q_sendNotDone = True,
       q_isIterativeSort = iterSort, q_runSize = runsize, q_recNum = 0, q_scratch = None \<rparr>"

definition rec_new :: "byte list \<Rightarrow> nat option \<Rightarrow> sort_rec" where
  "rec_new bytes tupp = \<lparr> rc_rec = bytes, rc_recSize = length bytes, rc_tupp = tupp \<rparr>"

definition key_buffer :: "qsort_config \<Rightarrow> sort_rec \<Rightarrow> RecKeyBuffer" where
  "key_buffer g r = \<lparr> rk_key = extractKey (cf_numberOfBytesForRecordSize (qc_sort g)) r, rk_rec = r \<rparr>"

definition sort_keys :: "qsort_config \<Rightarrow> RecKeyBuffer list \<Rightarrow> RecKeyBuffer list option" where
  "sort_keys g xs =
     (let runSize = length xs; n = cf_keySize (qc_sort g)
      in if runSize = 1 then Some xs
         else if qc_useQS g then quickSort n xs 0 (int runSize - 1)
         else if qc_useIterHeap g then heapSort n xs (int runSize)
         else iterativeQuickSort n runSize xs 0 (int runSize - 1))"

definition generateARun :: "scratch_env \<Rightarrow> qsort_config \<Rightarrow> Qsort \<Rightarrow> Qsort outcome option" where
  "generateARun e g q =
     (case sort_keys g (q_recKeys q) of
        None \<Rightarrow> None
      | Some xs \<Rightarrow>
          let q1 = q\<lparr> q_recKeys := xs, q_runSize := length xs \<rparr>
          in if q_internalSort q1 then Some (Done q1)
             else case q_scratch q1 of
                    None \<Rightarrow> None
                  | Some s \<Rightarrow>
                      (case write_records e (q_currentRun q1) (map (rc_rec \<circ> rk_rec) xs) s of
                         None \<Rightarrow> None
                       | Some (rc, s1) \<Rightarrow>
                           if rc \<noteq> SCRATCH_SUCCESS then Some SortFailure
                           else case flushRun e True s1 of (rc2, s2) \<Rightarrow>
                                  if rc2 = SCRATCH_FAILURE then Some SortFailure
                                  else Some (Done (q1\<lparr> q_recKeys := [], q_currentRun := q_currentRun q1 + 1, q_scratch := Some s2 \<rparr>))))"

definition overflow_to_scratch :: "scratch_env \<Rightarrow> qsort_config \<Rightarrow> Qsort \<Rightarrow> Qsort outcome option" where
  "overflow_to_scratch e g q =
     generateARun e g
       (q\<lparr> q_internalSort := False,
          q_scratch := (case q_scratch q of None \<Rightarrow> Some (scratch_new (qc_blockSize g) (qc_perBuffer g)) | Some s \<Rightarrow> Some s) \<rparr>)"

text \<open>Whether the array can be doubled; the estimate is kept in 32 bits.\<close>

definition may_double :: "qsort_config \<Rightarrow> Qsort \<Rightarrow> bool" where
  "may_double g q =
     (let size = q_allocRunSize q; estimateSize = 2 * size * (qc_sizeofRecKeyBuffer g + qc_sizeofRecord g) mod 2 ^ 32
      in (if qc_quotaEnabled g
          then \<not> (2 * size * qc_sizeofRecKeyBuffer g > MAX_ALLOC_SIZE \<or> 2 * size * qc_sizeofRecord g > MAX_ALLOC_SIZE
                  \<or> \<not> qc_consumeMemoryQuota g (q_currentRun q) size)
          else estimateSize < qc_sortMaxMem g)
         \<and> qc_allocateMemory g (q_currentRun q) size)"

definition qsort_sortSend :: "scratch_env \<Rightarrow> qsort_config \<Rightarrow> byte list \<Rightarrow> nat option \<Rightarrow> Qsort \<Rightarrow> Qsort outcome option" where
  "qsort_sortSend e g bytes tupp q =
     (if \<not> (length (q_recKeys q) < q_allocRunSize q \<and> q_sendNotDone q) then None
      else let q1 = q\<lparr> q_recKeys := q_recKeys q @ [key_buffer g (rec_new bytes tupp)] \<rparr>
           in if length (q_recKeys q1) < q_allocRunSize q1 then Some (Done q1)
              else if qc_mmap g then overflow_to_scratch e g q1
              else if \<not> q_isIterativeSort q1 then Some SortFailure
              else if may_double g q1 then Some (Done (q1\<lparr> q_allocRunSize := 2 * q_allocRunSize q1 \<rparr>))
              else overflow_to_scratch e g q1)"

definition qsort_sortSendEnd :: "scratch_env \<Rightarrow> qsort_config \<Rightarrow> Qsort \<Rightarrow> Qsort outcome option" where
  "qsort_sortSendEnd e g q =
     (if \<not> (length (q_recKeys q) < q_allocRunSize q \<and> q_sendNotDone q) then None
      else generateARun e g (q\<lparr> q_sendNotDone := False \<rparr>))"

definition qsort_sortReceive :: "Qsort \<Rightarrow> byte list option \<times> Qsort" where
  "qsort_sortReceive q =
     (if q_recNum q < q_runSize q
      then (Some (rc_rec (rk_rec (q_recKeys q ! q_recNum q))), q\<lparr> q_recNum := q_recNum q + 1 \<rparr>)
      else (None, q))"

subsection \<open>The utility\<close>

datatype SortAlgo = Algo_Qsort Qsort | Algo_Tree "SortScratchSpace tree"

definition sortInitialize :: "nat \<Rightarrow> Qsort" where
  "sortInitialize runSize = qsort_new True runSize"

definition sortSend :: "scratch_env \<Rightarrow> qsort_config \<Rightarrow> byte list \<Rightarrow> nat option \<Rightarrow> Qsort \<Rightarrow> Qsort outcome option" where
  "sortSend e g bytes tupp q = qsort_sortSend e g bytes tupp q"

definition sortClientOutOfMem :: "scratch_env \<Rightarrow> qsort_config \<Rightarrow> Qsort \<Rightarrow> Qsort outcome option" where
  "sortClientOutOfMem e g q =
     (case overflow_to_scratch e g q of
        Some (Done q') \<Rightarrow> Some (Done (q'\<lparr> q_internalSort := False \<rparr>))
      | r \<Rightarrow> r)"

definition sortSendEnd ::
  "scratch_env \<Rightarrow> qsort_config \<Rightarrow> bool \<Rightarrow> bool \<Rightarrow> (nat \<Rightarrow> bool) \<Rightarrow> nat \<Rightarrow> Qsort \<Rightarrow> SortAlgo outcome option" where
  "sortSendEnd e g cleanup quota alloc estimate q =
     (case qsort_sortSendEnd e g q of
        None \<Rightarrow> None
      | Some SortFailure \<Rightarrow> Some SortFailure
      | Some (Done q') \<Rightarrow>
          if q_internalSort q' then Some (Done (Algo_Qsort q'))
          else case q_scratch q' of
                 None \<Rightarrow> None
               | Some s \<Rightarrow>
                   (case sortSendEndProcessing e (qc_sort g) cleanup quota alloc estimate s of
                      None \<Rightarrow> None
                    | Some SortFailure \<Rightarrow> Some SortFailure
                    | Some (Done t) \<Rightarrow> Some (Done (Algo_Tree t))))"

text \<open>The client that receives: \<open>n\<close> calls, and whether the end was reached.\<close>

fun qsort_receive_all :: "nat \<Rightarrow> Qsort \<Rightarrow> byte list list \<times> bool" where
  "qsort_receive_all 0 q = ([], False)"
| "qsort_receive_all (Suc n) q =
     (case qsort_sortReceive q of
        (Some r, q') \<Rightarrow> (case qsort_receive_all n q' of (rs, over) \<Rightarrow> (r # rs, over))
      | (None, _) \<Rightarrow> ([], True))"

fun receive_sorted :: "scratch_env \<Rightarrow> qsort_config \<Rightarrow> nat \<Rightarrow> SortAlgo \<Rightarrow> (byte list list \<times> bool) option" where
  "receive_sorted e g n (Algo_Qsort q) = Some (qsort_receive_all n q)"
| "receive_sorted e g n (Algo_Tree t) =
     receive_all (qc_sort g)
       (readSortMergeNode e (cf_numberOfBytesForRecordSize (qc_sort g)) (cf_recSize (qc_sort g))) n t"

section \<open>Sorting the array\<close>

text \<open>The quicksort and the heapsort; the iterative quicksort overruns its stack.\<close>

lemma sort_keys_works:
  assumes "keys_wf (cf_keySize (qc_sort g)) xs" and "qc_useQS g \<or> qc_useIterHeap g"
  shows "\<exists>ys. sort_keys g xs = Some ys \<and> mset ys = mset xs \<and> sorted (map (kval (cf_keySize (qc_sort g))) ys)"
proof -
  let ?n = "cf_keySize (qc_sort g)" and ?r = "int (length xs) - 1"
  have srt: "sorted (map (kval ?n) ys)" if "sorted_seg ?n ys 0 ?r" "mset ys = mset xs" for ys
    using sorted_seg_sort [OF that] by simp
  consider "length xs = 1" | "length xs \<noteq> 1" "qc_useQS g" | "length xs \<noteq> 1" "\<not> qc_useQS g" "qc_useIterHeap g"
    using assms(2) by blast
  then show ?thesis
  proof cases
    case 1
    then obtain x where "xs = [x]" by (auto simp: length_Suc_conv)
    then show ?thesis by (simp add: sort_keys_def)
  next
    case 2
    then show ?thesis
      using quickSort_works [OF assms(1), of 0 ?r] srt by (auto simp: sort_keys_def Let_def seg_perm_def)
  next
    case 3
    then show ?thesis using heapSort_works [OF assms(1)] srt by (auto simp: sort_keys_def Let_def)
  qed
qed

section \<open>The invariant of the send phase\<close>

definition pending :: "Qsort \<Rightarrow> byte list list" where
  "pending q = map (rc_rec \<circ> rk_rec) (q_recKeys q)"

definition sendable :: "qsort_config \<Rightarrow> byte list \<Rightarrow> bool" where
  "sendable g r = (rec_good (qc_sort g) (qc_blockSize g) r \<and> rec_long (qc_sort g) r)"

definition usable :: "scratch_env \<Rightarrow> qsort_config \<Rightarrow> bool" where
  "usable e g = (writable e \<and> readable e \<and> 1 \<le> qc_perBuffer g \<and> (qc_useQS g \<or> qc_useIterHeap g))"

definition runs_of :: "scratch_env \<Rightarrow> qsort_config \<Rightarrow> Qsort \<Rightarrow> byte list list list \<Rightarrow> bool" where
  "runs_of e g q rss =
     (case q_scratch q of
        None \<Rightarrow> rss = []
      | Some s \<Rightarrow> live_ok e (qc_sort g) (qc_blockSize g) (qc_perBuffer g) 0 s 0 rss)"

text \<open>\<open>recs\<close> are the records sent so far: those in the runs and those in the array.\<close>

definition send_base :: "scratch_env \<Rightarrow> qsort_config \<Rightarrow> Qsort \<Rightarrow> byte list list \<Rightarrow> byte list list list \<Rightarrow> bool" where
  "send_base e g q recs rss =
     (usable e g \<and> q_sendNotDone q \<and> q_isIterativeSort q \<and> q_recNum q = 0 \<and> 0 < q_allocRunSize q
      \<and> q_internalSort q = (q_scratch q = None) \<and> q_currentRun q = Suc (length rss)
      \<and> (\<forall>b \<in> set (q_recKeys q). b = key_buffer g (rk_rec b)) \<and> (\<forall>r \<in> set recs. sendable g r)
      \<and> mset recs = mset (concat rss) + mset (pending q)
      \<and> runs_of e g q rss \<and> (\<forall>rs \<in> set rss. run_good (qc_sort g) (qc_blockSize g) rs))"

definition send_inv :: "scratch_env \<Rightarrow> qsort_config \<Rightarrow> Qsort \<Rightarrow> byte list list \<Rightarrow> bool" where
  "send_inv e g q recs = (length (q_recKeys q) < q_allocRunSize q \<and> (\<exists>rss. send_base e g q recs rss))"

lemma key_buffer_key:
  assumes "b = key_buffer g (rk_rec b)"
  shows "rk_key b = drop (cf_numberOfBytesForRecordSize (qc_sort g)) (rc_rec (rk_rec b))"
  by (subst assms) (simp add: key_buffer_def extractKey_def)

lemma kval_buffer: "b = key_buffer g (rk_rec b) \<Longrightarrow> kval (cf_keySize (qc_sort g)) b = rec_key (qc_sort g) (rc_rec (rk_rec b))"
  by (simp only: key_buffer_key kval_def rec_key_def)

subsection \<open>Writing a run\<close>

lemma live_ok_new: "usable e g \<Longrightarrow> live_ok e (qc_sort g) bs (qc_perBuffer g) 0 (scratch_new bs (qc_perBuffer g)) 0 []"
  by (auto simp: usable_def live_ok_def between_def scratch_fixed_def pool_total_def idle_def runs_stored_def scratch_new_def
      intro!: exI [of _ "[]"])

lemma between_frame:
  assumes "between bs pb 0 s all" and "write_frame s s'" and "idle s'" and "runs_stored s' all'" and "sc_currentRun s' \<noteq> Suc (length all')"
  shows "between bs pb 0 s' all'"
  using assms by (auto simp: between_def scratch_fixed_def write_frame_def pool_total_def)

lemma live_ok_write:
  assumes "live_ok e c bs pb 0 s 0 rss" and "run_good c bs rs"
  shows "\<exists>s1 s2. write_records e (Suc (length rss)) rs s = Some (SCRATCH_SUCCESS, s1) \<and> flushRun e True s1 = (SCRATCH_SUCCESS, s2)
    \<and> live_ok e c bs pb 0 s2 0 (rss @ [rs])"
proof -
  have l: "writable e" "readable e" "1 \<le> pb" "between bs pb 0 s rss"
      "\<forall>rs \<in> set rss. \<forall>r \<in> set rs. rec_ok (cf_numberOfBytesForRecordSize c) (cf_recSize c) r"
    using assms(1) by (auto simp: live_ok_def)
  have b: "idle s" "runs_stored s rss" "sc_blockSize s = bs" "Suc (length rss) \<noteq> sc_currentRun s"
    using l(4) by (auto simp: between_def scratch_fixed_def)
  have g: "rs \<noteq> []" "\<forall>r \<in> set rs. fits s r" "\<forall>r \<in> set rs. rec_ok (cf_numberOfBytesForRecordSize c) (cf_recSize c) r"
    using assms(2) b(3) by (auto simp: run_good_def rec_good_def fits_def)
  obtain s1 s2 where w: "write_records e (Suc (length rss)) rs s = Some (SCRATCH_SUCCESS, s1)" "flushRun e True s1 = (SCRATCH_SUCCESS, s2)"
      "idle s2" "runs_stored s2 (rss @ [rs])" "sc_currentRun s2 = Suc (length rss)" "write_frame s s2"
    using write_run_works [OF b(1,2) l(1) g(1,2) b(4) refl] by blast
  have "between bs pb 0 s2 (rss @ [rs])" using between_frame [OF l(4) w(6,3,4)] w(5) by simp
  then have "live_ok e c bs pb 0 s2 0 (rss @ [rs])" using l g(3) by (auto simp: live_ok_def intro!: exI [of _ "rss @ [rs]"])
  then show ?thesis using w(1,2) by blast
qed

lemma live_ok_flush:
  assumes "live_ok e c bs pb 0 s 0 rss"
  shows "\<exists>s2. flushRun e True s = (SCRATCH_SUCCESS, s2) \<and> live_ok e c bs pb 0 s2 0 rss"
proof -
  have l: "writable e" "between bs pb 0 s rss" using assms by (auto simp: live_ok_def)
  then obtain s2 where f: "flushRun e True s = (SCRATCH_SUCCESS, s2)" "idle s2" "runs_stored s2 rss"
      "sc_currentRun s2 = sc_currentRun s" "write_frame s s2"
    using flush_empty_run [of s rss e] by (auto simp: between_def)
  have "between bs pb 0 s2 rss" using between_frame [OF l(2) f(5,2,3)] f(4) l(2) by (simp add: between_def)
  then show ?thesis using f(1) assms by (auto simp: live_ok_def)
qed

text \<open>The records of a run come in the order of their keys.\<close>

lemma sorted_run:
  assumes "usable e g" and "\<forall>b \<in> set xs. b = key_buffer g (rk_rec b)" and "\<forall>r \<in> set (map (rc_rec \<circ> rk_rec) xs). sendable g r"
  shows "\<exists>ys. sort_keys g xs = Some ys \<and> mset (map (rc_rec \<circ> rk_rec) ys) = mset (map (rc_rec \<circ> rk_rec) xs)
    \<and> sorted (map (rec_key (qc_sort g)) (map (rc_rec \<circ> rk_rec) ys))"
proof -
  let ?n = "cf_keySize (qc_sort g)"
  have "?n \<le> length (rk_key b)" if "b \<in> set xs" for b
    using that assms(3) key_buffer_key [OF bspec [OF assms(2) that]] by (simp add: sendable_def rec_long_def)
  then have "keys_wf ?n xs" by (simp add: keys_wf_def)
  then obtain ys where ys: "sort_keys g xs = Some ys" "mset ys = mset xs" "sorted (map (kval ?n) ys)"
    using sort_keys_works [of g xs] assms(1) by (auto simp: usable_def)
  have "set ys = set xs" using ys(2) by (rule mset_eq_setD)
  then have "map (kval ?n) ys = map (rec_key (qc_sort g)) (map (rc_rec \<circ> rk_rec) ys)"
    using assms(2) by (auto intro: kval_buffer)
  then show ?thesis using ys by (auto simp del: map_map)
qed

lemma generate_external:
  assumes "usable e g" and "\<not> q_internalSort q" and "q_scratch q = Some s" and "q_currentRun q = Suc (length rss)"
    and "live_ok e (qc_sort g) (qc_blockSize g) pb 0 s 0 rss"
    and "\<forall>b \<in> set (q_recKeys q). b = key_buffer g (rk_rec b)" and "\<forall>r \<in> set (pending q). sendable g r"
  shows "\<exists>s' rs. generateARun e g q = Some (Done (q\<lparr> q_recKeys := [], q_runSize := length (q_recKeys q),
        q_currentRun := Suc (q_currentRun q), q_scratch := Some s' \<rparr>))
    \<and> mset rs = mset (pending q) \<and> (rs \<noteq> [] \<longrightarrow> run_good (qc_sort g) (qc_blockSize g) rs)
    \<and> live_ok e (qc_sort g) (qc_blockSize g) pb 0 s' 0 (if rs = [] then rss else rss @ [rs])"
proof -
  obtain ys where ys: "sort_keys g (q_recKeys q) = Some ys" "mset (map (rc_rec \<circ> rk_rec) ys) = mset (pending q)"
      "sorted (map (rec_key (qc_sort g)) (map (rc_rec \<circ> rk_rec) ys))"
    using sorted_run [OF assms(1,6)] assms(7) by (auto simp: pending_def)
  let ?rs = "map (rc_rec \<circ> rk_rec) ys"
  have len: "length ys = length (q_recKeys q)" using arg_cong [OF ys(2), of size] by (simp add: pending_def)
  have good: "run_good (qc_sort g) (qc_blockSize g) ?rs" if "?rs \<noteq> []"
    using that ys(3) mset_eq_setD [OF ys(2)] assms(7) by (simp add: run_good_def stream_ok_def sendable_def del: map_map)
  have "\<exists>s1 s'. write_records e (q_currentRun q) ?rs s = Some (SCRATCH_SUCCESS, s1) \<and> flushRun e True s1 = (SCRATCH_SUCCESS, s')
      \<and> live_ok e (qc_sort g) (qc_blockSize g) pb 0 s' 0 (if ?rs = [] then rss else rss @ [?rs])"
  proof (cases "?rs = []")
    case True
    then show ?thesis using live_ok_flush [OF assms(5)] by auto
  next
    case False
    then show ?thesis using live_ok_write [OF assms(5) good [OF False]] assms(4) by auto
  qed
  then obtain s1 s' where w: "write_records e (q_currentRun q) ?rs s = Some (SCRATCH_SUCCESS, s1)" "flushRun e True s1 = (SCRATCH_SUCCESS, s')"
      "live_ok e (qc_sort g) (qc_blockSize g) pb 0 s' 0 (if ?rs = [] then rss else rss @ [?rs])"
    by blast
  have "generateARun e g q = Some (Done (q\<lparr> q_recKeys := [], q_runSize := length (q_recKeys q),
        q_currentRun := Suc (q_currentRun q), q_scratch := Some s' \<rparr>))"
    using ys(1) w(1,2) assms(2,3) len by (simp add: generateARun_def)
  then show ?thesis using ys(2) good w(3) by blast
qed

subsection \<open>The operations of the send phase\<close>

lemma send_base_pending:
  assumes "send_base e g q recs rss"
  shows "\<forall>r \<in> set (pending q). sendable g r"
proof
  fix r assume "r \<in> set (pending q)"
  then have "r \<in># mset recs" using assms by (simp add: send_base_def)
  then show "sendable g r" using assms by (simp add: send_base_def)
qed

lemma overflow_works:
  assumes "send_base e g q recs rss" and "pending q \<noteq> []"
  shows "\<exists>q'. overflow_to_scratch e g q = Some (Done q') \<and> send_inv e g q' recs \<and> \<not> q_internalSort q'"
proof -
  define s where "s = (case q_scratch q of None \<Rightarrow> scratch_new (qc_blockSize g) (qc_perBuffer g) | Some s \<Rightarrow> s)"
  define q1 where "q1 = q\<lparr> q_internalSort := False, q_scratch := Some s \<rparr>"
  let ?live = "live_ok e (qc_sort g) (qc_blockSize g) (qc_perBuffer g) 0"
  have u: "usable e g" using assms(1) by (simp add: send_base_def)
  have l: "?live s 0 rss"
    using assms(1) live_ok_new [OF u] by (auto simp: s_def send_base_def runs_of_def split: option.splits)
  have p: "pending q1 = pending q" by (simp add: q1_def pending_def)
  have q1: "\<not> q_internalSort q1" "q_scratch q1 = Some s" "q_currentRun q1 = Suc (length rss)"
      "\<forall>b \<in> set (q_recKeys q1). b = key_buffer g (rk_rec b)" "\<forall>r \<in> set (pending q1). sendable g r"
    using assms(1) send_base_pending [OF assms(1)] by (simp_all add: q1_def send_base_def pending_def)
  obtain s' rs where r: "generateARun e g q1 = Some (Done (q1\<lparr> q_recKeys := [], q_runSize := length (q_recKeys q1),
        q_currentRun := Suc (q_currentRun q1), q_scratch := Some s' \<rparr>))"
      "mset rs = mset (pending q1)" "rs \<noteq> [] \<longrightarrow> run_good (qc_sort g) (qc_blockSize g) rs" "?live s' 0 (if rs = [] then rss else rss @ [rs])"
    using generate_external [OF u q1(1-3) l q1(4,5)] by blast
  have ne: "rs \<noteq> []" using assms(2) r(2) p by auto
  have "overflow_to_scratch e g q = generateARun e g q1"
    by (simp add: overflow_to_scratch_def q1_def s_def split: option.split)
  moreover define q2 where "q2 = q1\<lparr> q_recKeys := [], q_runSize := length (q_recKeys q1), q_currentRun := Suc (q_currentRun q1),
      q_scratch := Some s' \<rparr>"
  have b: "send_base e g q2 recs (rss @ [rs])"
    using assms(1) r(2-4) ne p by (simp add: send_base_def runs_of_def q2_def q1_def pending_def ac_simps)
  moreover have "q_recKeys q2 = []" "\<not> q_internalSort q2" by (simp_all add: q2_def q1_def)
  moreover have "0 < q_allocRunSize q2" using b by (simp add: send_base_def)
  ultimately show ?thesis using r(1) [folded q2_def] unfolding send_inv_def by auto
qed

lemma sortSend_works:
  assumes "send_inv e g q recs" and "sendable g r"
  shows "\<exists>q'. sortSend e g r tupp q = Some (Done q') \<and> send_inv e g q' (r # recs)"
proof -
  obtain rss where i: "send_base e g q recs rss" and l: "length (q_recKeys q) < q_allocRunSize q" using assms(1) by (auto simp: send_inv_def)
  let ?q = "q\<lparr> q_recKeys := q_recKeys q @ [key_buffer g (rec_new r tupp)] \<rparr>"
  have base: "send_base e g (?q\<lparr> q_allocRunSize := n \<rparr>) (r # recs) rss" if "0 < n" for n
    using i assms(2) that by (simp add: send_base_def pending_def key_buffer_def rec_new_def runs_of_def)
  have q: "?q\<lparr> q_allocRunSize := q_allocRunSize q \<rparr> = ?q" by simp
  have b1: "send_base e g ?q (r # recs) rss" using base [of "q_allocRunSize q"] l by (metis q gr_implies_not0 gr0I)
  have "pending ?q \<noteq> []" by (simp add: pending_def)
  note ov = overflow_works [OF b1 this]
  have b2: "send_inv e g (?q\<lparr> q_allocRunSize := 2 * q_allocRunSize q \<rparr>) (r # recs)"
    using base [of "2 * q_allocRunSize q"] l by (auto simp: send_inv_def)
  have it: "q_sendNotDone q" "q_isIterativeSort q" using i by (simp_all add: send_base_def)
  have b3: "send_inv e g ?q (r # recs)" if "length (q_recKeys ?q) < q_allocRunSize ?q" using b1 that by (auto simp: send_inv_def)
  consider "length (q_recKeys ?q) < q_allocRunSize ?q" | "\<not> length (q_recKeys ?q) < q_allocRunSize ?q" "qc_mmap g"
    | "\<not> length (q_recKeys ?q) < q_allocRunSize ?q" "\<not> qc_mmap g" "may_double g ?q"
    | "\<not> length (q_recKeys ?q) < q_allocRunSize ?q" "\<not> qc_mmap g" "\<not> may_double g ?q"
    by blast
  then show ?thesis
    using b2 b3 ov l it by cases (simp_all add: sortSend_def qsort_sortSend_def Let_def, blast+)
qed

lemma sortClientOutOfMem_works:
  assumes "send_inv e g q recs" and "pending q \<noteq> []"
  shows "\<exists>q'. sortClientOutOfMem e g q = Some (Done q') \<and> send_inv e g q' recs"
proof -
  obtain rss where i: "send_base e g q recs rss" using assms(1) by (auto simp: send_inv_def)
  obtain q' where q': "overflow_to_scratch e g q = Some (Done q')" "send_inv e g q' recs" "\<not> q_internalSort q'"
    using overflow_works [OF i assms(2)] by blast
  have same: "q'\<lparr> q_internalSort := False \<rparr> = q'" using q'(3) by (cases q') simp
  show ?thesis using q'(1,2) unfolding sortClientOutOfMem_def by (simp add: same)
qed

subsection \<open>The end of the input\<close>

definition algo_sorted :: "scratch_env \<Rightarrow> qsort_config \<Rightarrow> byte list list \<Rightarrow> SortAlgo \<Rightarrow> bool" where
  "algo_sorted e g recs a =
     (\<forall>n. \<exists>rs over. receive_sorted e g n a = Some (rs, over) \<and> merged (qc_sort g) [recs] rs over
        \<and> (prompt e \<longrightarrow> length recs < n \<longrightarrow> over))"

lemma qsort_receive_all_take:
  assumes "q_runSize q = length (q_recKeys q)" and "q_recNum q \<le> q_runSize q"
  shows "qsort_receive_all n q = (take n (drop (q_recNum q) (pending q)), q_runSize q - q_recNum q < n)"
  using assms
proof (induction n arbitrary: q)
  case (Suc n)
  show ?case
  proof (cases "q_recNum q < q_runSize q")
    case True
    let ?q = "q\<lparr> q_recNum := q_recNum q + 1 \<rparr>"
    have d: "drop (q_recNum q) (pending q) = pending q ! q_recNum q # drop (Suc (q_recNum q)) (pending q)"
      using True Suc.prems(1) by (intro Cons_nth_drop_Suc [symmetric]) (simp add: pending_def)
    have n: "pending q ! q_recNum q = rc_rec (rk_rec (q_recKeys q ! q_recNum q))" using True Suc.prems(1) by (simp add: pending_def)
    have "pending ?q = pending q" by (simp add: pending_def)
    then show ?thesis using Suc.IH [of ?q] Suc.prems True by (auto simp: qsort_sortReceive_def d n)
  next
    case False
    then show ?thesis using Suc.prems by (simp add: qsort_sortReceive_def pending_def)
  qed
qed simp

lemma sorted_take_merged:
  assumes "sorted (map (rec_key c) xs)" and "mset xs = mset recs"
  shows "merged c [recs] (take n xs) (length xs < n)"
proof -
  have "sorted (take n (map (rec_key c) xs))" using assms(1) by (rule sorted_wrt_take)
  moreover have "mset (take n xs) \<subseteq># mset recs"
    by (metis append_take_drop_id assms(2) mset_append mset_subset_eq_add_left)
  ultimately show ?thesis using assms(2) by (simp add: merged_def take_map)
qed

lemma internal_end:
  assumes "send_base e g q recs rss" and "q_internalSort q"
  shows "\<exists>q'. generateARun e g (q\<lparr> q_sendNotDone := False \<rparr>) = Some (Done q') \<and> q_internalSort q' \<and> algo_sorted e g recs (Algo_Qsort q')"
proof -
  have u: "usable e g" and k: "\<forall>b \<in> set (q_recKeys q). b = key_buffer g (rk_rec b)" and n: "q_recNum q = 0"
    and m: "mset (pending q) = mset recs"
    using assms by (auto simp: send_base_def runs_of_def)
  obtain ys where ys: "sort_keys g (q_recKeys q) = Some ys" "mset (map (rc_rec \<circ> rk_rec) ys) = mset (pending q)"
      "sorted (map (rec_key (qc_sort g)) (map (rc_rec \<circ> rk_rec) ys))"
    using sorted_run [OF u k] send_base_pending [OF assms(1)] by (auto simp: pending_def)
  define q' where "q' = q\<lparr> q_sendNotDone := False, q_recKeys := ys, q_runSize := length ys \<rparr>"
  have p: "pending q' = map (rc_rec \<circ> rk_rec) ys" by (simp add: q'_def pending_def)
  have q': "q_runSize q' = length (q_recKeys q')" "q_recNum q' = 0" "q_runSize q' = length (pending q')"
    using n by (simp_all add: q'_def pending_def)
  have s: "sorted (map (rec_key (qc_sort g)) (pending q'))" "mset (pending q') = mset recs" using ys m by (simp_all add: p)
  have "length (pending q') = length recs" using s(2) by (rule mset_eq_length)
  then have "algo_sorted e g recs (Algo_Qsort q')"
    using qsort_receive_all_take [OF q'(1)] q' sorted_take_merged [OF s] by (simp add: algo_sorted_def)
  then show ?thesis using ys(1) assms(2) by (auto simp: generateARun_def q'_def)
qed

lemma external_end:
  assumes "send_base e g q recs rss" and "\<not> q_internalSort q"
  shows "\<exists>q' s' rss'. generateARun e g (q\<lparr> q_sendNotDone := False \<rparr>) = Some (Done q') \<and> \<not> q_internalSort q' \<and> q_scratch q' = Some s'
    \<and> live_ok e (qc_sort g) (qc_blockSize g) (qc_perBuffer g) 0 s' 0 rss' \<and> mset (concat rss') = mset recs
    \<and> (\<forall>rs \<in> set rss'. run_good (qc_sort g) (qc_blockSize g) rs) \<and> length rss' \<le> q_currentRun q"
proof -
  define q1 where "q1 = q\<lparr> q_sendNotDone := False \<rparr>"
  obtain s where s: "q_scratch q = Some s" using assms by (auto simp: send_base_def)
  have u: "usable e g" using assms(1) by (simp add: send_base_def)
  have l: "live_ok e (qc_sort g) (qc_blockSize g) (qc_perBuffer g) 0 s 0 rss"
    using assms(1) s by (simp add: send_base_def runs_of_def)
  have q1: "\<not> q_internalSort q1" "q_scratch q1 = Some s" "q_currentRun q1 = Suc (length rss)"
      "\<forall>b \<in> set (q_recKeys q1). b = key_buffer g (rk_rec b)" "\<forall>r \<in> set (pending q1). sendable g r"
    using assms s send_base_pending [OF assms(1)] by (simp_all add: q1_def send_base_def pending_def)
  obtain s' rs where r: "generateARun e g q1 = Some (Done (q1\<lparr> q_recKeys := [], q_runSize := length (q_recKeys q1),
        q_currentRun := Suc (q_currentRun q1), q_scratch := Some s' \<rparr>))"
      "mset rs = mset (pending q1)" "rs \<noteq> [] \<longrightarrow> run_good (qc_sort g) (qc_blockSize g) rs"
      "live_ok e (qc_sort g) (qc_blockSize g) (qc_perBuffer g) 0 s' 0 (if rs = [] then rss else rss @ [rs])"
    using generate_external [OF u q1(1-3) l q1(4,5)] by blast
  define q2 where "q2 = q1\<lparr> q_recKeys := [], q_runSize := length (q_recKeys q1), q_currentRun := Suc (q_currentRun q1),
      q_scratch := Some s' \<rparr>"
  have q2: "\<not> q_internalSort q2" "q_scratch q2 = Some s'" using q1(1) by (simp_all add: q2_def)
  let ?rss = "if rs = [] then rss else rss @ [rs]"
  have "mset (concat ?rss) = mset recs" using assms(1) r(2) by (auto simp: send_base_def q1_def pending_def)
  moreover have "\<forall>rs \<in> set ?rss. run_good (qc_sort g) (qc_blockSize g) rs" using assms(1) r(3) by (auto simp: send_base_def)
  moreover have "length ?rss \<le> q_currentRun q" using assms(1) by (simp add: send_base_def)
  ultimately show ?thesis using r(1) [folded q2_def] r(4) q2 unfolding q1_def [symmetric] by blast
qed

section \<open>The sort as a whole\<close>

text \<open>
  The send phase: the states a client can reach and the records it has sent.  The buffer of the client is full only after a
  record was sent.
\<close>

inductive sending :: "scratch_env \<Rightarrow> qsort_config \<Rightarrow> Qsort \<Rightarrow> byte list list \<Rightarrow> bool" for e g where
  sending_start: "sending e g (sortInitialize runSize) []"
| sending_send: "sending e g q recs \<Longrightarrow> sendable g r \<Longrightarrow> sortSend e g r tupp q = Some (Done q') \<Longrightarrow> sending e g q' (r # recs)"
| sending_out_of_mem: "sending e g q recs \<Longrightarrow> q_recKeys q \<noteq> [] \<Longrightarrow> sortClientOutOfMem e g q = Some (Done q') \<Longrightarrow> sending e g q' recs"

lemma sending_inv: "sending e g q recs \<Longrightarrow> usable e g \<Longrightarrow> send_inv e g q recs"
proof (induction rule: sending.induct)
  case (sending_start runSize)
  then show ?case by (auto simp: send_inv_def send_base_def sortInitialize_def qsort_new_def pending_def runs_of_def)
next
  case (sending_send q recs r tupp q')
  then show ?case using sortSend_works [of e g q recs r tupp] by auto
next
  case (sending_out_of_mem q recs q')
  then show ?case using sortClientOutOfMem_works [of e g q recs] by (auto simp: pending_def)
qed

lemma sending_continues:
  assumes "sending e g q recs" and "usable e g"
  shows "sendable g r \<Longrightarrow> \<exists>q'. sortSend e g r tupp q = Some (Done q') \<and> sending e g q' (r # recs)"
    and "q_recKeys q \<noteq> [] \<Longrightarrow> \<exists>q'. sortClientOutOfMem e g q = Some (Done q') \<and> sending e g q' recs"
  using sortSend_works [OF sending_inv [OF assms]] sortClientOutOfMem_works [OF sending_inv [OF assms]] assms(1)
  by (auto simp: pending_def intro: sending.intros) (metis sending_send)+

lemma setup_pool_alloc: "(\<forall>n. alloc n) \<Longrightarrow> setup_pool quota alloc M R s \<noteq> SortFailure"
  by (simp add: setup_pool_def Let_def)

lemma algo_sorted_tree:
  assumes "sorted_output e (qc_sort g) rs t" and "mset rs = mset recs"
  shows "algo_sorted e g recs (Algo_Tree t)"
  using sorted_output_cong [OF assms(2), of e "qc_sort g" t] assms(1) by (simp add: algo_sorted_def sorted_output_def)

text \<open>
  Keys whose bytes are all 0xFF are lost by intermediate merges: either there are none or the runs are few enough to be merged at once.
\<close>

definition mergeable :: "qsort_config \<Rightarrow> (nat \<Rightarrow> bool) \<Rightarrow> nat \<Rightarrow> Qsort \<Rightarrow> byte list list \<Rightarrow> bool" where
  "mergeable g alloc estimate q recs =
     ((\<forall>r \<in> set recs. rec_key (qc_sort g) r \<noteq> all_ones (qc_sort g)) \<or> q_currentRun q \<le> order_of estimate \<and> (\<forall>n. alloc n))"

lemma sortSendEnd_works:
  assumes "send_inv e g q recs" and "mergeable g alloc estimate q recs"
  shows "\<exists>out. sortSendEnd e g cleanup quota alloc estimate q = Some out \<and> ((\<forall>n. alloc n) \<longrightarrow> out \<noteq> SortFailure)
    \<and> (\<forall>a. out = Done a \<longrightarrow> algo_sorted e g recs a)"
proof -
  obtain rss where i: "send_base e g q recs rss" and l: "length (q_recKeys q) < q_allocRunSize q" using assms(1) by (auto simp: send_inv_def)
  have "q_sendNotDone q" using i by (simp add: send_base_def)
  then have e: "qsort_sortSendEnd e g q = generateARun e g (q\<lparr> q_sendNotDone := False \<rparr>)" using l by (simp add: qsort_sortSendEnd_def)
  show ?thesis
  proof (cases "q_internalSort q")
    case True
    then show ?thesis using internal_end [OF i True] e by (auto simp: sortSendEnd_def)
  next
    case False
    obtain q' s' rss' where x: "generateARun e g (q\<lparr> q_sendNotDone := False \<rparr>) = Some (Done q')" "\<not> q_internalSort q'" "q_scratch q' = Some s'"
        "live_ok e (qc_sort g) (qc_blockSize g) (qc_perBuffer g) 0 s' 0 rss'" "mset (concat rss') = mset recs"
        "\<forall>rs \<in> set rss'. run_good (qc_sort g) (qc_blockSize g) rs" "length rss' \<le> q_currentRun q"
      using external_end [OF i False] by blast
    have "run_low (qc_sort g) rs" if "rs \<in> set rss'" "\<forall>r \<in> set recs. rec_key (qc_sort g) r \<noteq> all_ones (qc_sort g)" for rs
    proof -
      have "rs \<noteq> []" using that(1) x(6) by (auto simp: run_good_def)
      then have "hd rs \<in> set (concat rss')" unfolding set_concat by (intro UN_I [OF that(1)]) simp
      then show ?thesis using that(2) mset_eq_setD [OF x(5)] unfolding run_low_def by blast
    qed
    then have few: "(\<forall>rs \<in> set rss'. run_low (qc_sort g) rs) \<or> length rss' \<le> order_of estimate \<and> alloc (length rss' * 2 * qc_perBuffer g)"
      using assms(2) x(7) by (auto simp: mergeable_def)
    show ?thesis
      using sortSendEndProcessing_works [OF x(4,6), of estimate alloc cleanup quota, OF few] algo_sorted_tree [OF _ x(5), of e g] e x(1-3) setup_pool_alloc
      by (auto simp: sortSendEnd_def)
  qed
qed

section \<open>Properties\<close>



definition small_sort :: qsort_config where
  "small_sort =
     \<lparr> qc_sort = small_config, qc_blockSize = 32, qc_perBuffer = 1, qc_mmap = False, qc_quotaEnabled = False, qc_sortMaxMem = 0,
       qc_sizeofRecKeyBuffer = 16, qc_sizeofRecord = 40, qc_useQS = True, qc_useIterHeap = False,
       qc_consumeMemoryQuota = (\<lambda>_ _. False), qc_allocateMemory = (\<lambda>_ _. False) \<rparr>"

lemma small_sort_usable: "usable (prompt_env True) small_sort"
  by (simp add: usable_def writable_def readable_def prompt_env_def small_sort_def)

lemma small_sort_sendable: "sendable small_sort [a, b]"
  by (simp add: sendable_def rec_good_def rec_ok_def rec_long_def small_sort_def small_config_def)

lemma small_sort_sending:
  "\<exists>q. sending (prompt_env True) small_sort q [[1, 2], [3, 4]] \<and> q_recKeys q \<noteq> [] \<and> \<not> q_internalSort q"
proof -
  note c = sending_continues [OF _ small_sort_usable] and r = small_sort_sendable
  obtain q1 where q1: "sortSend (prompt_env True) small_sort [3, 4] None (sortInitialize 0) = Some (Done q1)"
      "sending (prompt_env True) small_sort q1 [[3, 4]]"
    using c(1) [OF sending_start r] by blast
  then have "q_recKeys q1 \<noteq> []" by (auto simp: sortSend_def qsort_sortSend_def sortInitialize_def qsort_new_def)
  then obtain q2 where q2: "sortClientOutOfMem (prompt_env True) small_sort q1 = Some (Done q2)" "sending (prompt_env True) small_sort q2 [[3, 4]]"
    using c(2) [OF q1(2)] by blast
  have e: "q_recKeys q2 = []" "\<not> q_internalSort q2" "q_allocRunSize q2 = q_allocRunSize q1" "q_sendNotDone q2 = q_sendNotDone q1"
    using q2(1) by (auto simp: sortClientOutOfMem_def overflow_to_scratch_def generateARun_def Let_def
        split: option.splits outcome.splits if_splits prod.splits)
  obtain q3 where q3: "sortSend (prompt_env True) small_sort [1, 2] None q2 = Some (Done q3)"
      "sending (prompt_env True) small_sort q3 [[1, 2], [3, 4]]"
    using c(1) [OF q2(2) r] by blast
  have "q_allocRunSize q1 = 1000000 \<and> q_sendNotDone q1"
    using q1(1) by (auto simp: sortSend_def qsort_sortSend_def sortInitialize_def qsort_new_def)
  then have "q_recKeys q3 \<noteq> [] \<and> \<not> q_internalSort q3" using q3(1) e by (auto simp: sortSend_def qsort_sortSend_def)
  then show ?thesis using q3(2) by blast
qed



text \<open>
  C8: The sort of the array agrees with the library's sort.  With the recursive quicksort or the heapsort configured, the array that
  \<^verbatim>\<open>generateARun\<close> works on ends up with the same elements, their keys in the order \<^const>\<open>sort\<close> gives; a run of any length,
  the empty one included, is sorted without an access outside the array.
\<close>

theorem sort_keys_is_sort:
  assumes "keys_wf (cf_keySize (qc_sort g)) xs" and "qc_useQS g \<or> qc_useIterHeap g"
  shows "\<exists>ys. sort_keys g xs = Some ys \<and> mset ys = mset xs
    \<and> map (kval (cf_keySize (qc_sort g))) ys = sort (map (kval (cf_keySize (qc_sort g))) xs)"
proof -
  obtain ys where "sort_keys g xs = Some ys" "mset ys = mset xs" "sorted (map (kval (cf_keySize (qc_sort g))) ys)"
    using sort_keys_works [OF assms] by blast
  then show ?thesis by (intro exI [of _ ys] conjI properties_for_sort [symmetric]) simp_all
qed

theorem sort_keys_is_sort_witness:
  "\<exists>ys. sort_keys small_sort [key_buffer small_sort (rec_new [3, 4] None), key_buffer small_sort (rec_new [1, 2] None)] = Some ys
     \<and> map (kval 1) ys = [[1], [3]]"
  using sort_keys_is_sort [of small_sort "[key_buffer small_sort (rec_new [3, 4] None), key_buffer small_sort (rec_new [1, 2] None)]"]
  by (auto simp: keys_wf_def small_sort_def small_config_def key_buffer_def rec_new_def extractKey_def kval_def)

lemma small_sort_buffer:
  "rc_rec (rk_rec (key_buffer small_sort (rec_new bytes tupp))) = bytes" "qc_blockSize small_sort = 32" "qc_perBuffer small_sort = 1"
  by (simp_all add: small_sort_def key_buffer_def rec_new_def)

lemma two_keys_sorted:
  "sort_keys small_sort [key_buffer small_sort (rec_new [3, 4] None), key_buffer small_sort (rec_new [1, 2] None)] =
     Some [key_buffer small_sort (rec_new [1, 2] None), key_buffer small_sort (rec_new [3, 4] None)]"
  by code_simp

lemma no_keys_sorted: "sort_keys small_sort [] = Some []"
  by code_simp

text \<open>
  A client that reports its buffer full before it has sent a record breaks the numbering of the runs.  The empty run is counted by
  \<^verbatim>\<open>currentRun_\<close> and not by the directory of runs, so the run of the two records sent next is entered in the directory twice,
  with the same first block: the merge phase will see two runs where one was written.
\<close>

theorem empty_run_breaks_numbering:
  "\<exists>q1 q2 q3 q4 s. sortClientOutOfMem (prompt_env True) small_sort (sortInitialize 0) = Some (Done q1)
     \<and> sortSend (prompt_env True) small_sort [3, 4] None q1 = Some (Done q2)
     \<and> sortSend (prompt_env True) small_sort [1, 2] None q2 = Some (Done q3)
     \<and> sortClientOutOfMem (prompt_env True) small_sort q3 = Some (Done q4)
     \<and> q_scratch q4 = Some s \<and> getTotalNumOfRuns s = 2 \<and> mapRunNumberToFirstSBN 1 s = 2 \<and> mapRunNumberToFirstSBN 2 s = 2"
  by (simp add: sortClientOutOfMem_def overflow_to_scratch_def generateARun_def sortSend_def qsort_sortSend_def sortInitialize_def
      qsort_new_def no_keys_sorted two_keys_sorted write_run_unfold small_sort_buffer getTotalNumOfRuns_def mapRunNumberToFirstSBN_def)

end
