(* ===== verification/Sort_Files.thy ===== *)
theory Sort_Files
  imports Sort_Prelude
begin

text \<open>
  The scratch files below the scratch space: the map from block numbers to files (\<^verbatim>\<open>ScratchFileMap.cpp\<close>) and the base class
  \<^verbatim>\<open>ScratchSpace\<close> that places blocks in files and makes a new file when one is full (\<^verbatim>\<open>ScratchSpace.cpp\<close>).  A file is a map
  from block offsets to data, identified by its place in the map of files; a closed file is \<^const>\<open>None\<close>.  The operating system is the
  environment: whether a disk is found, memory for a file object is there, a file can be made, a handle is free, and what a seek, a write and a read
  answer; a write that fails for lack of space answers \<open>FILE_FULL\<close>.  The I/O vector has the size 1 of the constructor, so the vector
  that moves to a new file is the block itself, and no I/O is pending on the file before.  A result \<^const>\<open>None\<close> is a failed \<^verbatim>\<open>ex_assert\<close> or an access before the start of the map.
\<close>

section \<open>The map of files\<close>

record FileMap =
  fm_firstScrBlockWritten :: int
  fm_scrFile :: "(int \<Rightarrow> byte list option) option"

record ScratchFileMap =
  sm_fileMap :: "FileMap list"
  sm_maxScratchFiles :: nat
  sm_currentScratchFiles :: nat

definition filemap_new :: "nat \<Rightarrow> ScratchFileMap" where
  "filemap_new maxscrfiles = \<lparr> sm_fileMap = [], sm_maxScratchFiles = maxscrfiles, sm_currentScratchFiles = 0 \<rparr>"

text \<open>
  A file that is made gets the next place.  The place is taken also when there is no memory for the file object or the object reports an error;
  in the second case the object stays in the map.
\<close>

definition createNewScrFile :: "bool \<Rightarrow> bool \<Rightarrow> ScratchFileMap \<Rightarrow> nat option \<times> ScratchFileMap" where
  "createNewScrFile mem ok m =
     (let n = length (sm_fileMap m)
      in if n + 1 \<ge> sm_maxScratchFiles m then (None, m)
         else (if mem \<and> ok then Some n else None,
               m\<lparr> sm_fileMap := sm_fileMap m @ [\<lparr> fm_firstScrBlockWritten = 0, fm_scrFile = (if mem then Some (\<lambda>_. None) else None) \<rparr>],
                  sm_currentScratchFiles := n + 1 \<rparr>))"

definition setFirstScrBlockNum :: "int \<Rightarrow> ScratchFileMap \<Rightarrow> ScratchFileMap" where
  "setFirstScrBlockNum blockNum m =
     (let i = sm_currentScratchFiles m - 1
      in m\<lparr> sm_fileMap := (sm_fileMap m)[i := (sm_fileMap m ! i)\<lparr> fm_firstScrBlockWritten := blockNum \<rparr>] \<rparr>)"

definition getFirstScrBlockNum :: "nat \<Rightarrow> ScratchFileMap \<Rightarrow> int" where
  "getFirstScrBlockNum file m =
     (if file < length (sm_fileMap m) \<and> fm_scrFile (sm_fileMap m ! file) \<noteq> None
      then fm_firstScrBlockWritten (sm_fileMap m ! file) else - 1)"

text \<open>
  The search for the file of a block looks for the first file that starts behind it and takes the one before.  The answer is the
  file, or no file when it is closed or the block is before the last file, and the offset.
\<close>

definition file_at :: "int \<Rightarrow> nat \<Rightarrow> FileMap \<Rightarrow> (nat \<times> int) option" where
  "file_at blockNum i f = (if fm_scrFile f = None then None else Some (i, blockNum - fm_firstScrBlockWritten f))"

fun map_block_loop :: "int \<Rightarrow> nat \<Rightarrow> FileMap option \<Rightarrow> FileMap list \<Rightarrow> (nat \<times> int) option option" where
  "map_block_loop blockNum i prev [] =
     (case prev of
        None \<Rightarrow> None
      | Some p \<Rightarrow> Some (if blockNum \<ge> fm_firstScrBlockWritten p then file_at blockNum (i - 1) p else None))"
| "map_block_loop blockNum i prev (f # fs) =
     (if blockNum < fm_firstScrBlockWritten f
      then (case prev of None \<Rightarrow> None | Some p \<Rightarrow> Some (file_at blockNum (i - 1) p))
      else map_block_loop blockNum (i + 1) (Some f) fs)"

definition mapBlockNumToScrFile :: "int \<Rightarrow> ScratchFileMap \<Rightarrow> (nat \<times> int) option option" where
  "mapBlockNumToScrFile blockNum m =
     (if blockNum > 0 then map_block_loop blockNum 0 None (sm_fileMap m) else None)"

text \<open>A file is closed when the file behind it starts at or before the block; the last file never.\<close>

fun close_upto_loop :: "int \<Rightarrow> FileMap list \<Rightarrow> FileMap list" where
  "close_upto_loop u [] = []"
| "close_upto_loop u [f] = [f]"
| "close_upto_loop u (f # g # fs) =
     (if u \<le> fm_firstScrBlockWritten f then f # g # fs
      else (if u \<ge> fm_firstScrBlockWritten g then f\<lparr> fm_scrFile := None \<rparr> else f) # close_upto_loop u (g # fs))"

definition closeScrFilesUpto :: "int \<Rightarrow> ScratchFileMap \<Rightarrow> ScratchFileMap" where
  "closeScrFilesUpto u m = m\<lparr> sm_fileMap := close_upto_loop u (sm_fileMap m) \<rparr>"

text \<open>All files are closed, or all but one, which then is the only one in the map.\<close>

definition closeFiles :: "nat option \<Rightarrow> ScratchFileMap \<Rightarrow> ScratchFileMap" where
  "closeFiles keep m =
     (case keep of
        Some k \<Rightarrow>
          if k < length (sm_fileMap m) \<and> fm_scrFile (sm_fileMap m ! k) \<noteq> None
          then m\<lparr> sm_fileMap := [sm_fileMap m ! k], sm_currentScratchFiles := 1 \<rparr>
          else m\<lparr> sm_fileMap := [], sm_currentScratchFiles := 0 \<rparr>
      | None \<Rightarrow> m\<lparr> sm_fileMap := [], sm_currentScratchFiles := 0 \<rparr>)"

section \<open>Blocks in files\<close>

datatype file_result = FILE_OK | FILE_FAILURE | FILE_NOT_COMPLETE | FILE_FULL

record files_env =
  fe_bestDisk :: "int \<Rightarrow> bool"
  fe_fileMemory :: "int \<Rightarrow> bool"
  fe_newFile :: "int \<Rightarrow> bool"
  fe_handle :: "nat \<Rightarrow> bool"
  fe_resultFileSize :: "nat \<Rightarrow> int"
  fe_seek :: "nat \<Rightarrow> int \<Rightarrow> file_result"
  fe_write :: "nat \<Rightarrow> int \<Rightarrow> file_result"
  fe_readSeek :: "nat \<Rightarrow> int \<Rightarrow> file_result"
  fe_read :: "nat \<Rightarrow> int \<Rightarrow> file_result"

record ScratchSpace =
  ss_blockSize :: int
  ss_scrFilesMap :: ScratchFileMap
  ss_currentWriteScrFile :: "nat option"
  ss_totalNumOfScrBlocks :: int

abbreviation (input) MAXSCRFILES :: nat where "MAXSCRFILES \<equiv> 4096"

definition scratchspace_new :: "int \<Rightarrow> ScratchSpace" where
  "scratchspace_new blocksize =
     \<lparr> ss_blockSize = blocksize, ss_scrFilesMap = filemap_new MAXSCRFILES, ss_currentWriteScrFile = None, ss_totalNumOfScrBlocks = 1 \<rparr>"

text \<open>The block is in the file when the write is done or under way.\<close>

definition writeBlock :: "files_env \<Rightarrow> nat \<Rightarrow> int \<Rightarrow> byte list \<Rightarrow> int \<Rightarrow> ScratchSpace \<Rightarrow> file_result \<times> ScratchSpace" where
  "writeBlock e file offset block blockNum s =
     (let rc = fe_write e file blockNum; fs = sm_fileMap (ss_scrFilesMap s)
      in if rc = FILE_OK \<or> rc = FILE_NOT_COMPLETE
         then (rc, s\<lparr> ss_scrFilesMap := (ss_scrFilesMap s)\<lparr> sm_fileMap :=
                 fs[file := (fs ! file)\<lparr> fm_scrFile := map_option (\<lambda>c. c(offset \<mapsto> block)) (fm_scrFile (fs ! file)) \<rparr>] \<rparr> \<rparr>)
         else (rc, s))"

definition CreateANewScrFileAndWrite :: "files_env \<Rightarrow> byte list \<Rightarrow> int \<Rightarrow> ScratchSpace \<Rightarrow> file_result \<times> ScratchSpace" where
  "CreateANewScrFileAndWrite e block blockNum s =
     (if \<not> fe_bestDisk e blockNum then (FILE_FAILURE, s)
      else case createNewScrFile (fe_fileMemory e blockNum) (fe_newFile e blockNum) (ss_scrFilesMap s) of (file, m) \<Rightarrow>
        let s1 = s\<lparr> ss_scrFilesMap := m, ss_currentWriteScrFile := file \<rparr>
        in case file of
             None \<Rightarrow> (FILE_FAILURE, s1)
           | Some f \<Rightarrow>
               if \<not> fe_handle e f then (FILE_FAILURE, s1)
               else case writeBlock e f 0 block blockNum s1 of (rc, s2) \<Rightarrow>
                 if rc = FILE_FAILURE \<or> rc = FILE_FULL then (rc, s2)
                 else (rc, s2\<lparr> ss_scrFilesMap := setFirstScrBlockNum blockNum (ss_scrFilesMap s2) \<rparr>))"

text \<open>The part of \<^verbatim>\<open>writeFile\<close> that writes to the current file; \<^const>\<open>FILE_FULL\<close> asks for a new one.\<close>

definition write_current :: "files_env \<Rightarrow> byte list \<Rightarrow> int \<Rightarrow> nat \<Rightarrow> ScratchSpace \<Rightarrow> file_result \<times> ScratchSpace" where
  "write_current e block blockNum file s =
     (let firstBlockNum = getFirstScrBlockNum file (ss_scrFilesMap s); offset = blockNum - firstBlockNum
      in if firstBlockNum = - 1 then (FILE_FAILURE, s)
         else if offset * ss_blockSize s + ss_blockSize s > fe_resultFileSize e file then (FILE_FULL, s)
         else if \<not> fe_handle e file then (FILE_FAILURE, s)
         else case fe_seek e file offset of
                FILE_OK \<Rightarrow> writeBlock e file offset block blockNum s
              | FILE_FULL \<Rightarrow> (FILE_FULL, s)
              | _ \<Rightarrow> (FILE_FAILURE, s))"

definition writeFile :: "files_env \<Rightarrow> byte list \<Rightarrow> int \<Rightarrow> ScratchSpace \<Rightarrow> file_result \<times> ScratchSpace" where
  "writeFile e block blockNum s =
     (case (case ss_currentWriteScrFile s of None \<Rightarrow> (FILE_FULL, s) | Some file \<Rightarrow> write_current e block blockNum file s) of
        (FILE_FULL, s1) \<Rightarrow> CreateANewScrFileAndWrite e block blockNum s1
      | r \<Rightarrow> r)"

text \<open>
  \<^verbatim>\<open>ScratchSpace::readThru\<close>: the file and the offset are given by the caller or looked up; the read of a place that was never
  written is an error of the file.
\<close>

definition readFile :: "files_env \<Rightarrow> int \<Rightarrow> (nat \<times> int) option \<Rightarrow> ScratchSpace \<Rightarrow> (file_result \<times> byte list) option" where
  "readFile e blockNum hint s =
     (if blockNum < 0 \<or> blockNum > ss_totalNumOfScrBlocks s then Some (FILE_FAILURE, [])
      else case (case hint of Some h \<Rightarrow> Some (Some h) | None \<Rightarrow> mapBlockNumToScrFile blockNum (ss_scrFilesMap s)) of
             None \<Rightarrow> None
           | Some None \<Rightarrow> Some (FILE_FAILURE, [])
           | Some (Some (file, offset)) \<Rightarrow>
               (case fm_scrFile (sm_fileMap (ss_scrFilesMap s) ! file) of
                  None \<Rightarrow> None
                | Some c \<Rightarrow>
                    if \<not> fe_handle e file then Some (FILE_FAILURE, [])
                    else if fe_readSeek e file offset \<noteq> FILE_OK then Some (fe_readSeek e file offset, [])
                    else if fe_read e file offset \<noteq> FILE_OK then Some (fe_read e file offset, [])
                    else (case c offset of None \<Rightarrow> Some (FILE_FAILURE, []) | Some d \<Rightarrow> Some (FILE_OK, d))))"

text \<open>An operating system in which reads go well.\<close>

definition reads_succeed :: "files_env \<Rightarrow> bool" where
  "reads_succeed e = (\<forall>file offset. fe_handle e file \<and> fe_readSeek e file offset = FILE_OK \<and> fe_read e file offset = FILE_OK)"

section \<open>Where a block is\<close>

text \<open>The file of a block is the last one that does not start behind it.\<close>

definition block_index :: "FileMap list \<Rightarrow> int \<Rightarrow> nat \<Rightarrow> bool" where
  "block_index fs b i =
     (i < length fs \<and> fm_firstScrBlockWritten (fs ! i) \<le> b \<and> (Suc i < length fs \<longrightarrow> b < fm_firstScrBlockWritten (fs ! Suc i)))"

definition files_wf :: "ScratchSpace \<Rightarrow> bool" where
  "files_wf s =
     (let fs = sm_fileMap (ss_scrFilesMap s)
      in sorted_wrt (<) (map fm_firstScrBlockWritten fs) \<and> 1 \<le> ss_totalNumOfScrBlocks s
         \<and> (\<forall>f \<in> set fs. 1 \<le> fm_firstScrBlockWritten f \<and> fm_firstScrBlockWritten f < ss_totalNumOfScrBlocks s)
         \<and> ss_currentWriteScrFile s = (if fs = [] then None else Some (length fs - 1)))"

definition holds :: "ScratchSpace \<Rightarrow> int \<Rightarrow> byte list \<Rightarrow> bool" where
  "holds s b d =
     (let fs = sm_fileMap (ss_scrFilesMap s)
      in 1 \<le> b \<and> b < ss_totalNumOfScrBlocks s
         \<and> (\<exists>i c. block_index fs b i \<and> fm_scrFile (fs ! i) = Some c \<and> c (b - fm_firstScrBlockWritten (fs ! i)) = Some d))"

lemma map_block_loop_at:
  assumes "sorted_wrt (<) (map fm_firstScrBlockWritten fs)" and "block_index fs b i"
  shows "map_block_loop b n prev fs = Some (file_at b (n + i) (fs ! i))"
  using assms
proof (induction fs arbitrary: n prev i)
  case (Cons f fs)
  show ?case
  proof (cases i)
    case 0
    then show ?thesis using Cons.prems(2) by (cases fs) (auto simp: block_index_def)
  next
    case (Suc j)
    have j: "block_index fs b j" using Cons.prems(2) Suc by (auto simp: block_index_def)
    then have "fm_firstScrBlockWritten f < fm_firstScrBlockWritten (fs ! j)" using Cons.prems(1) by (auto simp: block_index_def)
    then have "\<not> b < fm_firstScrBlockWritten f" using j by (auto simp: block_index_def)
    then show ?thesis using Cons.IH [OF _ j, of "n + 1" "Some f"] Cons.prems(1) Suc by simp
  qed
qed (simp add: block_index_def)

lemma holds_read:
  assumes "reads_succeed e" and "files_wf s" and "holds s b d"
  shows "\<exists>h. mapBlockNumToScrFile b (ss_scrFilesMap s) = Some (Some h) \<and> readFile e b (Some h) s = Some (FILE_OK, d)"
    and "readFile e b None s = Some (FILE_OK, d)"
proof -
  let ?fs = "sm_fileMap (ss_scrFilesMap s)"
  obtain i c where i: "block_index ?fs b i" "fm_scrFile (?fs ! i) = Some c" "c (b - fm_firstScrBlockWritten (?fs ! i)) = Some d"
      and b: "1 \<le> b" "b < ss_totalNumOfScrBlocks s"
    using assms(3) by (auto simp: holds_def Let_def)
  have "sorted_wrt (<) (map fm_firstScrBlockWritten ?fs)" using assms(2) by (simp add: files_wf_def Let_def)
  then have m: "mapBlockNumToScrFile b (ss_scrFilesMap s) = Some (Some (i, b - fm_firstScrBlockWritten (?fs ! i)))"
    using map_block_loop_at [OF _ i(1), of 0 None] i(2) b(1) by (simp add: mapBlockNumToScrFile_def file_at_def)
  then show "\<exists>h. mapBlockNumToScrFile b (ss_scrFilesMap s) = Some (Some h) \<and> readFile e b (Some h) s = Some (FILE_OK, d)"
      and "readFile e b None s = Some (FILE_OK, d)"
    using i b assms(1) by (simp_all add: readFile_def reads_succeed_def)
qed

subsection \<open>Writing keeps what is written\<close>

definition advance :: "ScratchSpace \<Rightarrow> ScratchSpace" where
  "advance s = s\<lparr> ss_totalNumOfScrBlocks := ss_totalNumOfScrBlocks s + 1 \<rparr>"

lemma advance_total [simp]: "ss_totalNumOfScrBlocks (advance s) = ss_totalNumOfScrBlocks s + 1"
  by (simp add: advance_def)

text \<open>What a write of the next block is to do.\<close>

definition block_added :: "ScratchSpace \<Rightarrow> byte list \<Rightarrow> ScratchSpace \<Rightarrow> bool" where
  "block_added s d s' =
     (files_wf (advance s') \<and> ss_totalNumOfScrBlocks s' = ss_totalNumOfScrBlocks s \<and> ss_blockSize s' = ss_blockSize s
      \<and> holds (advance s') (ss_totalNumOfScrBlocks s) d \<and> (\<forall>b x. holds s b x \<longrightarrow> holds (advance s') b x))"

lemma write_last:
  assumes "files_wf s" and "sm_fileMap (ss_scrFilesMap s) = fs @ [f]" and "fm_scrFile f = Some c"
    and "sm_fileMap (ss_scrFilesMap s') = fs @ [f\<lparr> fm_scrFile := Some (c(ss_totalNumOfScrBlocks s - fm_firstScrBlockWritten f \<mapsto> d)) \<rparr>]"
    and "ss_totalNumOfScrBlocks s' = ss_totalNumOfScrBlocks s" and "ss_blockSize s' = ss_blockSize s"
    and "ss_currentWriteScrFile s' = ss_currentWriteScrFile s"
  shows "block_added s d s'"
proof -
  let ?fs = "fs @ [f]" and ?fs' = "sm_fileMap (ss_scrFilesMap s')" and ?n = "ss_totalNumOfScrBlocks s"
  have wf: "sorted_wrt (<) (map fm_firstScrBlockWritten ?fs)" "1 \<le> ?n"
      "\<forall>f \<in> set ?fs. 1 \<le> fm_firstScrBlockWritten f \<and> fm_firstScrBlockWritten f < ?n" "ss_currentWriteScrFile s = Some (length fs)"
    using assms(1,2) by (simp_all add: files_wf_def Let_def)
  have first: "fm_firstScrBlockWritten (?fs' ! i) = fm_firstScrBlockWritten (?fs ! i)" if "i < length ?fs" for i
    using that by (simp add: assms(4) nth_append)
  have ix: "block_index ?fs' b i = block_index ?fs b i" for b i
    unfolding block_index_def using first [of i] first [of "Suc i"] by (auto simp: assms(4))
  have "files_wf (advance s')"
    using wf by (auto simp: files_wf_def Let_def advance_def assms(4,5,7))
  moreover have "holds (advance s') ?n d"
  proof -
    have "block_index ?fs' ?n (length fs)" using wf(3) unfolding ix by (simp add: block_index_def)
    then show ?thesis using wf(2) by (auto simp: holds_def Let_def advance_def assms(4,5) intro!: exI [of _ "length fs"])
  qed
  moreover have "holds (advance s') b x" if h: "holds s b x" for b x
  proof -
    obtain i c' where i: "block_index ?fs b i" "fm_scrFile (?fs ! i) = Some c'" "c' (b - fm_firstScrBlockWritten (?fs ! i)) = Some x"
        and b: "1 \<le> b" "b < ?n"
      using h by (auto simp: holds_def Let_def assms(2))
    have il: "i < length ?fs" using i(1) by (simp add: block_index_def)
    have "\<exists>c2. fm_scrFile (?fs' ! i) = Some c2 \<and> c2 (b - fm_firstScrBlockWritten (?fs ! i)) = Some x"
      using i(2,3) il b(2) assms(3) by (cases "i = length fs") (auto simp: assms(4) nth_append)
    then show ?thesis using i(1) b first [OF il] by (auto simp: holds_def Let_def advance_def ix assms(5) intro!: exI [of _ i])
  qed
  ultimately show ?thesis using assms(5,6) by (simp add: block_added_def)
qed

lemma write_new:
  assumes "files_wf s" and "sm_fileMap (ss_scrFilesMap s') = sm_fileMap (ss_scrFilesMap s)
      @ [\<lparr> fm_firstScrBlockWritten = ss_totalNumOfScrBlocks s, fm_scrFile = Some ((\<lambda>_. None)(0 \<mapsto> d)) \<rparr>]"
    and "ss_totalNumOfScrBlocks s' = ss_totalNumOfScrBlocks s" and "ss_blockSize s' = ss_blockSize s"
    and "ss_currentWriteScrFile s' = Some (length (sm_fileMap (ss_scrFilesMap s)))"
  shows "block_added s d s'"
proof -
  let ?fs = "sm_fileMap (ss_scrFilesMap s)" and ?fs' = "sm_fileMap (ss_scrFilesMap s')" and ?n = "ss_totalNumOfScrBlocks s"
  have wf: "sorted_wrt (<) (map fm_firstScrBlockWritten ?fs)" "1 \<le> ?n"
      "\<forall>f \<in> set ?fs. 1 \<le> fm_firstScrBlockWritten f \<and> fm_firstScrBlockWritten f < ?n"
    using assms(1) by (simp_all add: files_wf_def Let_def)
  have "files_wf (advance s')"
    using wf by (auto simp: files_wf_def Let_def advance_def assms(2,3,5) sorted_wrt_append)
  moreover have "holds (advance s') ?n d"
    using wf(2) by (auto simp: holds_def Let_def advance_def assms(2,3) block_index_def intro!: exI [of _ "length ?fs"])
  moreover have "holds (advance s') b x" if h: "holds s b x" for b x
  proof -
    obtain i c where i: "block_index ?fs b i" "fm_scrFile (?fs ! i) = Some c" "c (b - fm_firstScrBlockWritten (?fs ! i)) = Some x"
        and b: "1 \<le> b" "b < ?n"
      using h by (auto simp: holds_def Let_def)
    have "block_index ?fs' b i" using i(1) b(2) by (auto simp: block_index_def assms(2) nth_append)
    moreover have "?fs' ! i = ?fs ! i" using i(1) by (simp add: block_index_def assms(2) nth_append)
    ultimately show ?thesis using i b by (auto simp: holds_def Let_def advance_def assms(3) intro!: exI [of _ i])
  qed
  ultimately show ?thesis using assms(3,4) by (simp add: block_added_def)
qed

lemma createNew_works:
  assumes "files_wf s" and "CreateANewScrFileAndWrite e d (ss_totalNumOfScrBlocks s) s = (rc, s')" and "rc = FILE_OK \<or> rc = FILE_NOT_COMPLETE"
  shows "block_added s d s'"
proof (rule write_new [OF assms(1)])
  let ?fs = "sm_fileMap (ss_scrFilesMap s)"
  have o: "fe_bestDisk e (ss_totalNumOfScrBlocks s)" "fe_fileMemory e (ss_totalNumOfScrBlocks s)" "fe_newFile e (ss_totalNumOfScrBlocks s)" "\<not> length ?fs + 1 \<ge> sm_maxScratchFiles (ss_scrFilesMap s)"
      "fe_handle e (length ?fs)" "fe_write e (length ?fs) (ss_totalNumOfScrBlocks s) = FILE_OK \<or> fe_write e (length ?fs) (ss_totalNumOfScrBlocks s) = FILE_NOT_COMPLETE"
    using assms(2,3)
    by (auto simp: CreateANewScrFileAndWrite_def createNewScrFile_def writeBlock_def Let_def split: if_splits option.splits prod.splits)
  then show "sm_fileMap (ss_scrFilesMap s') = ?fs
      @ [\<lparr> fm_firstScrBlockWritten = ss_totalNumOfScrBlocks s, fm_scrFile = Some ((\<lambda>_. None)(0 \<mapsto> d)) \<rparr>]"
    and "ss_totalNumOfScrBlocks s' = ss_totalNumOfScrBlocks s" and "ss_blockSize s' = ss_blockSize s"
    and "ss_currentWriteScrFile s' = Some (length ?fs)"
    using assms(2,3)
    by (auto simp: CreateANewScrFileAndWrite_def createNewScrFile_def writeBlock_def setFirstScrBlockNum_def Let_def)
qed

lemma writeFile_works:
  assumes "files_wf s" and "writeFile e d (ss_totalNumOfScrBlocks s) s = (rc, s')" and "rc = FILE_OK \<or> rc = FILE_NOT_COMPLETE"
  shows "block_added s d s'"
proof (cases "ss_currentWriteScrFile s")
  case None
  then show ?thesis using createNew_works [OF assms(1) _ assms(3)] assms(2) by (simp add: writeFile_def)
next
  case (Some k)
  then obtain fs f where fs: "sm_fileMap (ss_scrFilesMap s) = fs @ [f]" "k = length fs"
    using assms(1) by (cases "sm_fileMap (ss_scrFilesMap s)" rule: rev_cases) (auto simp: files_wf_def Let_def split: if_splits)
  obtain rc1 s1 where w: "write_current e d (ss_totalNumOfScrBlocks s) k s = (rc1, s1)" by (cases "write_current e d (ss_totalNumOfScrBlocks s) k s")
  show ?thesis
  proof (cases "rc1 = FILE_FULL")
    case True
    then have "s1 = s"
      using w by (auto simp: write_current_def writeBlock_def Let_def split: if_splits file_result.splits)
    then show ?thesis using createNew_works [OF assms(1) _ assms(3)] assms(2) Some w True by (simp add: writeFile_def)
  next
    case False
    then have r: "rc = rc1" "s' = s1" using assms(2) Some w by (auto simp: writeFile_def split: file_result.splits)
    then obtain c where c: "fm_scrFile f = Some c"
      using w assms(3) fs by (auto simp: write_current_def getFirstScrBlockNum_def nth_append split: if_splits)
    show ?thesis
      using w assms(3) fs c unfolding r
      by (intro write_last [OF assms(1) fs(1) c])
        (auto simp: write_current_def getFirstScrBlockNum_def writeBlock_def Let_def nth_append split: if_splits file_result.splits)
  qed
qed

subsection \<open>Closing files\<close>

lemma close_upto_loop_nth:
  assumes "i < length fs"
  shows "length (close_upto_loop u fs) = length fs
    \<and> fm_firstScrBlockWritten (close_upto_loop u fs ! i) = fm_firstScrBlockWritten (fs ! i)
    \<and> (close_upto_loop u fs ! i = fs ! i \<or> Suc i < length fs \<and> fm_firstScrBlockWritten (fs ! Suc i) \<le> u)"
  using assms
proof (induction u fs arbitrary: i rule: close_upto_loop.induct)
  case (3 u f g fs)
  show ?case
  proof (cases "u \<le> fm_firstScrBlockWritten f")
    case False
    then show ?thesis using 3 by (cases i) (auto simp: nth_Cons split: nat.splits)
  qed simp
qed simp_all

lemma close_upto_length: "length (close_upto_loop u fs) = length fs"
  by (induction u fs rule: close_upto_loop.induct) auto

lemma close_upto_firsts: "map fm_firstScrBlockWritten (close_upto_loop u fs) = map fm_firstScrBlockWritten fs"
  by (induction u fs rule: close_upto_loop.induct) auto

lemma close_keeps:
  assumes "files_wf s" and "s' = s\<lparr> ss_scrFilesMap := closeScrFilesUpto u (ss_scrFilesMap s) \<rparr>"
  shows "files_wf s'" and "u \<le> b \<Longrightarrow> holds s b d \<Longrightarrow> holds s' b d"
proof -
  let ?fs = "sm_fileMap (ss_scrFilesMap s)" and ?fs' = "sm_fileMap (ss_scrFilesMap s')"
  have fs': "?fs' = close_upto_loop u ?fs" by (simp add: assms(2) closeScrFilesUpto_def)
  have all: "(\<forall>f \<in> set ?fs'. P (fm_firstScrBlockWritten f)) = (\<forall>f \<in> set ?fs. P (fm_firstScrBlockWritten f))" for P
    unfolding fs' using close_upto_firsts [of u ?fs] by (metis (no_types, lifting) image_iff list.set_map)
  have "?fs' = [] \<longleftrightarrow> ?fs = []" using close_upto_length [of u ?fs] by (metis fs' length_0_conv)
  then show "files_wf s'"
    using assms(1) all [of "\<lambda>x. 1 \<le> x \<and> x < ss_totalNumOfScrBlocks s"] close_upto_length [of u ?fs] close_upto_firsts [of u ?fs]
    by (simp add: files_wf_def Let_def fs' assms(2) closeScrFilesUpto_def)
  assume u: "u \<le> b" and h: "holds s b d"
  obtain i c where i: "block_index ?fs b i" "fm_scrFile (?fs ! i) = Some c" "c (b - fm_firstScrBlockWritten (?fs ! i)) = Some d"
      and b: "1 \<le> b" "b < ss_totalNumOfScrBlocks s"
    using h by (auto simp: holds_def Let_def)
  have il: "i < length ?fs" using i(1) by (simp add: block_index_def)
  then have e: "?fs' ! i = ?fs ! i" using close_upto_loop_nth [OF il, of u] i(1) u unfolding fs' by (auto simp: block_index_def)
  have "block_index ?fs' b i"
    using i(1) e close_upto_loop_nth [of "Suc i" ?fs u] close_upto_length [of u ?fs] unfolding fs' by (auto simp: block_index_def)
  then show "holds s' b d" using i b e by (auto simp: holds_def Let_def assms(2) intro!: exI [of _ i])
qed

section \<open>A store of numbered blocks\<close>

text \<open>
  What the clients of the files rely on: a block that was put under the next number stays, and is found through the place the
  map tells for it or without one, while the reads of the system below succeed.
\<close>

locale block_store =
  fixes readable :: bool and wf :: "'s \<Rightarrow> bool" and stored :: "'s \<Rightarrow> int \<Rightarrow> byte list \<Rightarrow> bool" and nxt :: "'s \<Rightarrow> int"
    and put :: "byte list \<Rightarrow> 's \<Rightarrow> file_result \<times> 's" and place :: "int \<Rightarrow> 's \<Rightarrow> 'h option option"
    and get :: "int \<Rightarrow> 'h option \<Rightarrow> 's \<Rightarrow> (file_result \<times> byte list) option"
  assumes put_law: "wf s \<Longrightarrow> put d s = (FILE_OK, s') \<Longrightarrow>
      wf s' \<and> nxt s' = nxt s + 1 \<and> stored s' (nxt s) d \<and> (\<forall>b x. stored s b x \<longrightarrow> stored s' b x)"
    and stored_pos: "stored s b d \<Longrightarrow> 1 \<le> b"
    and get_law: "readable \<Longrightarrow> wf s \<Longrightarrow> stored s b d \<Longrightarrow> get b None s = Some (FILE_OK, d)"
    and place_law: "readable \<Longrightarrow> wf s \<Longrightarrow> stored s b d \<Longrightarrow> \<exists>h. place b s = Some (Some h) \<and> get b (Some h) s = Some (FILE_OK, d)"

text \<open>A block is written under the next number, which goes up with every write that is done.\<close>

definition space_put :: "files_env \<Rightarrow> byte list \<Rightarrow> ScratchSpace \<Rightarrow> file_result \<times> ScratchSpace" where
  "space_put e d s =
     (case writeFile e d (ss_totalNumOfScrBlocks s) s of (rc, s') \<Rightarrow> (rc, if rc = FILE_OK then advance s' else s'))"

interpretation scratch_files: block_store "reads_succeed r" files_wf holds ss_totalNumOfScrBlocks "space_put e"
    "\<lambda>b s. mapBlockNumToScrFile b (ss_scrFilesMap s)" "readFile r" for r e
proof
  fix s d s' assume wf: "files_wf s" and p: "space_put e d s = (FILE_OK, s')"
  obtain s1 where w: "writeFile e d (ss_totalNumOfScrBlocks s) s = (FILE_OK, s1)" "s' = advance s1"
    using p by (auto simp: space_put_def split: prod.splits if_splits)
  have "block_added s d s1" using writeFile_works [OF wf w(1)] by simp
  then show "files_wf s' \<and> ss_totalNumOfScrBlocks s' = ss_totalNumOfScrBlocks s + 1 \<and> holds s' (ss_totalNumOfScrBlocks s) d
      \<and> (\<forall>b x. holds s b x \<longrightarrow> holds s' b x)"
    by (simp add: block_added_def w(2))
qed (use holds_read in \<open>auto simp: holds_def Let_def\<close>)

lemma files_wf_new: "files_wf (scratchspace_new n)"
  by (simp add: files_wf_def scratchspace_new_def filemap_new_def)

text \<open>An operating system that always says yes.\<close>

definition willing_env :: files_env where
  "willing_env =
     \<lparr> fe_bestDisk = (\<lambda>_. True), fe_fileMemory = (\<lambda>_. True), fe_newFile = (\<lambda>_. True), fe_handle = (\<lambda>_. True), fe_resultFileSize = (\<lambda>_. 100),
       fe_seek = (\<lambda>_ _. FILE_OK), fe_write = (\<lambda>_ _. FILE_OK), fe_readSeek = (\<lambda>_ _. FILE_OK), fe_read = (\<lambda>_ _. FILE_OK) \<rparr>"

lemma reads_succeed_willing [simp]: "reads_succeed willing_env"
  by (simp add: reads_succeed_def willing_env_def)

end
