(* ===== verification/Sort_Hash.thy ===== *)
theory Sort_Hash
  imports Sort_Files
begin

text \<open>
  The scratch space of the hash operators (\<^verbatim>\<open>HashScratchSpace\<close> of \<^verbatim>\<open>ScratchSpace.cpp\<close>): blocks are written for a cluster, in any
  interleaving of clusters, and read back cluster by cluster.  A directory lists the blocks of each cluster; a cookie that
  the client passes from read to read points to the next block and its place in the files.  The chain of blocks
  of a cluster is a list, a pointer into it the index of its entry in the directory and a position.  The store of
  blocks below is an argument.  \<^const>\<open>None\<close> is the use of a null pointer or a failed \<^verbatim>\<open>ex_assert\<close>.
\<close>

section \<open>The code\<close>

record CBlock =
  cb_blockNum :: int
  cb_endBatch :: bool

record ClusterDirectory =
  cd_clusterID :: nat
  cd_blocks :: "CBlock list"

record 's HashScratchSpace =
  hs_space :: 's
  hs_clusterDList :: "ClusterDirectory list"
  hs_currentCDir :: "nat option"

record 'h ClusterPassBack =
  cp_cBlock :: "(nat \<times> nat) option"
  cp_scratchFile :: "'h option"
  cp_endOfClusterBatch :: bool

abbreviation (input) INITIAL_MAX_CLUSTERS :: nat where "INITIAL_MAX_CLUSTERS \<equiv> 512"

definition free_entry :: ClusterDirectory where
  "free_entry = \<lparr> cd_clusterID = 0, cd_blocks = [] \<rparr>"

definition hash_new :: "'s \<Rightarrow> 's HashScratchSpace" where
  "hash_new s = \<lparr> hs_space = s, hs_clusterDList = replicate INITIAL_MAX_CLUSTERS free_entry, hs_currentCDir = None \<rparr>"

definition initCPB :: "'h ClusterPassBack" where
  "initCPB = \<lparr> cp_cBlock = None, cp_scratchFile = None, cp_endOfClusterBatch = False \<rparr>"

subsection \<open>Registering a block\<close>

definition new_block :: "int \<Rightarrow> CBlock" where
  "new_block b = \<lparr> cb_blockNum = b, cb_endBatch = False \<rparr>"

text \<open>A block is linked behind the last one of an entry; with \<open>batch\<close> the last one ends a batch.\<close>

definition link_block :: "bool \<Rightarrow> int \<Rightarrow> ClusterDirectory \<Rightarrow> ClusterDirectory option" where
  "link_block batch b u =
     (if cd_blocks u = [] then None
      else Some (u\<lparr> cd_blocks :=
             (if batch then butlast (cd_blocks u) @ [(last (cd_blocks u))\<lparr> cb_endBatch := True \<rparr>] else cd_blocks u) @ [new_block b] \<rparr>))"

text \<open>The search: the entry of the cluster, or the first free one.\<close>

fun find_entry :: "nat \<Rightarrow> nat \<Rightarrow> ClusterDirectory list \<Rightarrow> (nat \<times> bool) option" where
  "find_entry c i [] = None"
| "find_entry c i (u # us) =
     (if cd_clusterID u = c then Some (i, True)
      else if cd_clusterID u = 0 then Some (i, False)
      else find_entry c (i + 1) us)"

definition registerClusterBlock ::
  "bool \<Rightarrow> bool \<Rightarrow> nat \<Rightarrow> int \<Rightarrow> 's HashScratchSpace \<Rightarrow> (bool \<times> 's HashScratchSpace) option" where
  "registerClusterBlock alloc grow c b h =
     (let dl = hs_clusterDList h;
          link = (\<lambda>batch j h'. if \<not> alloc then Some (False, h')
                   else map_option (\<lambda>u. (True, h'\<lparr> hs_clusterDList := (hs_clusterDList h')[j := u] \<rparr>))
                          (link_block batch b (hs_clusterDList h' ! j)));
          start = (\<lambda>j h'. if \<not> alloc then Some (False, h'\<lparr> hs_clusterDList := (hs_clusterDList h')[j := (hs_clusterDList h' ! j)\<lparr> cd_clusterID := c \<rparr>] \<rparr>)
                   else Some (True, h'\<lparr> hs_clusterDList := (hs_clusterDList h')[j := \<lparr> cd_clusterID = c, cd_blocks = [new_block b] \<rparr>] \<rparr>))
      in case hs_currentCDir h of
           None \<Rightarrow> if \<not> alloc then Some (False, h) else start 0 (h\<lparr> hs_currentCDir := Some 0 \<rparr>)
         | Some i \<Rightarrow>
             if cd_clusterID (dl ! i) = c then link False i h
             else (case find_entry c 0 dl of
                     Some (j, True) \<Rightarrow> link True j (h\<lparr> hs_currentCDir := Some j \<rparr>)
                   | Some (j, False) \<Rightarrow> start j (h\<lparr> hs_currentCDir := Some j \<rparr>)
                   | None \<Rightarrow>
                       if \<not> grow then Some (False, h)
                       else start (length dl) (h\<lparr> hs_clusterDList := dl @ replicate (length dl) free_entry, hs_currentCDir := Some (length dl) \<rparr>)))"

subsection \<open>The blocks of a cluster\<close>

fun find_cluster :: "nat \<Rightarrow> nat \<Rightarrow> ClusterDirectory list \<Rightarrow> nat option" where
  "find_cluster c i [] = None"
| "find_cluster c i (u # us) = (if cd_clusterID u = c then Some i else find_cluster c (i + 1) us)"

text \<open>The block to read: the one of the cookie, or the first of the cluster.\<close>

definition block_to_read :: "nat \<Rightarrow> 'h ClusterPassBack \<Rightarrow> 's HashScratchSpace \<Rightarrow> (nat \<times> nat) option option" where
  "block_to_read c cp h =
     (case cp_cBlock cp of
        Some p \<Rightarrow> Some (Some p)
      | None \<Rightarrow>
          (case find_cluster c 0 (hs_clusterDList h) of
             None \<Rightarrow> Some None
           | Some j \<Rightarrow> if cd_blocks (hs_clusterDList h ! j) = [] then None else Some (Some (j, 0))))"

definition blocks_at :: "nat \<Rightarrow> 's HashScratchSpace \<Rightarrow> CBlock list" where
  "blocks_at j h = cd_blocks (hs_clusterDList h ! j)"

text \<open>The cookie moves on to the next block; at the end it holds none.\<close>

definition move_cookie :: "nat \<times> nat \<Rightarrow> 's HashScratchSpace \<Rightarrow> 'h ClusterPassBack \<Rightarrow> 'h ClusterPassBack" where
  "move_cookie p h cp =
     (case p of (j, k) \<Rightarrow>
        cp\<lparr> cp_endOfClusterBatch := cb_endBatch (blocks_at j h ! k),
            cp_cBlock := (if Suc k < length (blocks_at j h) then Some (j, Suc k) else None) \<rparr>)"

definition place_cookie ::
  "(int \<Rightarrow> 's \<Rightarrow> 'h option option) \<Rightarrow> bool \<Rightarrow> int \<Rightarrow> 's HashScratchSpace \<Rightarrow> 'h ClusterPassBack \<Rightarrow> 'h ClusterPassBack option" where
  "place_cookie place getCurrentBlock b h cp =
     (let at = (\<lambda>b. case place b (hs_space h) of Some (Some f) \<Rightarrow> Some (cp\<lparr> cp_scratchFile := Some f \<rparr>) | _ \<Rightarrow> None)
      in if getCurrentBlock \<and> b > 0 then at b
         else case cp_cBlock cp of
                Some (j, k) \<Rightarrow> at (cb_blockNum (blocks_at j h ! k))
              | None \<Rightarrow> Some (cp\<lparr> cp_scratchFile := None \<rparr>))"

definition getClusterBlockNum ::
  "(int \<Rightarrow> 's \<Rightarrow> 'h option option) \<Rightarrow> nat \<Rightarrow> 'h ClusterPassBack \<Rightarrow> bool \<Rightarrow> 's HashScratchSpace \<Rightarrow> (int \<times> 'h ClusterPassBack) option" where
  "getClusterBlockNum place c cp getCurrentBlock h =
     (case block_to_read c cp h of
        None \<Rightarrow> None
      | Some None \<Rightarrow> map_option (Pair (- 1)) (place_cookie place getCurrentBlock (- 1) h cp)
      | Some (Some (j, k)) \<Rightarrow>
          let b = cb_blockNum (blocks_at j h ! k)
          in map_option (Pair b) (place_cookie place getCurrentBlock b h (move_cookie (j, k) h cp)))"

definition hash_readThru ::
  "(int \<Rightarrow> 's \<Rightarrow> 'h option option) \<Rightarrow> (int \<Rightarrow> 'h option \<Rightarrow> 's \<Rightarrow> (file_result \<times> byte list) option) \<Rightarrow> nat \<Rightarrow> 'h ClusterPassBack
     \<Rightarrow> 's HashScratchSpace \<Rightarrow> (file_result \<times> byte list \<times> 'h ClusterPassBack) option" where
  "hash_readThru place get c cp h =
     (case getClusterBlockNum place c cp False h of
        None \<Rightarrow> None
      | Some (b, cp') \<Rightarrow>
          if b \<le> 0 then Some (FILE_FAILURE, [], cp')
          else map_option (\<lambda>(rc, d). (rc, d, cp')) (get b (cp_scratchFile cp) (hs_space h)))"

definition hash_writeThru ::
  "('s \<Rightarrow> int) \<Rightarrow> (byte list \<Rightarrow> 's \<Rightarrow> file_result \<times> 's) \<Rightarrow> bool \<Rightarrow> bool \<Rightarrow> nat \<Rightarrow> byte list \<Rightarrow> 's HashScratchSpace
     \<Rightarrow> (file_result \<times> 's HashScratchSpace) option" where
  "hash_writeThru nxt put alloc grow c d h =
     (case registerClusterBlock alloc grow c (nxt (hs_space h)) h of
        None \<Rightarrow> None
      | Some (False, h1) \<Rightarrow> Some (FILE_FAILURE, h1)
      | Some (True, h1) \<Rightarrow> (case put d (hs_space h1) of (rc, s) \<Rightarrow> Some (rc, h1\<lparr> hs_space := s \<rparr>)))"

text \<open>A client that reads a cluster up to the end of the sequence: the data and the ends of batches.\<close>

fun hash_read_all ::
  "(int \<Rightarrow> 's \<Rightarrow> 'h option option) \<Rightarrow> (int \<Rightarrow> 'h option \<Rightarrow> 's \<Rightarrow> (file_result \<times> byte list) option) \<Rightarrow> nat \<Rightarrow> nat
     \<Rightarrow> 'h ClusterPassBack \<Rightarrow> 's HashScratchSpace \<Rightarrow> (byte list \<times> bool) list option" where
  "hash_read_all place get 0 c cp h = None"
| "hash_read_all place get (Suc n) c cp h =
     (case hash_readThru place get c cp h of
        Some (FILE_OK, d, cp') \<Rightarrow>
          if cp_cBlock cp' = None then Some [(d, cp_endOfClusterBatch cp')]
          else map_option ((#) (d, cp_endOfClusterBatch cp')) (hash_read_all place get n c cp' h)
      | _ \<Rightarrow> None)"

text \<open>A client that writes blocks for clusters and goes on while the writes succeed.\<close>

fun hash_write_all ::
  "('s \<Rightarrow> int) \<Rightarrow> (byte list \<Rightarrow> 's \<Rightarrow> file_result \<times> 's) \<Rightarrow> bool \<Rightarrow> bool \<Rightarrow> (nat \<times> byte list) list \<Rightarrow> 's HashScratchSpace
     \<Rightarrow> 's HashScratchSpace option" where
  "hash_write_all nxt put alloc grow [] h = Some h"
| "hash_write_all nxt put alloc grow ((c, d) # w) h =
     (case hash_writeThru nxt put alloc grow c d h of
        Some (FILE_OK, h') \<Rightarrow> hash_write_all nxt put alloc grow w h'
      | _ \<Rightarrow> None)"

section \<open>The directory\<close>

text \<open>The numbers of the blocks that were written for a cluster, in a log of all writes.\<close>

definition positions :: "nat \<Rightarrow> (nat \<times> 'd) list \<Rightarrow> int list" where
  "positions c w = map (\<lambda>k. 1 + int k) (filter (\<lambda>k. fst (w ! k) = c) [0..<length w])"

lemma positions_Nil [simp]: "positions c [] = []"
  by (simp add: positions_def)

lemma positions_snoc: "positions c (w @ [x]) = positions c w @ (if fst x = c then [1 + int (length w)] else [])"
proof -
  have "filter (\<lambda>k. fst ((w @ [x]) ! k) = c) [0..<length w] = filter (\<lambda>k. fst (w ! k) = c) [0..<length w]"
    by (rule filter_cong) (auto simp: nth_append)
  then show ?thesis by (simp add: positions_def)
qed

lemma positions_bound: "b \<in> set (positions c w) \<Longrightarrow> 1 \<le> b \<and> b \<le> int (length w) \<and> fst (w ! nat (b - 1)) = c"
  by (auto simp: positions_def)

lemma positions_data: "map (\<lambda>b. snd (w ! nat (b - 1))) (positions c w) = map snd (filter (\<lambda>x. fst x = c) w)"
proof (induction w rule: rev_induct)
  case (snoc x w)
  have "map (\<lambda>b. snd ((w @ [x]) ! nat (b - 1))) (positions c w) = map (\<lambda>b. snd (w ! nat (b - 1))) (positions c w)"
  proof (rule map_cong [OF refl])
    fix b assume "b \<in> set (positions c w)"
    then have "nat (b - 1) < length w" using positions_bound [of b c w] by auto
    then show "snd ((w @ [x]) ! nat (b - 1)) = snd (w ! nat (b - 1))" by (simp add: nth_append)
  qed
  then show ?case using snoc.IH by (simp add: positions_snoc)
qed simp

text \<open>A batch ends where the numbers have a gap; the last block ends none.\<close>

definition batch_ends :: "int list \<Rightarrow> bool list" where
  "batch_ends bs = map (\<lambda>k. Suc k < length bs \<and> bs ! Suc k \<noteq> bs ! k + 1) [0..<length bs]"

lemma batch_ends_single: "batch_ends [b] = [False]"
  by (simp add: batch_ends_def)

lemma batch_ends_snoc:
  assumes "bs \<noteq> []"
  shows "batch_ends (bs @ [b]) = butlast (batch_ends bs) @ [b \<noteq> last bs + 1, False]"
proof -
  obtain cs c where bs: "bs = cs @ [c]" using assms by (cases bs rule: rev_cases) auto
  have "map (\<lambda>k. Suc k < length (bs @ [b]) \<and> (bs @ [b]) ! Suc k \<noteq> (bs @ [b]) ! k + 1) [0..<length cs]
      = map (\<lambda>k. Suc k < length bs \<and> bs ! Suc k \<noteq> bs ! k + 1) [0..<length cs]"
    by (rule map_cong) (auto simp: bs nth_append)
  then show ?thesis by (simp add: batch_ends_def bs nth_append)
qed

lemma batch_ends_last: "bs \<noteq> [] \<Longrightarrow> last (batch_ends bs) = False \<and> batch_ends bs \<noteq> []"
  by (cases bs rule: rev_cases) (auto simp: batch_ends_def)

definition entry_ok :: "(nat \<times> 'd) list \<Rightarrow> ClusterDirectory \<Rightarrow> bool" where
  "entry_ok w u =
     (cd_clusterID u \<noteq> 0 \<and> cd_blocks u \<noteq> [] \<and> map cb_blockNum (cd_blocks u) = positions (cd_clusterID u) w
      \<and> map cb_endBatch (cd_blocks u) = batch_ends (positions (cd_clusterID u) w))"

text \<open>The used entries come first, one for each cluster in the log; the current one is that of the last write.\<close>

definition directory_ok :: "(nat \<times> 'd) list \<Rightarrow> 's HashScratchSpace \<Rightarrow> bool" where
  "directory_ok w h =
     (\<exists>us m. hs_clusterDList h = us @ replicate m free_entry \<and> distinct (map cd_clusterID us) \<and> (\<forall>u \<in> set us. entry_ok w u)
        \<and> cd_clusterID ` set us = fst ` set w
        \<and> (if w = [] then hs_currentCDir h = None \<and> 0 < m
           else \<exists>i < length us. hs_currentCDir h = Some i \<and> cd_clusterID (us ! i) = fst (last w)))"

lemma entry_ok_other: "entry_ok w u \<Longrightarrow> cd_clusterID u \<noteq> c \<Longrightarrow> entry_ok (w @ [(c, d)]) u"
  by (simp add: entry_ok_def positions_snoc)

lemma link_block_ok:
  assumes "entry_ok w u" and "cd_clusterID u = c" and "w \<noteq> []" and "batch \<longleftrightarrow> fst (last w) \<noteq> c"
  shows "\<exists>u'. link_block batch (1 + int (length w)) u = Some u' \<and> cd_clusterID u' = c \<and> entry_ok (w @ [(c, d)]) u'"
proof -
  let ?bs = "positions c w"
  obtain xs x where x: "cd_blocks u = xs @ [x]" using assms(1) by (cases "cd_blocks u" rule: rev_cases) (auto simp: entry_ok_def)
  have n: "map cb_blockNum xs @ [cb_blockNum x] = ?bs" and e: "map cb_endBatch xs @ [cb_endBatch x] = batch_ends ?bs"
    using assms(1,2) x by (auto simp: entry_ok_def)
  have ne: "?bs \<noteq> []" using n by auto
  have ex: "cb_endBatch x = False" using batch_ends_last [OF ne] e by (metis last_snoc)
  have l: "last ?bs = int (length w) \<longleftrightarrow> fst (last w) = c"
  proof -
    obtain w' y where w: "w = w' @ [y]" using assms(3) by (cases w rule: rev_cases) auto
    show ?thesis
    proof (cases "fst y = c")
      case False
      then have "last ?bs \<in> set (positions c w')" using ne by (simp add: w positions_snoc)
      then show ?thesis using positions_bound [of "last ?bs" c w'] False by (auto simp: w)
    qed (simp add: w positions_snoc)
  qed
  have p: "positions c (w @ [(c, d)]) = ?bs @ [1 + int (length w)]" by (simp add: positions_snoc)
  have be: "batch_ends (?bs @ [1 + int (length w)]) = map cb_endBatch xs @ [batch, False]"
  proof -
    have "butlast (batch_ends ?bs) = map cb_endBatch xs" using arg_cong [OF e, of butlast] by simp
    moreover have "(1 + int (length w) \<noteq> last ?bs + 1) = batch" using l assms(4) by auto
    ultimately show ?thesis using batch_ends_snoc [OF ne, of "1 + int (length w)"] by simp
  qed
  let ?u = "u\<lparr> cd_blocks := xs @ [if batch then x\<lparr> cb_endBatch := True \<rparr> else x, new_block (1 + int (length w))] \<rparr>"
  have "link_block batch (1 + int (length w)) u = Some ?u" by (simp add: link_block_def x)
  moreover have "entry_ok (w @ [(c, d)]) ?u"
    using assms(1,2) n ex by (auto simp: entry_ok_def p be new_block_def)
  ultimately show ?thesis using assms(2) by auto
qed

lemma positions_none:
  assumes "c \<notin> fst ` set w"
  shows "positions c w = []"
proof (rule ccontr)
  assume "positions c w \<noteq> []"
  then have b: "1 \<le> hd (positions c w) \<and> hd (positions c w) \<le> int (length w) \<and> fst (w ! nat (hd (positions c w) - 1)) = c"
    using positions_bound [of "hd (positions c w)" c w] by simp
  then have "w ! nat (hd (positions c w) - 1) \<in> set w" by (intro nth_mem) linarith
  then show False using b assms by (metis imageI)
qed

lemma start_entry_ok: "c \<noteq> 0 \<Longrightarrow> c \<notin> fst ` set w \<Longrightarrow> entry_ok (w @ [(c, d)]) \<lparr> cd_clusterID = c, cd_blocks = [new_block (1 + int (length w))] \<rparr>"
proof -
  assume a: "c \<noteq> 0" "c \<notin> fst ` set w"
  have "positions c w = []" by (rule positions_none [OF a(2)])
  then show ?thesis using a(1) by (simp add: entry_ok_def positions_snoc new_block_def batch_ends_single)
qed

lemma find_entry_used:
  assumes "distinct (map cd_clusterID us)" and "\<forall>u \<in> set us. cd_clusterID u \<noteq> 0" and "j < length us"
  shows "find_entry (cd_clusterID (us ! j)) n (us @ vs) = Some (n + j, True)"
  using assms
proof (induction us arbitrary: n j)
  case (Cons u us)
  show ?case
  proof (cases j)
    case (Suc k)
    then have "cd_clusterID (us ! k) \<noteq> cd_clusterID u" using Cons.prems(1,3) by (metis distinct.simps(2) length_Cons length_map list.simps(9) not_less_eq nth_map nth_mem)
    then show ?thesis using Cons.IH [of k "n + 1"] Cons.prems Suc by simp
  qed simp
qed simp

lemma find_entry_free:
  assumes "\<forall>u \<in> set us. cd_clusterID u \<noteq> 0" and "c \<notin> cd_clusterID ` set us" and "c \<noteq> 0"
  shows "find_entry c n (us @ replicate m free_entry) = (if m = 0 then None else Some (n + length us, False))"
  using assms
proof (induction us arbitrary: n)
  case Nil
  then show ?case by (cases m) (auto simp: free_entry_def)
qed auto

lemma find_cluster_used:
  assumes "distinct (map cd_clusterID us)" and "j < length us"
  shows "find_cluster (cd_clusterID (us ! j)) n (us @ vs) = Some (n + j)"
  using assms
proof (induction us arbitrary: n j)
  case (Cons u us)
  show ?case
  proof (cases j)
    case (Suc k)
    then have "cd_clusterID (us ! k) \<noteq> cd_clusterID u" using Cons.prems(1,2) by (metis distinct.simps(2) length_Cons length_map list.simps(9) not_less_eq nth_map nth_mem)
    then show ?thesis using Cons.IH [of k "n + 1"] Cons.prems Suc by simp
  qed simp
qed simp

text \<open>A used entry gets one more block, or a new entry is used.\<close>

lemma directory_link:
  assumes "hs_clusterDList h' = us[j := u'] @ replicate m free_entry" and "distinct (map cd_clusterID us)" and "\<forall>u \<in> set us. entry_ok w u"
    and "cd_clusterID ` set us = fst ` set w" and "j < length us" and "cd_clusterID (us ! j) = c" and "cd_clusterID u' = c"
    and "entry_ok (w @ [(c, d)]) u'" and "hs_currentCDir h' = Some j"
  shows "directory_ok (w @ [(c, d)]) h'"
proof -
  have ids: "map cd_clusterID (us[j := u']) = map cd_clusterID us"
    using assms(5-7) by (metis length_map list_update_id map_update nth_map)
  have "entry_ok (w @ [(c, d)]) u" if u: "u \<in> set (us[j := u'])" for u
  proof -
    obtain k where k: "k < length us" "us[j := u'] ! k = u" using u by (auto simp: in_set_conv_nth)
    show ?thesis
    proof (cases "k = j")
      case False
      then have "cd_clusterID (us ! k) \<noteq> c"
        using assms(2,5,6) k(1) by (metis length_map nth_eq_iff_index_eq nth_map)
      then show ?thesis using k False assms(3) entry_ok_other [of w u c d] by auto
    qed (use k assms(5,8) in auto)
  qed
  moreover have "cd_clusterID ` set (us[j := u']) = fst ` set (w @ [(c, d)])"
  proof -
    have "cd_clusterID ` set (us[j := u']) = fst ` set w" using ids assms(4) by (metis list.set_map)
    moreover have "c \<in> fst ` set w" using assms(4-6) by (metis imageI nth_mem)
    ultimately show ?thesis by auto
  qed
  ultimately show ?thesis
    using assms(1,2,5,7,9) ids unfolding directory_ok_def by (intro exI [of _ "us[j := u']"] exI [of _ m]) auto
qed

lemma directory_start:
  assumes "hs_clusterDList h' = (us @ [u']) @ replicate m free_entry" and "distinct (map cd_clusterID us)" and "\<forall>u \<in> set us. entry_ok w u"
    and "cd_clusterID ` set us = fst ` set w" and "c \<notin> fst ` set w" and "cd_clusterID u' = c"
    and "entry_ok (w @ [(c, d)]) u'" and "hs_currentCDir h' = Some (length us)"
  shows "directory_ok (w @ [(c, d)]) h'"
proof -
  have "entry_ok (w @ [(c, d)]) u" if "u \<in> set us" for u
    using that assms(3-5) entry_ok_other [of w u c d] by (metis imageI)
  moreover have "distinct (map cd_clusterID (us @ [u']))" using assms(2,4-6) by auto
  moreover have "cd_clusterID ` set (us @ [u']) = fst ` set (w @ [(c, d)])" using assms(4,6) by auto
  ultimately show ?thesis
    using assms(1,6-8) unfolding directory_ok_def by (intro exI [of _ "us @ [u']"] exI [of _ m]) auto
qed

lemma replicate_start: "0 < m \<Longrightarrow> (us @ replicate m x)[length us := y] = (us @ [y]) @ replicate (m - 1) x"
  by (cases m) auto

lemma registerClusterBlock_ok:
  assumes "directory_ok w h" and "c \<noteq> 0"
  shows "\<exists>ok h'. registerClusterBlock alloc grow c (1 + int (length w)) h = Some (ok, h') \<and> hs_space h' = hs_space h
    \<and> (ok \<longrightarrow> directory_ok (w @ [(c, d)]) h') \<and> (alloc \<longrightarrow> grow \<longrightarrow> ok)"
proof -
  let ?b = "1 + int (length w)"
  obtain us m where dl: "hs_clusterDList h = us @ replicate m free_entry" "distinct (map cd_clusterID us)" "\<forall>u \<in> set us. entry_ok w u"
      "cd_clusterID ` set us = fst ` set w"
      and cur: "if w = [] then hs_currentCDir h = None \<and> 0 < m
           else \<exists>i < length us. hs_currentCDir h = Some i \<and> cd_clusterID (us ! i) = fst (last w)"
    using assms(1) by (auto simp: directory_ok_def)
  have nz: "\<forall>u \<in> set us. cd_clusterID u \<noteq> 0" using dl(3) by (simp add: entry_ok_def)
  let ?u = "\<lparr> cd_clusterID = c, cd_blocks = [new_block ?b] \<rparr>"
  consider "w = []" | i where "w \<noteq> []" "i < length us" "hs_currentCDir h = Some i" "cd_clusterID (us ! i) = fst (last w)" "fst (last w) = c"
    | i j where "w \<noteq> []" "hs_currentCDir h = Some i" "i < length us" "cd_clusterID (us ! i) = fst (last w)" "fst (last w) \<noteq> c" "j < length us" "cd_clusterID (us ! j) = c"
    | i where "w \<noteq> []" "hs_currentCDir h = Some i" "i < length us" "cd_clusterID (us ! i) = fst (last w)" "fst (last w) \<noteq> c" "c \<notin> fst ` set w"
    using cur dl(4) by (metis imageE in_set_conv_nth)
  then show ?thesis
  proof cases
    case 1
    then have e: "us = []" "hs_currentCDir h = None" "0 < m" using dl(4) cur by auto
    have "directory_ok (w @ [(c, d)]) (h\<lparr> hs_currentCDir := Some 0, hs_clusterDList := (hs_clusterDList h)[0 := ?u] \<rparr>)"
      by (rule directory_start [OF _ dl(2-4), of _ ?u "m - 1" c d])
        (use 1 e dl(1) replicate_start [OF e(3), of "[]"] start_entry_ok [OF assms(2), of w d] in auto)
    then show ?thesis using e by (auto simp: registerClusterBlock_def Let_def)
  next
    case (2 i)
    obtain u' where u': "link_block False ?b (us ! i) = Some u'" "cd_clusterID u' = c" "entry_ok (w @ [(c, d)]) u'"
      using link_block_ok [of w "us ! i" c False d] dl(3) 2 by auto
    have "directory_ok (w @ [(c, d)]) (h\<lparr> hs_clusterDList := (hs_clusterDList h)[i := u'] \<rparr>)"
      by (rule directory_link [OF _ dl(2-4), of _ i u' m c d]) (use 2 u' dl(1) in \<open>auto simp: list_update_append\<close>)
    then show ?thesis using 2 u'(1) dl(1) by (auto simp: registerClusterBlock_def Let_def nth_append)
  next
    case (3 i j)
    obtain u' where u': "link_block True ?b (us ! j) = Some u'" "cd_clusterID u' = c" "entry_ok (w @ [(c, d)]) u'"
      using link_block_ok [of w "us ! j" c True d] dl(3) 3 by auto
    have "directory_ok (w @ [(c, d)]) (h\<lparr> hs_currentCDir := Some j, hs_clusterDList := (hs_clusterDList h)[j := u'] \<rparr>)"
      by (rule directory_link [OF _ dl(2-4), of _ j u' m c d]) (use 3 u' dl(1) in \<open>auto simp: list_update_append\<close>)
    then show ?thesis using 3 u'(1) dl(1) find_entry_used [OF dl(2) nz 3(6), of 0 "replicate m free_entry"]
      by (auto simp: registerClusterBlock_def Let_def nth_append)
  next
    case (4 i)
    have f: "find_entry c 0 (hs_clusterDList h) = (if m = 0 then None else Some (length us, False))"
      using find_entry_free [OF nz _ assms(2), of 0 m] 4(6) dl(1,4) by simp
    have k: "cd_clusterID (hs_clusterDList h ! i) \<noteq> c" using 4 dl(1) by (simp add: nth_append)
    have st: "directory_ok (w @ [(c, d)]) (h\<lparr> hs_currentCDir := Some (length us), hs_clusterDList := (us @ replicate n free_entry)[length us := ?u] \<rparr>)"
      if "0 < n" for n
      by (rule directory_start [OF _ dl(2-4), of _ ?u "n - 1" c d])
        (use 4 replicate_start [OF that, of us free_entry ?u] start_entry_ok [OF assms(2) 4(6), of d] in auto)
    have "0 < length us" using 4(3) by linarith
    then show ?thesis using 4(2) k f st [of m] st [of "length us"] dl(1) by (auto simp: registerClusterBlock_def Let_def)
  qed
qed

section \<open>What is written is read\<close>

context block_store
begin

definition hash_inv :: "(nat \<times> byte list) list \<Rightarrow> 's HashScratchSpace \<Rightarrow> bool" where
  "hash_inv w h =
     (directory_ok w h \<and> wf (hs_space h) \<and> nxt (hs_space h) = 1 + int (length w)
      \<and> (\<forall>k < length w. stored (hs_space h) (1 + int k) (snd (w ! k))))"

lemma hash_inv_new:
  assumes "wf s" and "nxt s = 1"
  shows "hash_inv [] (hash_new s)"
  using assms unfolding hash_inv_def directory_ok_def hash_new_def
  by (auto intro!: exI [of _ "[]"] exI [of _ INITIAL_MAX_CLUSTERS])

lemma hash_writeThru_works:
  assumes "hash_inv w h" and "c \<noteq> 0" and "hash_writeThru nxt put alloc grow c d h = Some (FILE_OK, h')"
  shows "hash_inv (w @ [(c, d)]) h'"
proof -
  obtain ok h1 where r: "registerClusterBlock alloc grow c (1 + int (length w)) h = Some (ok, h1)" "hs_space h1 = hs_space h"
      "ok \<longrightarrow> directory_ok (w @ [(c, d)]) h1"
    using registerClusterBlock_ok [of w h c alloc grow d] assms(1,2) by (auto simp: hash_inv_def)
  have inv: "wf (hs_space h)" "nxt (hs_space h) = 1 + int (length w)" "\<forall>k < length w. stored (hs_space h) (1 + int k) (snd (w ! k))"
    using assms(1) by (auto simp: hash_inv_def)
  obtain s where s: "ok" "put d (hs_space h) = (FILE_OK, s)" "h' = h1\<lparr> hs_space := s \<rparr>"
    using assms(3) r(1,2) inv(2) by (auto simp: hash_writeThru_def split: bool.splits prod.splits)
  have p: "wf s" "nxt s = nxt (hs_space h) + 1" "stored s (nxt (hs_space h)) d" "\<And>b x. stored (hs_space h) b x \<Longrightarrow> stored s b x"
    using put_law [OF inv(1) s(2)] by auto
  have "directory_ok (w @ [(c, d)]) h'" using r(3) s(1,3) by (simp add: directory_ok_def)
  moreover have "stored s (1 + int k) (snd ((w @ [(c, d)]) ! k))" if "k < length (w @ [(c, d)])" for k
    using that p(3,4) inv(2,3) by (cases "k = length w") (auto simp: nth_append)
  ultimately show ?thesis using p(1,2) inv(2) s(3) by (simp add: hash_inv_def)
qed

lemma hash_write_all_works:
  assumes "hash_inv w0 h" and "0 \<notin> fst ` set w" and "hash_write_all nxt put alloc grow w h = Some h'"
  shows "hash_inv (w0 @ w) h'"
  using assms
proof (induction w arbitrary: w0 h)
  case (Cons x w)
  obtain c d where x: "x = (c, d)" by (cases x)
  obtain h1 where 1: "hash_writeThru nxt put alloc grow c d h = Some (FILE_OK, h1)" "hash_write_all nxt put alloc grow w h1 = Some h'"
    using Cons.prems(3) x by (auto split: option.splits prod.splits file_result.splits)
  have "hash_inv (w0 @ [x]) h1" using hash_writeThru_works [OF Cons.prems(1) _ 1(1)] Cons.prems(2) x by auto
  then show ?case using Cons.IH [OF _ _ 1(2), of "w0 @ [x]"] Cons.prems(2) by auto
qed simp

text \<open>Reading from a position in the blocks of a cluster on.\<close>

lemma hash_read_from:
  assumes "readable" and "hash_inv w h" and "bs = blocks_at j h" and "map cb_blockNum bs = positions c w" and "k < length bs" and "length bs - k \<le> n"
    and "block_to_read c cp h = Some (Some (j, k))"
    and "cp_scratchFile cp = None \<or> place (cb_blockNum (bs ! k)) (hs_space h) = Some (cp_scratchFile cp)"
  shows "hash_read_all place get n c cp h =
    Some (zip (map (\<lambda>b. snd (w ! nat (b - 1))) (drop k (positions c w))) (drop k (map cb_endBatch bs)))"
  using assms
proof (induction n arbitrary: k cp)
  case (Suc n)
  have wf: "wf (hs_space h)" using assms(2) by (simp add: hash_inv_def)
  have len: "length (positions c w) = length bs" using assms(4) by (metis length_map)
  have st: "stored (hs_space h) (cb_blockNum (bs ! i)) (snd (w ! nat (cb_blockNum (bs ! i) - 1)))" if "i < length bs" for i
  proof -
    have e: "cb_blockNum (bs ! i) = positions c w ! i" using that assms(4) by (metis nth_map)
    have "positions c w ! i \<in> set (positions c w)" using that len by simp
    then have b: "1 \<le> positions c w ! i" "positions c w ! i \<le> int (length w)" using positions_bound by blast+
    then have "nat (positions c w ! i - 1) < length w" by linarith
    then have "stored (hs_space h) (1 + int (nat (positions c w ! i - 1))) (snd (w ! nat (positions c w ! i - 1)))"
      using assms(2) unfolding hash_inv_def by blast
    then show ?thesis using b(1) e by simp
  qed
  define b where "b = cb_blockNum (bs ! k)"
  define x where "x = snd (w ! nat (b - 1))"
  have g: "get b (cp_scratchFile cp) (hs_space h) = Some (FILE_OK, x)"
    using get_law [OF assms(1) wf st [OF Suc.prems(5)]] place_law [OF assms(1) wf st [OF Suc.prems(5)]] Suc.prems(8) by (auto simp: b_def x_def)
  have pos: "\<not> b \<le> 0" using stored_pos [OF st [OF Suc.prems(5)]] by (simp add: b_def)
  have dr: "drop k (positions c w) = b # drop (Suc k) (positions c w)" "drop k (map cb_endBatch bs) = cb_endBatch (bs ! k) # drop (Suc k) (map cb_endBatch bs)"
    using Suc.prems(4,5) len Cons_nth_drop_Suc [of k "positions c w"] Cons_nth_drop_Suc [of k "map cb_endBatch bs"]
    by (auto simp: b_def dest: arg_cong [where f = "\<lambda>l. l ! k"])
  show ?case
  proof (cases "Suc k < length bs")
    case True
    obtain f where f: "place (cb_blockNum (bs ! Suc k)) (hs_space h) = Some (Some f)" using place_law [OF assms(1) wf st [OF True]] by blast
    define cp' where "cp' = cp\<lparr> cp_endOfClusterBatch := cb_endBatch (bs ! k), cp_cBlock := Some (j, Suc k), cp_scratchFile := Some f \<rparr>"
    have "getClusterBlockNum place c cp False h = Some (b, cp')"
      using Suc.prems(3,7) True f by (simp add: getClusterBlockNum_def move_cookie_def place_cookie_def b_def cp'_def)
    then have r: "hash_readThru place get c cp h = Some (FILE_OK, x, cp')" using g pos by (simp add: hash_readThru_def)
    have "hash_read_all place get n c cp' h =
        Some (zip (map (\<lambda>b. snd (w ! nat (b - 1))) (drop (Suc k) (positions c w))) (drop (Suc k) (map cb_endBatch bs)))"
      by (rule Suc.IH [OF Suc.prems(1-4) True]) (use Suc.prems(6) f in \<open>auto simp: cp'_def block_to_read_def\<close>)
    then show ?thesis using r dr by (simp add: cp'_def x_def)
  next
    case False
    define cp' where "cp' = cp\<lparr> cp_endOfClusterBatch := cb_endBatch (bs ! k), cp_cBlock := None, cp_scratchFile := None \<rparr>"
    have "getClusterBlockNum place c cp False h = Some (b, cp')"
      using Suc.prems(3,7) False by (simp add: getClusterBlockNum_def move_cookie_def place_cookie_def b_def cp'_def)
    then have r: "hash_readThru place get c cp h = Some (FILE_OK, x, cp')" using g pos by (simp add: hash_readThru_def)
    have "drop (Suc k) (positions c w) = []" "drop (Suc k) (map cb_endBatch bs) = []" using False len by auto
    then show ?thesis using r dr by (simp add: cp'_def x_def)
  qed
qed simp

lemma hash_read_cluster:
  assumes "readable" and "hash_inv w h" and "c \<in> fst ` set w" and "length (positions c w) \<le> n"
  shows "hash_read_all place get n c initCPB h = Some (zip (map snd (filter (\<lambda>x. fst x = c) w)) (batch_ends (positions c w)))"
proof -
  obtain us m where dl: "hs_clusterDList h = us @ replicate m free_entry" "distinct (map cd_clusterID us)" "\<forall>u \<in> set us. entry_ok w u"
      "cd_clusterID ` set us = fst ` set w"
    using assms(2) by (auto simp: hash_inv_def directory_ok_def)
  obtain j where j: "j < length us" "cd_clusterID (us ! j) = c" using assms(3) dl(4) by (metis imageE in_set_conv_nth)
  have u: "entry_ok w (us ! j)" using dl(3) j(1) by simp
  have bs: "blocks_at j h = cd_blocks (us ! j)" using j(1) by (simp add: blocks_at_def dl(1) nth_append)
  have n: "map cb_blockNum (blocks_at j h) = positions c w" and e: "map cb_endBatch (blocks_at j h) = batch_ends (positions c w)"
      and ne: "blocks_at j h \<noteq> []"
    using u j(2) bs by (auto simp: entry_ok_def)
  have "length (blocks_at j h) = length (positions c w)" using n by (metis length_map)
  moreover have "positions c w \<noteq> []" using n ne by auto
  moreover have "block_to_read c initCPB h = Some (Some (j, 0))"
    using find_cluster_used [OF dl(2) j(1), of 0 "replicate m free_entry"] j ne bs dl(1)
    by (simp add: block_to_read_def initCPB_def nth_append)
  ultimately have "hash_read_all place get n c initCPB h =
      Some (zip (map (\<lambda>b. snd (w ! nat (b - 1))) (drop 0 (positions c w))) (drop 0 (map cb_endBatch (blocks_at j h))))"
    using hash_read_from [OF assms(1,2) refl n, of 0 n initCPB] assms(4) ne by (simp add: initCPB_def)
  then show ?thesis by (simp add: positions_data e)
qed

end

section \<open>The hash operators on scratch files\<close>

abbreviation (input) file_place :: "int \<Rightarrow> ScratchSpace \<Rightarrow> (nat \<times> int) option option" where
  "file_place \<equiv> \<lambda>b s. mapBlockNumToScrFile b (ss_scrFilesMap s)"

lemma positions_length: "length (positions c w) \<le> length w"
  by (simp add: positions_def) (metis diff_zero length_filter_le length_upt)

text \<open>
  C10: What a hash operator writes for a cluster is what it reads.  After any interleaving of successful writes, for clusters
  with a number other than 0, reading a cluster with a fresh cookie to the end of its sequence gives exactly the blocks that were written for it,
  in order, wherever in the scratch files they went, and marks as ends of batches those after which a block of
  another cluster was written.
\<close>

theorem hash_round_trip:
  assumes "reads_succeed r" and "0 \<notin> fst ` set w" and "c \<in> fst ` set w"
    and "hash_write_all ss_totalNumOfScrBlocks (space_put e) alloc grow w (hash_new (scratchspace_new n)) = Some h"
  shows "hash_read_all file_place (readFile r) (length w) c initCPB h
    = Some (zip (map snd (filter (\<lambda>x. fst x = c) w)) (batch_ends (positions c w)))"
proof -
  have "scratch_files.hash_inv [] (hash_new (scratchspace_new n))"
    using scratch_files.hash_inv_new [OF files_wf_new, of n] by (simp add: scratchspace_new_def)
  then have "scratch_files.hash_inv ([] @ w) h" using scratch_files.hash_write_all_works [OF _ assms(2,4)] by blast
  then show ?thesis using scratch_files.hash_read_cluster [OF assms(1) _ assms(3) positions_length] by simp
qed

text \<open>An environment in which the first file holds a block and the writes to the second answer \<open>rc\<close>.\<close>

definition two_file_env :: "file_result \<Rightarrow> files_env" where
  "two_file_env rc = willing_env\<lparr> fe_write := (\<lambda>f b. if f = 0 then if b = 1 then FILE_OK else FILE_FULL else rc) \<rparr>"

theorem hash_round_trip_witness:
  "\<exists>h. hash_write_all ss_totalNumOfScrBlocks (space_put (two_file_env FILE_OK)) True True [(1, [10]), (2, [20]), (1, [30])]
         (hash_new (scratchspace_new 1)) = Some h
     \<and> hash_read_all file_place (readFile willing_env) 3 1 initCPB h = Some [([10], True), ([30], False)]"
proof -
  let ?w = "[(1, [10]), (2, [20]), (1, [30])] :: (nat \<times> byte list) list"
  have "hash_write_all ss_totalNumOfScrBlocks (space_put (two_file_env FILE_OK)) True True ?w (hash_new (scratchspace_new 1)) \<noteq> None"
    by code_simp
  then obtain h where h: "hash_write_all ss_totalNumOfScrBlocks (space_put (two_file_env FILE_OK)) True True ?w
      (hash_new (scratchspace_new 1)) = Some h"
    by blast
  have z: "0 \<notin> fst ` set ?w" "1 \<in> fst ` set ?w" by simp_all
  have l: "length ?w = 3" "map snd (filter (\<lambda>x. fst x = 1) ?w) = [[10], [30]]" "positions 1 ?w = [1, 3]" "batch_ends [1, 3] = [True, False]"
    by (simp_all add: positions_def batch_ends_def)
  have "zip [[10], [30]] [True, False] = [([10], True), ([30], False)]" by simp
  then show ?thesis using hash_round_trip [OF reads_succeed_willing z h] h unfolding l by metis
qed


end
