(* ===== verification/Sort_Cleanup.thy ===== *)
theory Sort_Cleanup
  imports Sort_Files Sort_Scratch
begin

text \<open>
  The cleanup of scratch files between intermediate merges (\<^verbatim>\<open>SortScratchSpace::cleanupScratchFiles\<close> of \<^verbatim>\<open>ScratchSpace.cpp\<close>), where the
  directory of runs meets the map of files: the files that hold only blocks of merged runs are closed.  The directory is
  in the order of the blocks whatever was written, so no block of a run that is left is lost.
\<close>

section \<open>The code\<close>

definition cleanupScratchFiles :: "nat \<Rightarrow> SortScratchSpace \<Rightarrow> ScratchSpace \<Rightarrow> RESULT \<times> ScratchSpace" where
  "cleanupScratchFiles inRun s f =
     (let beginBlockNum = mapRunNumberToFirstSBN (inRun + 1) s
      in if beginBlockNum = EOF_BLOCK then (SCRATCH_FAILURE, f)
         else (SCRATCH_SUCCESS, f\<lparr> ss_scrFilesMap := closeScrFilesUpto beginBlockNum (ss_scrFilesMap f) \<rparr>))"

section \<open>The order of the directory\<close>

definition runs_in_order :: "SortScratchSpace \<Rightarrow> bool" where
  "runs_in_order s =
     (sorted (sc_runDirectory s) \<and> 1 \<le> sc_totalNumOfScrBlocks s
      \<and> (\<forall>b \<in> set (sc_runDirectory s). 1 \<le> b \<and> b \<le> sc_totalNumOfScrBlocks s))"

lemma runs_in_order_new [simp]: "runs_in_order (scratch_new bs pb)"
  by (simp add: runs_in_order_def scratch_new_def)

lemma runs_in_order_start [intro]: "runs_in_order s \<Longrightarrow> runs_in_order (startNewRun s)"
  by (auto simp: runs_in_order_def startNewRun_def sorted_append)

lemma runs_in_order_flush: "runs_in_order s \<Longrightarrow> runs_in_order (snd (flushRun e endrun s))"
  by (fastforce simp: runs_in_order_def flushRun_def switchScratchBuffers_def Let_def)

lemma runs_in_order_put [simp]: "runs_in_order (block_put d s) = runs_in_order s"
  by (simp add: runs_in_order_def block_put_def)

lemma runs_in_order_write:
  assumes "runs_in_order s" and "writeRunData e d run s = Some (rc, s')"
  shows "runs_in_order s'"
proof -
  let ?s = "if run \<noteq> sc_currentRun s then startNewRun s else s"
  have s: "runs_in_order ?s" using assms(1) by auto
  then have "runs_in_order (snd (flushRun e False ?s))" by (rule runs_in_order_flush)
  then show ?thesis using s assms(2)
    by (auto simp: writeRunData_def Let_def split: if_splits prod.splits RESULT.splits)
qed

lemma runs_in_order_records:
  assumes "runs_in_order s" and "write_records e run rs s = Some (rc, s')"
  shows "runs_in_order s'"
  using assms
proof (induction rs arbitrary: s)
  case (Cons r rs)
  obtain rc1 s1 where w: "writeRunData e r run s = Some (rc1, s1)"
    using Cons.prems(2) by (auto split: option.splits)
  have "runs_in_order s1" using runs_in_order_write [OF Cons.prems(1) w] .
  then show ?case using Cons.IH [of s1] Cons.prems(2) w by (auto split: RESULT.splits)
qed simp

section \<open>Blocks that are kept\<close>

lemma first_block_mono:
  assumes "runs_in_order s" and "1 \<le> p" and "p \<le> q" and "q \<le> getTotalNumOfRuns s"
  shows "1 \<le> mapRunNumberToFirstSBN p s" and "mapRunNumberToFirstSBN p s \<le> mapRunNumberToFirstSBN q s"
proof -
  have "sc_runDirectory s ! (p - 1) \<le> sc_runDirectory s ! (q - 1)"
    using assms by (intro sorted_nth_mono) (auto simp: runs_in_order_def getTotalNumOfRuns_def)
  moreover have "1 \<le> sc_runDirectory s ! (p - 1)"
    using assms by (auto simp: runs_in_order_def getTotalNumOfRuns_def)
  ultimately show "1 \<le> mapRunNumberToFirstSBN p s" and "mapRunNumberToFirstSBN p s \<le> mapRunNumberToFirstSBN q s"
    using assms by (simp_all add: mapRunNumberToFirstSBN_def getTotalNumOfRuns_def)
qed

text \<open>
  C11: The cleanup between intermediate merges takes nothing from the runs that are left.  After the runs up to \<open>inRun\<close> are merged, it succeeds,
  and every block of a later run that the files held before is still found by its number and read back.
\<close>

theorem cleanup_keeps_runs:
  assumes "reads_succeed e" and "files_wf f" and "runs_in_order s"
    and "inRun < run" and "run \<le> getTotalNumOfRuns s" and "mapRunNumberToFirstSBN run s \<le> b" and "holds f b d"
  shows "\<exists>f'. cleanupScratchFiles inRun s f = (SCRATCH_SUCCESS, f') \<and> files_wf f' \<and> readFile e b None f' = Some (FILE_OK, d)"
proof -
  let ?u = "mapRunNumberToFirstSBN (inRun + 1) s"
  let ?f = "f\<lparr> ss_scrFilesMap := closeScrFilesUpto ?u (ss_scrFilesMap f) \<rparr>"
  have u: "1 \<le> ?u" "?u \<le> b" using first_block_mono [OF assms(3), of "inRun + 1" run] assms(4-6) by auto
  have k: "files_wf ?f" "holds ?f b d" using close_keeps(1) [OF assms(2) refl] close_keeps(2) [OF assms(2) refl u(2) assms(7)] by auto
  have "cleanupScratchFiles inRun s f = (SCRATCH_SUCCESS, ?f)" using u(1) by (simp add: cleanupScratchFiles_def)
  then show ?thesis using k holds_read(2) [OF assms(1) k] by blast
qed

text \<open>Three runs of a block each, in a file each; the cleanup after the first run closes its file.\<close>

definition three_runs :: SortScratchSpace where
  "three_runs = (scratch_new 512 1)\<lparr> sc_runDirectory := [1, 2, 3], sc_totalNumOfScrBlocks := 4 \<rparr>"

definition three_files :: ScratchSpace where
  "three_files =
     \<lparr> ss_blockSize = 1,
       ss_scrFilesMap = \<lparr> sm_fileMap = map (\<lambda>b. \<lparr> fm_firstScrBlockWritten = b, fm_scrFile = Some ((\<lambda>_. None)(0 \<mapsto> [word_of_int b])) \<rparr>) [1, 2, 3],
         sm_maxScratchFiles = MAXSCRFILES, sm_currentScratchFiles = 3 \<rparr>,
       ss_currentWriteScrFile = Some 2, ss_totalNumOfScrBlocks = 4 \<rparr>"

theorem cleanup_keeps_runs_witness:
  "readFile willing_env 2 None (snd (cleanupScratchFiles 1 three_runs three_files)) = Some (FILE_OK, [2])
   \<and> fm_scrFile (hd (sm_fileMap (ss_scrFilesMap (snd (cleanupScratchFiles 1 three_runs three_files))))) = None"
proof
  have r: "runs_in_order three_runs" by (simp add: three_runs_def runs_in_order_def)
  have w: "files_wf three_files" by (simp add: files_wf_def three_files_def)
  have h: "holds three_files 2 [2]"
    by (auto simp: holds_def three_files_def block_index_def Let_def intro!: exI [of _ 1])
  have m: "2 \<le> getTotalNumOfRuns three_runs" "mapRunNumberToFirstSBN 2 three_runs \<le> 2"
    by (simp_all add: three_runs_def getTotalNumOfRuns_def mapRunNumberToFirstSBN_def)
  show "readFile willing_env 2 None (snd (cleanupScratchFiles 1 three_runs three_files)) = Some (FILE_OK, [2])"
    using cleanup_keeps_runs [OF reads_succeed_willing w r _ m h, of 1] by auto
  show "fm_scrFile (hd (sm_fileMap (ss_scrFilesMap (snd (cleanupScratchFiles 1 three_runs three_files))))) = None"
    by (simp add: cleanupScratchFiles_def three_runs_def three_files_def closeScrFilesUpto_def mapRunNumberToFirstSBN_def)
qed

end
