(* ===== verification/Spec2Isabelle.thy ===== *)
theory Spec2Isabelle
  imports Tm_Pool Tm_Defects Tm_TimerMain Tm_Recovery Sort_Util Sort_Hash Sort_Cleanup
begin

text \<open>
  A verification of two parts of Trafodion.  The first is the distributed transaction manager (DTM), the C++ process
  under \<^verbatim>\<open>src/sqf/src/tm\<close> that runs one instance per node and decides the outcome of every
  transaction.  The second is the sort library of the SQL executor under \<^verbatim>\<open>src/sql/sort\<close>, with the scratch space that it shares
  with the hash operators.  The theories of the first are named \<^verbatim>\<open>Tm_\<close>, those of the second \<^verbatim>\<open>Sort_\<close>; file names below
  are relative to the two directories.

  \<^bold>\<open>The transaction manager.\<close>  An application begins, joins, suspends, ends or aborts a transaction by messages
  to the transaction manager.  Each transaction is an object \<^verbatim>\<open>TM_TX_Info\<close> taken from a pool; a
  worker thread takes the messages of a transaction off its queue one at a time.  To end a
  transaction its state machine asks every branch for a vote (the resource managers called TSEs
  through the XA protocol, and the HBase regions through a client library), writes a commit record to the audit
  trail, tells the branches the outcome and forgets the transaction.  Branches that cannot
  be told leave it hung; the timer thread then redrives it.  The timer thread also runs
  control points, the retries of failed opens, and the enabling, disabling and shutdown of the
  whole process.  Recovery reads the audit trail after a failure and settles what was in doubt.

  \<^bold>\<open>The sort library.\<close>  A sort operator sends records to \<^verbatim>\<open>SortUtil\<close>, which collects them in an array of keys.  When the array or the
  memory is full, the array is sorted (quicksort, heapsort or an iterative quicksort) and written as a run to the scratch space, in
  blocks with a header.  At the end of the input the runs are merged by a tournament tree, in passes of intermediate merges when there are
  more runs than the merge order, and the last merge delivers the records one by one.  When nothing was written the sorted array
  itself is delivered.  The hash operators write blocks for clusters in any order and read them back cluster by cluster.
  Both put their blocks in scratch files, a new one when a file is full.

  \<^bold>\<open>Conventions.\<close>  A class is a record and a method is a function from its old to its new value.
  The result \<^const>\<open>None\<close> stands for a call of \<^verbatim>\<open>abort()\<close>, the use of memory that was freed or
  never owned, an access outside an array, a failed assertion, or a loop that does not end.  Objects that are reached through several pointers (the messages of
  a transaction, the timer events) live in an explicit store, so that a second deletion or a
  use after deletion is visible.  What is outside this code (the XA library and the resource
  managers, the HBase client, the clock, the monitor, the threads that post to a queue, the file system, the heap) is an
  argument of the functions: an environment record whose answers are arbitrary.  What the code
  does to the outside is appended, in order, to a trace or a list of actions.  An operation
  that runs under a lock is one atomic step; locks themselves are not part of any state.
  Tracing, event logging and the test points of debug builds are left out.

  \<^bold>\<open>The theories of the transaction manager.\<close>
  \<^item> \<^verbatim>\<open>Tm_Prelude\<close>: return codes, states and message types of the interface headers, rules for the
    option monad, generic facts on lists.
  \<^item> \<^verbatim>\<open>Tm_Containers\<close>: \<^verbatim>\<open>TM_DEQUE\<close> (\<^verbatim>\<open>tmdeque.cpp\<close>), \<^verbatim>\<open>TM_MAP\<close> (\<^verbatim>\<open>tmmap.cpp\<close>) and the packed keys
    \<^verbatim>\<open>CTmTxKey\<close> (\<^verbatim>\<open>tmtxkey.h\<close>), with the validity of their iterators.  Two locales state what clients
    rely on, a queue and an ordered store; the models are interpretations of them.
  \<^item> \<^verbatim>\<open>Tm_MultiMap\<close>: \<^verbatim>\<open>TM_MMAP\<close> (\<^verbatim>\<open>tmmmap.cpp\<close>) as an interpretation of an ordered multimap,
    and that its contents are a stable sort of what was put.
  \<^item> \<^verbatim>\<open>Tm_Time\<close>: the time arithmetic of \<^verbatim>\<open>tmtime.h\<close> with its 64-bit wrap-around.
  \<^item> \<^verbatim>\<open>Tm_Pool\<close>: the object pool \<^verbatim>\<open>CTmPool\<close> (\<^verbatim>\<open>tmpool.h\<close>); accounting along every sequence of
    operations, and the outcome of each allocation.
  \<^item> \<^verbatim>\<open>Tm_TseBranch\<close>: the table of resource managers and its slots (\<^verbatim>\<open>tmrmtsebranch.cpp\<close>, the table
    operations of \<^verbatim>\<open>tmrmtse.cpp\<close>).
  \<^item> \<^verbatim>\<open>Tm_World\<close>: the state a transaction works on, with messages (\<^verbatim>\<open>tmtxmsg.cpp\<close>), the counters of
    \<^verbatim>\<open>tminfo.cpp\<close>, the environment and the trace.  \<^verbatim>\<open>Tm_Samples\<close> is a small concrete system.
  \<^item> \<^verbatim>\<open>Tm_TseXa\<close>: the broadcasts of start, end, prepare, commit, rollback and forget to the TSEs, with
    their passes and retries (\<^verbatim>\<open>tmrmtse.cpp\<close>, \<^verbatim>\<open>xatmapi.cpp\<close>); who has voted after a prepare.
  \<^item> \<^verbatim>\<open>Tm_Branches\<close>: the HBase branches (\<^verbatim>\<open>tmrmhbase.cpp\<close>) and the combination of both kinds
    (\<^verbatim>\<open>tmtxbranches.cpp\<close>).
  \<^item> \<^verbatim>\<open>Tm_TxBase\<close>, \<^verbatim>\<open>Tm_TxInfo\<close>: the base class of transactions (\<^verbatim>\<open>tmtxbase.cpp\<close>), and the state machine
    and all requests (\<^verbatim>\<open>tmtx.cpp\<close>), ending in the dispatch of a queued message.
  \<^item> \<^verbatim>\<open>Tm_TwoPhase\<close>: what the trace of one commit or rollback looks like: the order of votes, record and
    outcome, the truth of the answer to the application, presumed abort.
  \<^item> \<^verbatim>\<open>Tm_Requests\<close>, \<^verbatim>\<open>Tm_Atomicity\<close>: a locale that lifts a relation from the steps of the state
    machine to the service of every request, and from it the agreement of everything ever
    done for a transaction on one outcome.
  \<^item> \<^verbatim>\<open>Tm_Hung\<close>, \<^verbatim>\<open>Tm_Defects\<close>: the count of hung transactions, the participants, the ownership of
    messages, and the places where the code departs from its intention.
  \<^item> \<^verbatim>\<open>Tm_Timer\<close>, \<^verbatim>\<open>Tm_TimerMain\<close>: the timer object (\<^verbatim>\<open>tmtimer.cpp\<close>) and the timer thread with the
    administrative requests (\<^verbatim>\<open>tmtimermain.cpp\<close>, parts of \<^verbatim>\<open>tminfo.cpp\<close> and \<^verbatim>\<open>tm.cpp\<close>).  The ownership of
    events is an invariant of every run of the thread; the order of the list, the drain of a
    shutdown and the repetition of control points rest on it.
  \<^item> \<^verbatim>\<open>Tm_Recovery\<close>: the scan of the audit trail, the questions to the TSEs and the resolution of
    transactions in doubt (\<^verbatim>\<open>tmrecov.cpp\<close>, \<^verbatim>\<open>tmrecovstate.cpp\<close>); the scan is shown equal to a
    reading of the records of one transaction alone.

  \<^bold>\<open>The theories of the sort library.\<close>
  \<^item> \<^verbatim>\<open>Sort_Prelude\<close>: bytes, the comparison of encoded keys (\<^verbatim>\<open>SortAlgo.cpp\<close>) and records (\<^verbatim>\<open>Record.cpp\<close>), with generic facts on sorted lists.
  \<^item> \<^verbatim>\<open>Sort_Qsort\<close>, \<^verbatim>\<open>Sort_Heap\<close>, \<^verbatim>\<open>Sort_Iter\<close>: the three sorts of \<^verbatim>\<open>Qsort.cpp\<close> with every array access checked.  Each returns, and gives a
    sorted permutation; the iterative one needs a larger stack than it allocates.
  \<^item> \<^verbatim>\<open>Sort_Scratch\<close>, \<^verbatim>\<open>Sort_Runs\<close>: the scratch space of the sort (\<^verbatim>\<open>SortScratchSpace\<close>, \<^verbatim>\<open>SortMergeNode\<close> of \<^verbatim>\<open>ScratchSpace.cpp\<close>,
    \<^verbatim>\<open>RunDirectory.cpp\<close>) on a disk of blocks, and that a run that was written is read back through a merge node, whatever
    the order in which reads complete.
  \<^item> \<^verbatim>\<open>Sort_Tree\<close>: the tournament tree (\<^verbatim>\<open>TourTree.cpp\<close>, \<^verbatim>\<open>TreeNode.cpp\<close>).  \<^verbatim>\<open>Sort_Merge\<close> proves the final merge in a locale of a source of
    sorted runs, \<^verbatim>\<open>Sort_InterMerge\<close> the intermediate merge with a locale of a sink; the scratch space is the interpretation of both.
  \<^item> \<^verbatim>\<open>Sort_Schedule\<close>: the passes of merges (\<^verbatim>\<open>SortUtil::sortSendEndProcessing\<close>): with readable and writable blocks they end and lose no record, and the places where a failure or a key of all ones breaks them.
  \<^item> \<^verbatim>\<open>Sort_Util\<close>: the object \<^verbatim>\<open>Qsort\<close> and the client interface (\<^verbatim>\<open>SortUtil.cpp\<close>).  A step relation is the phase in which records are sent; from
    every state it reaches, what is received is the sorted order of what was sent.
  \<^item> \<^verbatim>\<open>Sort_Files\<close>: the map of scratch files (\<^verbatim>\<open>ScratchFileMap.cpp\<close>) and the base class \<^verbatim>\<open>ScratchSpace\<close>, as an interpretation of a store of
    numbered blocks.
  \<^item> \<^verbatim>\<open>Sort_Hash\<close>: the scratch space of the hash operators on such a store, and its round trip.
  \<^item> \<^verbatim>\<open>Sort_Cleanup\<close>: the closing of files between merges, where the directory of runs meets the map of files.

  \<^bold>\<open>How the parts meet.\<close>  \<^verbatim>\<open>Tm_World\<close> uses the containers, the time and the branch table; the
  state machine uses the branches, which use the broadcasts.  A timer event that expires for a
  transaction becomes the message that \<^verbatim>\<open>Tm_TxInfo\<close> dispatches as a redrive or a timeout.
  Recovery and the timer thread record what they ask of the transactions (a redrive, an abort of
  all) as actions; the transaction side of these requests is in \<^verbatim>\<open>Tm_TxInfo\<close>.  In the sort library \<^verbatim>\<open>Sort_Util\<close> uses the sorts, the scratch
  space and the schedule, which uses the tree.  The scratch space of the sort has an array of blocks as its disk; that blocks put in
  files are found again is shown in \<^verbatim>\<open>Sort_Files\<close>, and is used by \<^verbatim>\<open>Sort_Hash\<close> and \<^verbatim>\<open>Sort_Cleanup\<close>.

  \<^bold>\<open>Bounds.\<close>  Loops over states, branches, records and list elements are structural or carry a
  termination proof.  Walks over a container that the body changes have fuel, the number of elements at the start.
  The loops of the merges have no bound in the code and are partial functions; the lemmas of \<^verbatim>\<open>Sort_Merge\<close>, \<^verbatim>\<open>Sort_InterMerge\<close> and
  \<^verbatim>\<open>Sort_Schedule\<close> show that they return.  A client that receives a sort or reads a cluster has a number of calls;
  the properties show that one call for each record and one for the end are enough, or one for each block.
  Numbers of the source are 32-bit or 64-bit words where their width matters (keys, transids, expiry
  times, flags), otherwise integers.

  \<^bold>\<open>Not modelled.\<close>  Of the transaction manager: the main program and the receipt of messages (\<^verbatim>\<open>tm.cpp\<close>), threads and mutexes, the
  layout of audit records (\<^verbatim>\<open>tmauditobj.cpp\<close>), the synchronisation of TMs (\<^verbatim>\<open>tmsync.cpp\<close>), the
  second phase of shutdown, statistics and the client libraries: they are I/O, concurrency or marshalling around the modelled
  state.  Of the sort library: the file system layer (\<^verbatim>\<open>scratchfile_sq.cpp\<close>), the choice of disks, vectors of several blocks, the checks for
  pending I/O of the hash operators, the memory quota and heap (their answers are arguments), statistics, and
  the run generation by replacement selection, which nothing calls.  The rest of Trafodion (the SQL compiler and
  executor, connectivity, Seabed, the monitor) only calls these parts or is called by them.
\<close>

end
